(* ===== verification/Prelude.thy ===== *)
theory Prelude
  imports Main "HOL-Library.Word" "HOL-Library.Sublist"
begin

text \<open>
  What the components share: the machine integers of the code (\<open>u8\<close>, \<open>u16\<close>, \<open>u64\<close>) with the
  saturating operations of Rust's \<open>u64\<close>, and the methods of \<open>str\<close> that the source uses.

  A Rust string is the list of its UTF-8 bytes, one HOL character per byte, so \<open>length\<close> is
  \<open>str::len\<close>. A byte buffer (\<open>Vec<u8>\<close>) is a list of \<open>u8\<close>. Sizes in memory (\<open>usize\<close>, 64 bits on the
  platforms the crate targets) are read through \<open>unat\<close>; the length of a buffer is a natural number.

  The collection \<open>str_simps\<close> holds the rewrite rules on strings that the component theories use.
\<close>

named_theorems str_simps \<open>rewrite rules for the string functions\<close>

section \<open>Machine integers\<close>

type_synonym u8 = "8 word"
type_synonym u16 = "16 word"
type_synonym u32 = "32 word"
type_synonym u64 = "64 word"
type_synonym usize = "64 word"
type_synonym bytes = "u8 list"

text \<open>\<open>u64::saturating_add\<close> and \<open>u64::saturating_sub\<close>.\<close>

definition sat_add :: "u64 \<Rightarrow> u64 \<Rightarrow> u64" where
  "sat_add a b = (if unat a + unat b < 2 ^ 64 then a + b else - 1)"

definition sat_sub :: "u64 \<Rightarrow> u64 \<Rightarrow> u64" where
  "sat_sub a b = (if a < b then 0 else a - b)"

lemma unat_max_u64 [simp]: "unat (- 1 :: u64) = 2 ^ 64 - 1"
  by (simp add: unsigned_minus_1_eq_mask mask_eq_exp_minus_1)

lemma unat_sat_add: "unat (sat_add a b) = min (unat a + unat b) (2 ^ 64 - 1)"
proof (cases "unat a + unat b < 2 ^ 64")
  case True
  then show ?thesis
    by (simp add: sat_add_def unat_word_ariths)
next
  case False
  then show ?thesis by (simp add: sat_add_def)
qed

lemma unat_sat_sub: "unat (sat_sub a b) = unat a - unat b"
  by (auto simp: sat_sub_def unat_sub word_le_nat_alt word_less_nat_alt not_less)

lemma unat_of_nat_u64: "n < 2 ^ 64 \<Longrightarrow> unat (of_nat n :: u64) = n"
  by (simp add: unat_of_nat take_bit_nat_eq_self_iff)

text \<open>\<open>bytes.len() as u64\<close>.\<close>

definition len64 :: "bytes \<Rightarrow> u64" where
  "len64 b = of_nat (length b)"

lemma unat_len64: "length b < 2 ^ 64 \<Longrightarrow> unat (len64 b) = length b"
  by (simp add: len64_def unat_of_nat_u64)

section \<open>Characters\<close>

abbreviation code :: "char \<Rightarrow> nat" where
  "code c \<equiv> of_char c"

lemma code_inject: "code c = code d \<longleftrightarrow> c = d"
  by (metis char_of_char)

definition is_ascii_hexdigit :: "char \<Rightarrow> bool" where
  "is_ascii_hexdigit c \<longleftrightarrow>
     (48 \<le> code c \<and> code c \<le> 57) \<or> (65 \<le> code c \<and> code c \<le> 70) \<or> (97 \<le> code c \<and> code c \<le> 102)"

text \<open>A digit of the output of \<open>hex::encode\<close>: \<open>0\<close>-\<open>9\<close> or \<open>a\<close>-\<open>f\<close>.\<close>

definition is_lower_hexdigit :: "char \<Rightarrow> bool" where
  "is_lower_hexdigit c \<longleftrightarrow> (48 \<le> code c \<and> code c \<le> 57) \<or> (97 \<le> code c \<and> code c \<le> 102)"

text \<open>
  \<open>str::to_lowercase\<close> on the ASCII letters; every other byte is kept. The code lower-cases only
  content hashes; theory \<open>Content_Hash\<close> shows that on them the Unicode method cannot give anything else.
\<close>

definition lower_char :: "char \<Rightarrow> char" where
  "lower_char c = (if 65 \<le> code c \<and> code c \<le> 90 then char_of (code c + 32) else c)"

definition to_lowercase :: "string \<Rightarrow> string" where
  "to_lowercase s = map lower_char s"

lemma code_lower_char:
  "code (lower_char c) = (if 65 \<le> code c \<and> code c \<le> 90 then code c + 32 else code c)"
  by (simp add: lower_char_def)

lemma lower_lower_char [simp]: "lower_char (lower_char c) = lower_char c"
  by (simp add: lower_char_def)

lemma lower_hex_char: "is_lower_hexdigit c \<Longrightarrow> lower_char c = c"
  by (auto simp: is_lower_hexdigit_def lower_char_def)

lemma hexdigit_lower_char: "is_ascii_hexdigit (lower_char c) = is_ascii_hexdigit c"
  unfolding is_ascii_hexdigit_def code_lower_char by auto

lemma lower_hexdigit_lower_char: "is_ascii_hexdigit c \<Longrightarrow> is_lower_hexdigit (lower_char c)"
  unfolding is_ascii_hexdigit_def is_lower_hexdigit_def code_lower_char by auto

lemma lower_hexdigit_is_hexdigit: "is_lower_hexdigit c \<Longrightarrow> is_ascii_hexdigit c"
  by (auto simp: is_lower_hexdigit_def is_ascii_hexdigit_def)

lemma to_lowercase_idem [simp]: "to_lowercase (to_lowercase s) = to_lowercase s"
  by (simp add: to_lowercase_def)

lemma length_to_lowercase [simp]: "length (to_lowercase s) = length s"
  by (simp add: to_lowercase_def)

lemma to_lowercase_append [str_simps]: "to_lowercase (s @ t) = to_lowercase s @ to_lowercase t"
  by (simp add: to_lowercase_def)

lemma to_lowercase_lower_hex: "list_all is_lower_hexdigit s \<Longrightarrow> to_lowercase s = s"
  by (simp add: to_lowercase_def list_all_iff lower_hex_char map_idI)

section \<open>Prefixes, suffixes, splitting\<close>

definition strip_prefix :: "string \<Rightarrow> string \<Rightarrow> string option" where
  "strip_prefix p s = (if take (length p) s = p then Some (drop (length p) s) else None)"

definition strip_suffix :: "string \<Rightarrow> string \<Rightarrow> string option" where
  "strip_suffix p s = map_option rev (strip_prefix (rev p) (rev s))"

definition starts_with :: "string \<Rightarrow> string \<Rightarrow> bool" where
  "starts_with s p \<longleftrightarrow> take (length p) s = p"

definition ends_with :: "string \<Rightarrow> string \<Rightarrow> bool" where
  "ends_with s p \<longleftrightarrow> starts_with (rev s) (rev p)"

lemma strip_prefix_Some_iff: "strip_prefix p s = Some t \<longleftrightarrow> s = p @ t"
  by (auto simp: strip_prefix_def) (metis append_take_drop_id)

lemma strip_prefix_append [str_simps]: "strip_prefix p (p @ t) = Some t"
  by (simp add: strip_prefix_Some_iff)

lemma strip_suffix_Some_iff: "strip_suffix p s = Some t \<longleftrightarrow> s = t @ p"
proof -
  have "strip_suffix p s = Some t \<longleftrightarrow> strip_prefix (rev p) (rev s) = Some (rev t)"
    by (auto simp: strip_suffix_def)
  also have "\<dots> \<longleftrightarrow> s = t @ p"
    by (simp add: strip_prefix_Some_iff) (metis rev_append rev_rev_ident)
  finally show ?thesis .
qed

lemma strip_suffix_append [str_simps]: "strip_suffix p (t @ p) = Some t"
  by (simp add: strip_suffix_Some_iff)

lemma starts_with_iff: "starts_with s p \<longleftrightarrow> (\<exists>t. s = p @ t)"
  by (auto simp: starts_with_def) (metis append_take_drop_id)

lemma ends_with_iff: "ends_with s p \<longleftrightarrow> (\<exists>t. s = t @ p)"
  by (auto simp: ends_with_def starts_with_iff) (metis rev_append rev_rev_ident)+

text \<open>\<open>str::contains\<close> with a string pattern, \<open>str::split_once\<close> with a character.\<close>

fun contains_str :: "string \<Rightarrow> string \<Rightarrow> bool" where
  "contains_str [] p = (p = [])"
| "contains_str (c # s) p = (starts_with (c # s) p \<or> contains_str s p)"

fun split_once :: "char \<Rightarrow> string \<Rightarrow> (string \<times> string) option" where
  "split_once d [] = None"
| "split_once d (c # s) =
     (if c = d then Some ([], s) else map_option (\<lambda>(a, b). (c # a, b)) (split_once d s))"

lemma contains_str_iff: "contains_str s p \<longleftrightarrow> (\<exists>a b. s = a @ p @ b)"
proof (induction s)
  case Nil
  then show ?case by auto
next
  case (Cons c s)
  have "(\<exists>a b. c # s = a @ p @ b) \<longleftrightarrow> starts_with (c # s) p \<or> (\<exists>a b. s = a @ p @ b)"
  proof
    assume "\<exists>a b. c # s = a @ p @ b"
    then obtain a b where ab: "c # s = a @ p @ b" by blast
    show "starts_with (c # s) p \<or> (\<exists>a b. s = a @ p @ b)"
      using ab by (cases a) (auto simp: starts_with_iff)
  next
    assume "starts_with (c # s) p \<or> (\<exists>a b. s = a @ p @ b)"
    then show "\<exists>a b. c # s = a @ p @ b"
      by (auto simp: starts_with_iff) (metis append_Nil, metis append_Cons)
  qed
  with Cons.IH show ?case by simp
qed

lemma split_once_Some_iff: "split_once d s = Some (a, b) \<longleftrightarrow> s = a @ d # b \<and> d \<notin> set a"
proof (induction s arbitrary: a)
  case Nil
  then show ?case by simp
next
  case (Cons c s)
  show ?case
    by (cases a) (auto simp: Cons.IH)
qed

lemma split_once_None_iff: "split_once d s = None \<longleftrightarrow> d \<notin> set s"
  by (induction s) auto

text \<open>
  \<open>str::trim_start_matches\<close> and \<open>trim_end_matches\<close>: with a character, and with a string pattern,
  which is removed as often as it occurs at the start.
\<close>

definition trim_start_char :: "char \<Rightarrow> string \<Rightarrow> string" where
  "trim_start_char c s = dropWhile (\<lambda>x. x = c) s"

definition trim_end_char :: "char \<Rightarrow> string \<Rightarrow> string" where
  "trim_end_char c s = rev (dropWhile (\<lambda>x. x = c) (rev s))"

function trim_start_str :: "string \<Rightarrow> string \<Rightarrow> string" where
  "trim_start_str p s =
     (if p \<noteq> [] \<and> starts_with s p then trim_start_str p (drop (length p) s) else s)"
  by pat_completeness auto
termination
  by (relation "measure (\<lambda>(p, s). length s)") (auto simp: starts_with_iff)

declare trim_start_str.simps [simp del]

lemma trim_start_str_stop: "\<not> starts_with s p \<Longrightarrow> trim_start_str p s = s"
  by (subst trim_start_str.simps) simp

lemma trim_start_str_not_prefix: "p \<noteq> [] \<Longrightarrow> \<not> starts_with (trim_start_str p s) p"
proof (induction p s rule: trim_start_str.induct)
  case (1 p s)
  then show ?case by (subst trim_start_str.simps) auto
qed

text \<open>\<open>str::replace\<close>: the matches are found from the left and do not overlap.\<close>

function replace_str :: "string \<Rightarrow> string \<Rightarrow> string \<Rightarrow> string" where
  "replace_str p r s =
     (if p \<noteq> [] \<and> starts_with s p then r @ replace_str p r (drop (length p) s)
      else case s of [] \<Rightarrow> [] | c # t \<Rightarrow> c # replace_str p r t)"
  by pat_completeness auto
termination
  by (relation "measure (\<lambda>(p, r, s). length s)") (auto simp: starts_with_iff)

declare replace_str.simps [simp del]

lemma replace_str_Nil [str_simps]: "replace_str p r [] = []"
  by (subst replace_str.simps) (auto simp: starts_with_def)

lemma replace_str_match [str_simps]: "p \<noteq> [] \<Longrightarrow> replace_str p r (p @ t) = r @ replace_str p r t"
  by (subst replace_str.simps) (auto simp: starts_with_iff)

lemma replace_str_skip:
  "\<not> starts_with (c # t) p \<Longrightarrow> replace_str p r (c # t) = c # replace_str p r t"
  by (subst replace_str.simps) simp

lemma replace_str_absent: "p \<noteq> [] \<Longrightarrow> \<not> contains_str s p \<Longrightarrow> replace_str p r s = s"
  by (induction s) (auto simp: replace_str_Nil replace_str_skip)

fun join_str :: "string \<Rightarrow> string list \<Rightarrow> string" where
  "join_str sep [] = []"
| "join_str sep [x] = x"
| "join_str sep (x # y # xs) = x @ sep @ join_str sep (y # xs)"

lemma set_map_filter_iff: "y \<in> set (List.map_filter f xs) \<longleftrightarrow> (\<exists>x \<in> set xs. f x = Some y)"
  by (induction xs) (auto simp: map_filter_simps split: option.splits)

section \<open>Iteration over hash tables\<close>

text \<open>
  A \<open>HashMap\<close> or \<open>HashSet\<close> is a map or a set; the order in which an iterator visits it is not determined.
  Code that iterates takes the order as an argument: a function from the set of keys to a list.
\<close>

definition hash_iter :: "('a set \<Rightarrow> 'a list) \<Rightarrow> bool" where
  "hash_iter it \<longleftrightarrow> (\<forall>S. finite S \<longrightarrow> set (it S) = S \<and> distinct (it S))"

lemma set_hash_iter: "hash_iter it \<Longrightarrow> finite S \<Longrightarrow> set (it S) = S"
  by (simp add: hash_iter_def)

lemma distinct_hash_iter: "hash_iter it \<Longrightarrow> finite S \<Longrightarrow> distinct (it S)"
  by (simp add: hash_iter_def)

end
