(* ===== verification/Std_Text.thy ===== *)
theory Std_Text
  imports Prelude
begin

text \<open>
  The parts of Rust's \<open>std\<close> on text that the code uses where the bytes matter: UTF-8 validity
  (\<open>tokio::fs::read_to_string\<close> fails on anything else), \<open>str::lines\<close>, \<open>str::trim\<close>, printing of
  unsigned integers and \<open>u64::from_str\<close>.
\<close>

section \<open>Bytes and text\<close>

definition str_bytes :: "string \<Rightarrow> bytes" where
  "str_bytes s = map (\<lambda>c. of_nat (code c)) s"

definition bytes_str :: "bytes \<Rightarrow> string" where
  "bytes_str b = map (\<lambda>w. char_of (unat w)) b"

lemma code_less_256 [simp]: "code c < 256"
  by (metis char_of_char mod_less_divisor of_char_of zero_less_numeral)

lemma bytes_str_str_bytes [simp]: "bytes_str (str_bytes s) = s"
proof -
  have "char_of (unat (of_nat (code c) :: u8)) = c" for c
  proof -
    have "unat (of_nat (code c) :: u8) = code c mod 256"
      by (simp add: unat_of_nat take_bit_eq_mod)
    then show ?thesis by simp
  qed
  then show ?thesis by (simp add: bytes_str_def str_bytes_def map_idI)
qed

lemma length_str_bytes [simp]: "length (str_bytes s) = length s"
  by (simp add: str_bytes_def)

lemma length_bytes_str [simp]: "length (bytes_str b) = length b"
  by (simp add: bytes_str_def)

text \<open>Well-formed UTF-8, byte sequence by byte sequence (Unicode, table 3-7), as \<open>str::from_utf8\<close> checks it.\<close>

definition cont_byte :: "u8 \<Rightarrow> bool" where
  "cont_byte b \<longleftrightarrow> 0x80 \<le> b \<and> b \<le> 0xBF"

fun utf8_valid :: "bytes \<Rightarrow> bool" where
  "utf8_valid [] = True"
| "utf8_valid (a # r) =
     (if a < 0x80 then utf8_valid r
      else if 0xC2 \<le> a \<and> a \<le> 0xDF then
        (case r of b # r1 \<Rightarrow> cont_byte b \<and> utf8_valid r1 | _ \<Rightarrow> False)
      else if 0xE0 \<le> a \<and> a \<le> 0xEF then
        (case r of b # c # r2 \<Rightarrow>
           cont_byte b \<and> (a = 0xE0 \<longrightarrow> 0xA0 \<le> b) \<and> (a = 0xED \<longrightarrow> b \<le> 0x9F) \<and>
           cont_byte c \<and> utf8_valid r2
         | _ \<Rightarrow> False)
      else if 0xF0 \<le> a \<and> a \<le> 0xF4 then
        (case r of b # c # d # r3 \<Rightarrow>
           cont_byte b \<and> (a = 0xF0 \<longrightarrow> 0x90 \<le> b) \<and> (a = 0xF4 \<longrightarrow> b \<le> 0x8F) \<and>
           cont_byte c \<and> cont_byte d \<and> utf8_valid r3
         | _ \<Rightarrow> False)
      else False)"

text \<open>
  \<open>String::from_utf8_lossy\<close>: each maximal prefix of a sequence that cannot be completed becomes the
  replacement character U+FFFD.
\<close>

definition replacement :: string where
  "replacement = [CHR 0xEF, CHR 0xBF, CHR 0xBD]"

definition u8_char :: "u8 \<Rightarrow> char" where
  "u8_char b = char_of (unat b)"

definition second_ok :: "u8 \<Rightarrow> u8 \<Rightarrow> bool" where
  "second_ok a b \<longleftrightarrow>
     cont_byte b \<and> (a = 0xE0 \<longrightarrow> 0xA0 \<le> b) \<and> (a = 0xED \<longrightarrow> b \<le> 0x9F) \<and>
     (a = 0xF0 \<longrightarrow> 0x90 \<le> b) \<and> (a = 0xF4 \<longrightarrow> b \<le> 0x8F)"

fun utf8_lossy :: "bytes \<Rightarrow> string" where
  "utf8_lossy [] = []"
| "utf8_lossy (a # r) =
     (if a < 0x80 then u8_char a # utf8_lossy r
      else if a < 0xC2 \<or> 0xF4 < a then replacement @ utf8_lossy r
      else (case r of
        [] \<Rightarrow> replacement
      | b # r1 \<Rightarrow>
          if \<not> second_ok a b then replacement @ utf8_lossy (b # r1)
          else if a \<le> 0xDF then u8_char a # u8_char b # utf8_lossy r1
          else (case r1 of
            [] \<Rightarrow> replacement
          | c # r2 \<Rightarrow>
              if \<not> cont_byte c then replacement @ utf8_lossy (c # r2)
              else if a \<le> 0xEF then u8_char a # u8_char b # u8_char c # utf8_lossy r2
              else (case r2 of
                [] \<Rightarrow> replacement
              | d # r3 \<Rightarrow>
                  if \<not> cont_byte d then replacement @ utf8_lossy (d # r3)
                  else u8_char a # u8_char b # u8_char c # u8_char d # utf8_lossy r3))))"

definition is_ascii :: "string \<Rightarrow> bool" where
  "is_ascii s \<longleftrightarrow> list_all (\<lambda>c. code c < 128) s"

lemma utf8_valid_ascii: "is_ascii s \<Longrightarrow> utf8_valid (str_bytes s)"
proof (induction s)
  case Nil
  then show ?case by (simp add: str_bytes_def)
next
  case (Cons c s)
  from Cons.prems have "code c < 128" and "is_ascii s"
    by (simp_all add: is_ascii_def)
  moreover from \<open>code c < 128\<close> have "(of_nat (code c) :: u8) < 0x80"
    by (simp add: word_less_nat_alt unat_of_nat take_bit_eq_mod)
  ultimately show ?case using Cons.IH by (simp add: str_bytes_def)
qed

lemma utf8_lossy_ascii: "is_ascii s \<Longrightarrow> utf8_lossy (str_bytes s) = s"
proof (induction s)
  case Nil
  then show ?case by (simp add: str_bytes_def)
next
  case (Cons c s)
  from Cons.prems have c: "code c < 128" and "is_ascii s" by (simp_all add: is_ascii_def)
  then have u: "unat (of_nat (code c) :: u8) = code c" by (simp add: unat_of_nat take_bit_eq_mod)
  with c have "(of_nat (code c) :: u8) < 0x80" by (simp add: word_less_nat_alt)
  with u Cons.IH \<open>is_ascii s\<close> show ?case by (simp add: str_bytes_def u8_char_def)
qed

lemma is_ascii_append [simp]: "is_ascii (s @ t) \<longleftrightarrow> is_ascii s \<and> is_ascii t"
  by (simp add: is_ascii_def)

section \<open>Lines\<close>

text \<open>
  \<open>str::lines\<close>: a line ends at a newline, which is dropped together with a carriage return right
  before it; a last line without a newline is kept as it is, an empty one is not a line.
\<close>

definition strip_cr :: "string \<Rightarrow> string" where
  "strip_cr s = (case strip_suffix [CHR 0x0D] s of Some t \<Rightarrow> t | None \<Rightarrow> s)"

fun lines_acc :: "string \<Rightarrow> string \<Rightarrow> string list" where
  "lines_acc acc [] = (if acc = [] then [] else [rev acc])"
| "lines_acc acc (c # s) =
     (if c = CHR 0x0A then strip_cr (rev acc) # lines_acc [] s else lines_acc (c # acc) s)"

definition str_lines :: "string \<Rightarrow> string list" where
  "str_lines s = lines_acc [] s"

lemma lines_acc_line:
  "CHR 0x0A \<notin> set l \<Longrightarrow> lines_acc acc (l @ CHR 0x0A # s) = strip_cr (rev acc @ l) # lines_acc [] s"
  by (induction l arbitrary: acc) auto

lemma str_lines_line [str_simps]:
  "CHR 0x0A \<notin> set l \<Longrightarrow> str_lines (l @ CHR 0x0A # s) = strip_cr l # str_lines s"
  by (simp add: str_lines_def lines_acc_line)

lemma str_lines_Nil [str_simps]: "str_lines [] = []"
  by (simp add: str_lines_def)

lemma strip_cr_id: "CHR 0x0D \<notin> set l \<Longrightarrow> strip_cr l = l"
  by (auto simp: strip_cr_def strip_suffix_Some_iff split: option.splits)

section \<open>Trimming white space\<close>

text \<open>
  \<open>str::trim\<close> removes the characters with Unicode's \<open>White_Space\<close> property. Their UTF-8 encodings:
\<close>

definition white_space :: "string list" where
  "white_space =
     [[CHR 0x09], [CHR 0x0A], [CHR 0x0B], [CHR 0x0C], [CHR 0x0D], [CHR 0x20],
      [CHR 0xC2, CHR 0x85], [CHR 0xC2, CHR 0xA0], [CHR 0xE1, CHR 0x9A, CHR 0x80]] @
     map (\<lambda>n. [CHR 0xE2, CHR 0x80, char_of n]) [0x80, 0x81, 0x82, 0x83, 0x84, 0x85, 0x86, 0x87,
       0x88, 0x89, 0x8A, 0xA8, 0xA9, 0xAF :: nat] @
     [[CHR 0xE2, CHR 0x81, CHR 0x9F], [CHR 0xE3, CHR 0x80, CHR 0x80]]"

function trim_seqs :: "string list \<Rightarrow> string \<Rightarrow> string" where
  "trim_seqs ws s =
     (case List.find (\<lambda>w. w \<noteq> [] \<and> starts_with s w) ws of
        Some w \<Rightarrow> trim_seqs ws (drop (length w) s)
      | None \<Rightarrow> s)"
  by pat_completeness auto
termination
  by (relation "measure (\<lambda>(ws, s). length s)") (auto simp: find_Some_iff starts_with_iff)

declare trim_seqs.simps [simp del]

definition str_trim :: "string \<Rightarrow> string" where
  "str_trim s = rev (trim_seqs (map rev white_space) (rev (trim_seqs white_space s)))"

lemma trim_seqs_stop: "(\<And>w. w \<in> set ws \<Longrightarrow> \<not> starts_with s w) \<Longrightarrow> trim_seqs ws s = s"
proof -
  assume a: "\<And>w. w \<in> set ws \<Longrightarrow> \<not> starts_with s w"
  then have "List.find (\<lambda>w. w \<noteq> [] \<and> starts_with s w) ws = None"
    by (auto simp: find_None_iff)
  then show ?thesis by (subst trim_seqs.simps) simp
qed

definition off_graphic :: "string \<Rightarrow> bool" where
  "off_graphic w = (case w of c # _ \<Rightarrow> code c \<le> 0x20 \<or> 0x80 \<le> code c | [] \<Rightarrow> False)"

lemma white_space_ends: "list_all (\<lambda>w. off_graphic w \<and> off_graphic (rev w)) white_space"
  by code_simp

text \<open>A string of printable ASCII characters other than the space is already trimmed.\<close>

definition graphic :: "char \<Rightarrow> bool" where
  "graphic c \<longleftrightarrow> 0x20 < code c \<and> code c < 0x80"

lemma trim_seqs_graphic:
  assumes "list_all graphic s" and "s \<noteq> []"
    and "list_all off_graphic ws"
  shows "trim_seqs ws s = s"
proof (rule trim_seqs_stop)
  fix w assume "w \<in> set ws"
  with assms(3) obtain c t where w: "w = c # t" "code c \<le> 0x20 \<or> 0x80 \<le> code c"
    by (cases w) (auto simp: list_all_iff off_graphic_def)
  from assms(1,2) obtain d s' where s: "s = d # s'" "0x20 < code d" "code d < 0x80"
    by (cases s) (auto simp: graphic_def)
  from w(2) s(2,3) have "c \<noteq> d" by auto
  then show "\<not> starts_with s w" by (auto simp: starts_with_iff w(1) s(1))
qed

lemma str_trim_graphic: "list_all graphic s \<Longrightarrow> s \<noteq> [] \<Longrightarrow> str_trim s = s"
proof -
  assume s: "list_all graphic s" "s \<noteq> []"
  have "list_all off_graphic white_space" and "list_all off_graphic (map rev white_space)"
    using white_space_ends by (simp_all add: list_all_iff)
  with s show ?thesis by (simp add: str_trim_def trim_seqs_graphic)
qed

section \<open>Unsigned integers as text\<close>

definition is_digit :: "char \<Rightarrow> bool" where
  "is_digit c \<longleftrightarrow> 48 \<le> code c \<and> code c \<le> 57"

definition digit_val :: "char \<Rightarrow> nat" where
  "digit_val c = code c - 48"

fun dec_str :: "nat \<Rightarrow> string" where
  "dec_str n = (if n < 10 then [char_of (48 + n)] else dec_str (n div 10) @ [char_of (48 + n mod 10)])"

declare dec_str.simps [simp del]

definition digits_val :: "string \<Rightarrow> nat" where
  "digits_val s = foldl (\<lambda>n c. 10 * n + digit_val c) 0 s"

text \<open>
  \<open>u64::from_str\<close>: an optional \<open>+\<close>, then at least one digit and nothing else, and no overflow.
\<close>

definition parse_u64 :: "string \<Rightarrow> u64 option" where
  "parse_u64 s =
     (let d = (case s of CHR ''+'' # t \<Rightarrow> t | _ \<Rightarrow> s)
      in if d \<noteq> [] \<and> list_all is_digit d \<and> digits_val d < 2 ^ 64
         then Some (of_nat (digits_val d)) else None)"

lemma digits_val_append: "digits_val (s @ [c]) = 10 * digits_val s + digit_val c"
  by (simp add: digits_val_def)

lemma code_digit [simp]: "k < 10 \<Longrightarrow> code (char_of (48 + k :: nat)) = 48 + k"
  by simp

lemma dec_str_digits: "dec_str n \<noteq> [] \<and> list_all is_digit (dec_str n) \<and> digits_val (dec_str n) = n"
proof (induction n rule: dec_str.induct)
  case (1 n)
  show ?case
  proof (cases "n < 10")
    case True
    then show ?thesis
      by (subst (1 2 3) dec_str.simps) (simp add: is_digit_def digits_val_def digit_val_def)
  next
    case False
    have "n mod 10 < 10" by simp
    then have "is_digit (char_of (48 + n mod 10))" by (simp add: is_digit_def)
    with False "1.IH" show ?thesis
      by (subst (1 2 3) dec_str.simps) (simp add: digits_val_append digit_val_def)
  qed
qed

lemma digit_not_plus: "is_digit c \<Longrightarrow> c \<noteq> CHR ''+''"
  by (auto simp: is_digit_def)

lemma parse_u64_dec_str: "n < 2 ^ 64 \<Longrightarrow> parse_u64 (dec_str n) = Some (of_nat n)"
proof -
  assume n: "n < 2 ^ 64"
  obtain c t where ct: "dec_str n = c # t" using dec_str_digits [of n] by (cases "dec_str n") auto
  have "is_digit c" using dec_str_digits [of n] by (simp add: ct)
  then have "(case dec_str n of CHR ''+'' # t \<Rightarrow> t | _ \<Rightarrow> dec_str n) = dec_str n"
    using digit_not_plus by (auto simp: ct split: char.splits bool.splits)
  with n show ?thesis using dec_str_digits [of n] by (simp add: parse_u64_def Let_def)
qed

end
