(* ===== verification/Content_Hash.thy ===== *)
theory Content_Hash
  imports Std_Text
begin

text \<open>
  Content addresses: the normalisation of a hash string that every component starts with (\<open>norm\<close> in
  store.rs, acquire.rs, p2p.rs and gateway.rs), the key check of the store, and \<open>sha256_hex\<close> of
  acquire.rs. SHA-256 (crate sha2) and hex encoding (crate hex) are parameters: the record \<open>crypto\<close>.
\<close>

section \<open>Normalised hashes\<close>

definition norm :: "string \<Rightarrow> string" where
  "norm hash = to_lowercase (case strip_prefix ''0x'' hash of Some t \<Rightarrow> t | None \<Rightarrow> hash)"

definition is_valid_hash :: "string \<Rightarrow> bool" where
  "is_valid_hash h \<longleftrightarrow> length h = 64 \<and> list_all is_ascii_hexdigit h"

definition acq_norm :: "string \<Rightarrow> string" where
  "acq_norm hash = to_lowercase (case strip_prefix ''0x'' hash of Some t \<Rightarrow> t | None \<Rightarrow> hash)"

definition p2p_norm :: "string \<Rightarrow> string" where
  "p2p_norm hash = to_lowercase (case strip_prefix ''0x'' hash of Some t \<Rightarrow> t | None \<Rightarrow> hash)"

definition gw_norm :: "string \<Rightarrow> string option" where
  "gw_norm hash =
     (let h = to_lowercase (case strip_prefix ''0x'' hash of Some t \<Rightarrow> t | None \<Rightarrow> hash)
      in if length h = 64 \<and> list_all is_ascii_hexdigit h then Some h else None)"

lemma norm_copies [simp]: "acq_norm = norm" "p2p_norm = norm"
  by (simp_all add: fun_eq_iff norm_def acq_norm_def p2p_norm_def)

lemma gw_norm_eq: "gw_norm s = (if is_valid_hash (norm s) then Some (norm s) else None)"
  by (simp add: gw_norm_def norm_def is_valid_hash_def Let_def)

text \<open>The canonical form of an address: 64 lower-case hexadecimal digits.\<close>

definition lower_hex64 :: "string \<Rightarrow> bool" where
  "lower_hex64 h \<longleftrightarrow> length h = 64 \<and> list_all is_lower_hexdigit h"

lemma lower_hex64_valid: "lower_hex64 h \<Longrightarrow> is_valid_hash h"
  by (auto simp: lower_hex64_def is_valid_hash_def list_all_iff lower_hexdigit_is_hexdigit)

lemma hexdigit_not_x: "is_ascii_hexdigit c \<Longrightarrow> c \<noteq> CHR ''x''"
  by (auto simp: is_ascii_hexdigit_def)

lemma valid_no_0x: "is_valid_hash h \<Longrightarrow> strip_prefix ''0x'' h = None"
  by (rule ccontr) (auto simp: strip_prefix_Some_iff is_valid_hash_def dest: hexdigit_not_x)

lemma is_valid_to_lowercase [simp]: "is_valid_hash (to_lowercase h) = is_valid_hash h"
  by (simp add: is_valid_hash_def to_lowercase_def list_all_iff hexdigit_lower_char)

lemma lower_hex64_to_lowercase: "is_valid_hash h \<Longrightarrow> lower_hex64 (to_lowercase h)"
  by (auto simp: is_valid_hash_def lower_hex64_def to_lowercase_def list_all_iff
      lower_hexdigit_lower_char)

lemma norm_valid_lower_hex64: "is_valid_hash (norm s) \<Longrightarrow> lower_hex64 (norm s)"
proof -
  obtain t where t: "norm s = to_lowercase t" by (auto simp: norm_def)
  then show "is_valid_hash (norm s) \<Longrightarrow> lower_hex64 (norm s)"
    by (simp add: lower_hex64_to_lowercase)
qed

lemma norm_lower_hex64: "lower_hex64 h \<Longrightarrow> norm h = h"
  by (simp add: norm_def valid_no_0x lower_hex64_valid)
     (simp add: lower_hex64_def to_lowercase_lower_hex)

lemma norm_0x: "norm (''0x'' @ h) = to_lowercase h"
  by (simp add: norm_def strip_prefix_append del: append.simps)

lemma norm_0x_lower_hex64: "lower_hex64 h \<Longrightarrow> norm (''0x'' @ h) = h"
  unfolding norm_0x by (simp add: lower_hex64_def to_lowercase_lower_hex)

lemma norm_norm_valid: "is_valid_hash (norm s) \<Longrightarrow> norm (norm s) = norm s"
  by (simp add: norm_lower_hex64 norm_valid_lower_hex64)

lemma gw_norm_Some: "gw_norm s = Some h \<Longrightarrow> lower_hex64 h \<and> norm h = h \<and> h = norm s"
  by (auto simp: gw_norm_eq norm_valid_lower_hex64 norm_norm_valid split: if_splits)

lemma lower_hexdigit_graphic: "is_lower_hexdigit c \<Longrightarrow> graphic c"
  by (auto simp: is_lower_hexdigit_def graphic_def)

lemma lower_hex64_text:
  assumes "lower_hex64 h"
  shows "h \<noteq> []" and "list_all graphic h" and "is_ascii h"
    and "CHR 0x0A \<notin> set h" and "CHR 0x0D \<notin> set h" and "hd h \<noteq> CHR ''#''"
proof -
  show ne: "h \<noteq> []" using assms by (auto simp: lower_hex64_def)
  have all: "\<forall>c \<in> set h. is_lower_hexdigit c" using assms by (simp add: lower_hex64_def list_all_iff)
  then show g: "list_all graphic h" by (simp add: list_all_iff lower_hexdigit_graphic)
  then show "is_ascii h" by (auto simp: is_ascii_def list_all_iff graphic_def)
  show "CHR 0x0A \<notin> set h" and "CHR 0x0D \<notin> set h"
    using g by (auto simp: list_all_iff graphic_def)
  have "is_lower_hexdigit (hd h)" using all ne by simp
  then show "hd h \<noteq> CHR ''#''" by (auto simp: is_lower_hexdigit_def)
qed

section \<open>Unicode lower-casing\<close>

text \<open>
  \<open>str::to_lowercase\<close> lower-cases every letter, \<open>to_lowercase\<close> of the model the ASCII ones. Of the real
  method the code needs two documented facts: on ASCII text it is ASCII lower-casing, and the lower-case
  mapping of a character outside ASCII never consists of hexadecimal digits. Any such method accepts the
  same hashes as the model and gives them the same normal form.
\<close>

locale unicode_lower =
  fixes lc :: "string \<Rightarrow> string"
  assumes lc_ascii: "is_ascii s \<Longrightarrow> lc s = to_lowercase s"
    and lc_other: "\<not> is_ascii s \<Longrightarrow> \<exists>c \<in> set (lc s). \<not> is_ascii_hexdigit c"
begin

lemma valid_is_ascii: "is_valid_hash (to_lowercase s) \<Longrightarrow> is_ascii s"
  unfolding is_valid_to_lowercase
  by (auto simp: is_valid_hash_def is_ascii_def list_all_iff is_ascii_hexdigit_def)

lemma lc_valid_iff: "is_valid_hash (lc s) = is_valid_hash (to_lowercase s)"
proof (cases "is_ascii s")
  case True
  then show ?thesis by (simp add: lc_ascii)
next
  case False
  then have "\<not> is_valid_hash (lc s)"
    using lc_other by (auto simp: is_valid_hash_def list_all_iff)
  moreover from False have "\<not> is_valid_hash (to_lowercase s)"
    using valid_is_ascii by blast
  ultimately show ?thesis by simp
qed

lemma lc_valid_eq: "is_valid_hash (lc s) \<Longrightarrow> lc s = to_lowercase s"
  using lc_valid_iff valid_is_ascii lc_ascii by blast

end

interpretation ascii_lower: unicode_lower to_lowercase
proof unfold_locales
  fix s assume "\<not> is_ascii s"
  then obtain c where "c \<in> set s" "128 \<le> code c"
    by (auto simp: is_ascii_def list_all_iff not_less)
  moreover from this have "\<not> is_ascii_hexdigit c" by (auto simp: is_ascii_hexdigit_def)
  ultimately have "lower_char c \<in> set (to_lowercase s)" and "\<not> is_ascii_hexdigit (lower_char c)"
    by (simp_all add: to_lowercase_def hexdigit_lower_char)
  then show "\<exists>c \<in> set (to_lowercase s). \<not> is_ascii_hexdigit c" by blast
qed simp

section \<open>SHA-256\<close>

record crypto =
  sha256 :: "bytes \<Rightarrow> bytes"
  hex_encode :: "bytes \<Rightarrow> string"

definition sha256_hex :: "crypto \<Rightarrow> bytes \<Rightarrow> string" where
  "sha256_hex c b = hex_encode c (sha256 c b)"

text \<open>
  What the crates document: a SHA-256 digest has 32 bytes, and hex encoding gives two lower-case
  hexadecimal digits per byte.
\<close>

definition crypto_ok :: "crypto \<Rightarrow> bool" where
  "crypto_ok c \<longleftrightarrow>
     (\<forall>b. length (sha256 c b) = 32) \<and>
     (\<forall>b. length (hex_encode c b) = 2 * length b \<and> list_all is_lower_hexdigit (hex_encode c b))"

lemma sha256_hex_lower_hex64: "crypto_ok c \<Longrightarrow> lower_hex64 (sha256_hex c b)"
  by (simp add: crypto_ok_def sha256_hex_def lower_hex64_def)

text \<open>
  A concrete instance for the witnesses: a digest that depends on the first byte and the length only,
  and the real hexadecimal encoding.
\<close>

definition hex_digit :: "u8 \<Rightarrow> char" where
  "hex_digit w = char_of (if unat w < 10 then 48 + unat w else 87 + unat w :: nat)"

definition demo_crypto :: crypto where
  "demo_crypto =
     \<lparr>sha256 = (\<lambda>b. replicate 31 (case b of [] \<Rightarrow> 0 | x # _ \<Rightarrow> x) @ [of_nat (length b)]),
      hex_encode = (\<lambda>b. concat (map (\<lambda>w. [hex_digit (w div 16), hex_digit (w mod 16)]) b))\<rparr>"

lemma hex_digit_lower: "unat w < 16 \<Longrightarrow> is_lower_hexdigit (hex_digit w)"
  by (auto simp: is_lower_hexdigit_def hex_digit_def)

lemma demo_crypto_ok: "crypto_ok demo_crypto"
proof -
  have "is_lower_hexdigit (hex_digit (w div 16)) \<and> is_lower_hexdigit (hex_digit (w mod 16))" for w :: u8
  proof -
    have "unat w < 256" using unsigned_less [of w] by simp
    then have "unat (w div 16) < 16" and "unat (w mod 16) < 16"
      by (simp_all add: unat_div_distrib unat_mod_distrib)
    then show ?thesis by (simp add: hex_digit_lower)
  qed
  moreover have "length (concat (map (\<lambda>w. [hex_digit (w div 16), hex_digit (w mod 16)]) b)) = 2 * length b"
    for b by (induction b) auto
  ultimately show ?thesis
    by (auto simp: crypto_ok_def demo_crypto_def list_all_iff)
qed

end
