(* ===== verification/Disk.thy ===== *)
theory Disk
  imports Content_Hash
begin

text \<open>
  The store directory as the code sees it through \<open>tokio::fs\<close>: a map from file names to contents, and
  the calls the store makes on it. Whether a call succeeds is decided outside the program, so every call
  takes its outcome as an argument. A failing write may leave anything in the file it was writing; a rename
  or a removal is atomic.
\<close>

type_synonym disk = "string \<rightharpoonup> bytes"

text \<open>\<open>WErr None\<close>: the write failed before it touched the file; \<open>WErr (Some c)\<close>: it left \<open>c\<close> behind.\<close>

datatype write_outcome = WOk | WErr "bytes option"

definition fs_write :: "write_outcome \<Rightarrow> string \<Rightarrow> bytes \<Rightarrow> disk \<Rightarrow> bool \<times> disk" where
  "fs_write w f b d =
     (case w of WOk \<Rightarrow> (True, d(f \<mapsto> b)) | WErr None \<Rightarrow> (False, d) | WErr (Some c) \<Rightarrow> (False, d(f \<mapsto> c)))"

definition fs_rename :: "bool \<Rightarrow> string \<Rightarrow> string \<Rightarrow> disk \<Rightarrow> bool \<times> disk" where
  "fs_rename ok f g d =
     (case d f of None \<Rightarrow> (False, d) | Some b \<Rightarrow> if ok then (True, (d(f := None))(g \<mapsto> b)) else (False, d))"

definition fs_remove :: "bool \<Rightarrow> string \<Rightarrow> disk \<Rightarrow> disk" where
  "fs_remove ok f d = (if ok then d(f := None) else d)"

definition fs_read :: "bool \<Rightarrow> string \<Rightarrow> disk \<Rightarrow> bytes option" where
  "fs_read ok f d = (if ok then d f else None)"

text \<open>\<open>read_to_string\<close> also fails on contents that are not UTF-8.\<close>

definition fs_read_to_string :: "bool \<Rightarrow> string \<Rightarrow> disk \<Rightarrow> string option" where
  "fs_read_to_string ok f d =
     (case fs_read ok f d of Some b \<Rightarrow> (if utf8_valid b then Some (bytes_str b) else None) | None \<Rightarrow> None)"

text \<open>
  Replacing a file through a temporary file: the whole effect of write and rename, which the store uses
  for blobs and for the denylist alike.
\<close>

definition replaced :: "string \<Rightarrow> string \<Rightarrow> bytes \<Rightarrow> disk \<Rightarrow> disk" where
  "replaced tmp f b d = (d(tmp := None))(f \<mapsto> b)"

lemma fs_write_frame: "fs_write w f b d = (r, d') \<Longrightarrow> g \<noteq> f \<Longrightarrow> d' g = d g"
  by (auto simp: fs_write_def split: write_outcome.splits option.splits)

lemma fs_write_True_iff: "fs_write w f b d = (True, d') \<longleftrightarrow> w = WOk \<and> d' = d(f \<mapsto> b)"
  by (auto simp: fs_write_def split: write_outcome.splits option.splits)

lemma fs_rename_written:
  "fs_rename ok f g (d(f \<mapsto> b)) = (if ok then (True, replaced f g b d) else (False, d(f \<mapsto> b)))"
  by (simp add: fs_rename_def replaced_def)

lemma replaced_same [simp]: "replaced tmp f b d f = Some b"
  by (simp add: replaced_def)

lemma replaced_other [simp]: "g \<noteq> f \<Longrightarrow> g \<noteq> tmp \<Longrightarrow> replaced tmp f b d g = d g"
  by (simp add: replaced_def)

lemma fs_remove_other [simp]: "g \<noteq> f \<Longrightarrow> fs_remove ok f d g = d g"
  by (simp add: fs_remove_def)

end
