(* ===== verification/Store.thy ===== *)
theory Store
  imports Disk
begin

text \<open>
  The content-addressed blob store (src/store.rs): the in-memory index, the cached total, the denylist
  and the files of the store directory, with every operation of \<open>impl Store\<close>. The locks are held as the
  code holds them, so each operation here is one sequential call; interleavings of the awaits inside one
  are the subject of \<open>Store_Tasks\<close>. I/O outcomes and the iteration order of a \<open>HashSet\<close> are the
  record \<open>io\<close>, chosen anew for every call.
\<close>

section \<open>State\<close>

record store =
  files :: disk
  index :: "string \<rightharpoonup> u64"
  tot :: u64
  denied :: "string set"
  max_bytes :: u64

datatype store_error =
    NonHexKey | OnDenylist | OverBudget u64 u64 nat | WriteTmp | RenameIntoPlace
  | NotAContentHash | WriteDenylistTmp | RenameDenylist | CreateDir | ReadDir

record io =
  write_out :: write_outcome
  rename_ok :: bool
  remove_ok :: bool
  set_order :: "string set \<Rightarrow> string list"

text \<open>A \<open>HashSet\<close> iterator visits the elements of the set, in some order.\<close>

definition order_ok :: "io \<Rightarrow> bool" where
  "order_ok i \<longleftrightarrow> hash_iter (set_order i)"

definition blob_path :: "string \<Rightarrow> string" where
  "blob_path h = h @ ''.bin''"

definition tmp_path :: "string \<Rightarrow> string" where
  "tmp_path h = h @ ''.tmp''"

definition denylist_path :: string where
  "denylist_path = ''denylist.txt''"

section \<open>The denylist file\<close>

definition denylist_body :: "string list \<Rightarrow> string" where
  "denylist_body xs = concat (map (\<lambda>x. x @ [CHR 0x0A]) xs)"

definition write_denylist :: "io \<Rightarrow> string set \<Rightarrow> disk \<Rightarrow> (store_error + unit) \<times> disk" where
  "write_denylist i S d =
     (let body = str_bytes (denylist_body (set_order i S)); tmp = ''denylist.txt.tmp''
      in case fs_write (write_out i) tmp body d of
           (False, d1) \<Rightarrow> (Inl WriteDenylistTmp, d1)
         | (True, d1) \<Rightarrow>
             (case fs_rename (rename_ok i) tmp denylist_path d1 of
                (False, d2) \<Rightarrow> (Inl RenameDenylist, d2)
              | (True, d2) \<Rightarrow> (Inr (), d2)))"

fun load_lines :: "string list \<Rightarrow> string set \<Rightarrow> string set" where
  "load_lines [] S = S"
| "load_lines (line # ls) S =
     (let l = str_trim line
      in if l = [] \<or> starts_with l ''#'' then load_lines ls S
         else let h = norm l
              in if is_valid_hash h then load_lines ls (insert h S) else load_lines ls S)"

definition load_denylist :: "bool \<Rightarrow> disk \<Rightarrow> string set" where
  "load_denylist ok d =
     (case fs_read_to_string ok denylist_path d of
        Some body \<Rightarrow> load_lines (str_lines body) {}
      | None \<Rightarrow> {})"

section \<open>Opening a store\<close>

text \<open>
  The outcomes of one \<open>open\<close>: \<open>listing\<close> is what \<open>next_entry\<close> yields, \<open>None\<close> for an error.
\<close>

record open_io =
  dir_ok :: bool
  read_dir_ok :: bool
  denylist_ok :: bool
  listing :: "string option list"
  rm_ok :: "string \<Rightarrow> bool"
  md_ok :: "string \<Rightarrow> bool"

fun scan_dir ::
  "open_io \<Rightarrow> string set \<Rightarrow> string option list \<Rightarrow> disk \<Rightarrow> (string \<rightharpoonup> u64) \<Rightarrow> u64
     \<Rightarrow> (store_error + (string \<rightharpoonup> u64) \<times> u64) \<times> disk" where
  "scan_dir i dn [] d idx t = (Inr (idx, t), d)"
| "scan_dir i dn (None # es) d idx t = (Inl ReadDir, d)"
| "scan_dir i dn (Some name # es) d idx t =
     (case strip_suffix ''.bin'' name of
        None \<Rightarrow> scan_dir i dn es d idx t
      | Some h \<Rightarrow>
          if is_valid_hash h then
            if h \<in> dn then scan_dir i dn es (fs_remove (rm_ok i name) name d) idx t
            else
              let n = (case fs_read (md_ok i name) name d of Some b \<Rightarrow> len64 b | None \<Rightarrow> 0)
              in scan_dir i dn es d (idx(h \<mapsto> n)) (t + n)
          else scan_dir i dn es d idx t)"

definition store_open :: "open_io \<Rightarrow> disk \<Rightarrow> (store_error + store) \<times> disk" where
  "store_open i d =
     (if \<not> dir_ok i then (Inl CreateDir, d)
      else
        let dn = load_denylist (denylist_ok i) d
        in if \<not> read_dir_ok i then (Inl ReadDir, d)
           else case scan_dir i dn (listing i) d Map.empty 0 of
             (Inl e, d') \<Rightarrow> (Inl e, d')
           | (Inr (idx, t), d') \<Rightarrow>
               (Inr \<lparr>files = d', index = idx, tot = t, denied = dn, max_bytes = 0\<rparr>, d'))"

definition with_max_bytes :: "store \<Rightarrow> u64 \<Rightarrow> store" where
  "with_max_bytes s n = s\<lparr>max_bytes := n\<rparr>"

section \<open>Operations\<close>

definition store_is_denied :: "store \<Rightarrow> string \<Rightarrow> bool" where
  "store_is_denied s hash \<longleftrightarrow> norm hash \<in> denied s"

definition store_has :: "store \<Rightarrow> string \<Rightarrow> u64 option" where
  "store_has s hash = index s (norm hash)"

definition store_get :: "bool \<Rightarrow> store \<Rightarrow> string \<Rightarrow> bytes option" where
  "store_get read_ok s hash =
     (let h = norm hash
      in if \<not> is_valid_hash h then None
         else if h \<notin> dom (index s) then None
         else fs_read read_ok (blob_path h) (files s))"

definition store_put :: "io \<Rightarrow> store \<Rightarrow> string \<Rightarrow> bytes \<Rightarrow> (store_error + unit) \<times> store" where
  "store_put i s hash b =
     (let h = norm hash
      in if \<not> is_valid_hash h then (Inl NonHexKey, s)
         else if h \<in> denied s then (Inl OnDenylist, s)
         else
           let cur = tot s; already = (case index s h of Some n \<Rightarrow> n | None \<Rightarrow> 0)
           in if 0 < max_bytes s \<and> already = 0 \<and> max_bytes s < sat_add cur (len64 b)
              then (Inl (OverBudget (max_bytes s) cur (length b)), s)
              else case fs_write (write_out i) (tmp_path h) b (files s) of
                (False, d1) \<Rightarrow> (Inl WriteTmp, s\<lparr>files := d1\<rparr>)
              | (True, d1) \<Rightarrow>
                  (case fs_rename (rename_ok i) (tmp_path h) (blob_path h) d1 of
                     (False, d2) \<Rightarrow> (Inl RenameIntoPlace, s\<lparr>files := d2\<rparr>)
                   | (True, d2) \<Rightarrow>
                       let prev = (case index s h of Some n \<Rightarrow> n | None \<Rightarrow> 0)
                       in (Inr (), s\<lparr>files := d2, index := (index s)(h \<mapsto> len64 b),
                            tot := sat_add (sat_sub (tot s) prev) (len64 b)\<rparr>)))"

definition store_purge :: "io \<Rightarrow> store \<Rightarrow> string \<Rightarrow> bool \<times> store" where
  "store_purge i s hash =
     (let h = norm hash
      in if \<not> is_valid_hash h then (False, s)
         else
           let s1 = s\<lparr>files := fs_remove (remove_ok i) (blob_path h) (files s)\<rparr>
           in case index s1 h of
                Some n \<Rightarrow> (True, s1\<lparr>index := (index s1)(h := None), tot := sat_sub (tot s1) n\<rparr>)
              | None \<Rightarrow> (False, s1))"

definition store_deny :: "io \<Rightarrow> store \<Rightarrow> string \<Rightarrow> (store_error + bool) \<times> store" where
  "store_deny i s hash =
     (let h = norm hash
      in if \<not> is_valid_hash h then (Inl NotAContentHash, s)
         else if h \<notin> denied s then
           (let S = insert h (denied s)
            in case write_denylist i S (files s) of
                 (Inl e, d) \<Rightarrow> (Inl e, s\<lparr>files := d, denied := S - {h}\<rparr>)
               | (Inr _, d) \<Rightarrow>
                   (case store_purge i (s\<lparr>files := d, denied := S\<rparr>) h of (p, s') \<Rightarrow> (Inr p, s')))
         else (case store_purge i s h of (p, s') \<Rightarrow> (Inr p, s')))"

definition store_allow :: "io \<Rightarrow> store \<Rightarrow> string \<Rightarrow> (store_error + bool) \<times> store" where
  "store_allow i s hash =
     (let h = norm hash
      in if h \<in> denied s then
           (let S = denied s - {h}
            in case write_denylist i S (files s) of
                 (Inl e, d) \<Rightarrow> (Inl e, s\<lparr>files := d, denied := insert h S\<rparr>)
               | (Inr _, d) \<Rightarrow> (Inr True, s\<lparr>files := d, denied := S\<rparr>))
         else (Inr False, s))"

definition store_count :: "store \<Rightarrow> nat" where
  "store_count s = card (dom (index s))"

definition store_total_bytes :: "store \<Rightarrow> u64" where
  "store_total_bytes s = tot s"

definition store_denied_count :: "store \<Rightarrow> nat" where
  "store_denied_count s = card (denied s)"

text \<open>\<open>list\<close> visits the index in the order of the \<open>HashMap\<close> iterator, the argument \<open>ord\<close>.\<close>

definition store_list :: "(string set \<Rightarrow> string list) \<Rightarrow> store \<Rightarrow> (string \<times> u64) list" where
  "store_list ord s = map (\<lambda>k. (''0x'' @ k, the (index s k))) (ord (dom (index s)))"

section \<open>What each operation does\<close>

text \<open>
  The files of one store never clash: blobs, temporary files and the denylist have different suffixes.
\<close>

lemma path_neq [simp]:
  "blob_path h \<noteq> tmp_path k" "tmp_path k \<noteq> blob_path h"
  "blob_path h \<noteq> denylist_path" "denylist_path \<noteq> blob_path h"
  "tmp_path h \<noteq> denylist_path" "denylist_path \<noteq> tmp_path h"
  "blob_path h \<noteq> ''denylist.txt.tmp''" "''denylist.txt.tmp'' \<noteq> blob_path h"
  "denylist_path \<noteq> ''denylist.txt.tmp''" "''denylist.txt.tmp'' \<noteq> denylist_path"
proof -
  have last4: "drop (length s - 4) s \<noteq> drop (length t - 4) t \<Longrightarrow> s \<noteq> t" for s t :: string
    by auto
  show "blob_path h \<noteq> tmp_path k" "tmp_path k \<noteq> blob_path h"
    "blob_path h \<noteq> denylist_path" "denylist_path \<noteq> blob_path h"
    "tmp_path h \<noteq> denylist_path" "denylist_path \<noteq> tmp_path h"
    "blob_path h \<noteq> ''denylist.txt.tmp''" "''denylist.txt.tmp'' \<noteq> blob_path h"
    "denylist_path \<noteq> ''denylist.txt.tmp''" "''denylist.txt.tmp'' \<noteq> denylist_path"
    by (rule last4, simp add: blob_path_def tmp_path_def denylist_path_def)+
qed

lemma blob_path_inject [simp]: "blob_path h = blob_path k \<longleftrightarrow> h = k"
  by (simp add: blob_path_def)

text \<open>When \<open>put\<close> gets as far as writing, and the state it leaves when both writes succeed.\<close>

definition held_len :: "store \<Rightarrow> string \<Rightarrow> u64" where
  "held_len s h = (case index s h of Some n \<Rightarrow> n | None \<Rightarrow> 0)"

definition within_budget :: "store \<Rightarrow> string \<Rightarrow> bytes \<Rightarrow> bool" where
  "within_budget s h b \<longleftrightarrow>
     max_bytes s = 0 \<or> held_len s h \<noteq> 0 \<or> sat_add (tot s) (len64 b) \<le> max_bytes s"

definition put_blob :: "store \<Rightarrow> string \<Rightarrow> bytes \<Rightarrow> store" where
  "put_blob s h b =
     s\<lparr>files := replaced (tmp_path h) (blob_path h) b (files s), index := (index s)(h \<mapsto> len64 b),
       tot := sat_add (sat_sub (tot s) (held_len s h)) (len64 b)\<rparr>"

lemma store_put_eq:
  "store_put i s hash b =
     (let h = norm hash
      in if \<not> is_valid_hash h then (Inl NonHexKey, s)
         else if h \<in> denied s then (Inl OnDenylist, s)
         else if \<not> within_budget s h b then (Inl (OverBudget (max_bytes s) (tot s) (length b)), s)
         else case write_out i of
           WErr left \<Rightarrow> (Inl WriteTmp, s\<lparr>files := snd (fs_write (WErr left) (tmp_path h) b (files s))\<rparr>)
         | WOk \<Rightarrow> if rename_ok i then (Inr (), put_blob s h b)
                   else (Inl RenameIntoPlace, s\<lparr>files := (files s)(tmp_path h \<mapsto> b)\<rparr>))"
proof -
  have budget: "(0 < max_bytes s \<and> held_len s h = 0 \<and> max_bytes s < sat_add (tot s) (len64 b))
      \<longleftrightarrow> \<not> within_budget s h b" for h
    by (auto simp: within_budget_def not_less word_gt_0)
  show ?thesis
  proof (cases "write_out i")
    case WOk
    then show ?thesis
      unfolding store_put_def Let_def held_len_def [symmetric] budget
      by (simp add: fs_write_def fs_rename_written put_blob_def)
  next
    case (WErr left)
    obtain d where "fs_write (WErr left) (tmp_path (norm hash)) b (files s) = (False, d)"
      by (cases left) (simp_all add: fs_write_def)
    with WErr show ?thesis
      unfolding store_put_def Let_def held_len_def [symmetric] budget by simp
  qed
qed

lemma store_put_Ok_iff:
  "store_put i s hash b = (Inr u, s') \<longleftrightarrow>
     is_valid_hash (norm hash) \<and> norm hash \<notin> denied s \<and> within_budget s (norm hash) b \<and>
     write_out i = WOk \<and> rename_ok i \<and> s' = put_blob s (norm hash) b"
  by (auto simp: store_put_eq Let_def split: if_splits write_outcome.splits)

lemma store_put_Err:
  assumes "store_put i s hash b = (Inl e, s')"
  obtains d where "s' = s\<lparr>files := d\<rparr>" and "\<And>f. f \<noteq> tmp_path (norm hash) \<Longrightarrow> d f = files s f"
proof -
  have w: "\<And>left f. f \<noteq> tmp_path (norm hash) \<Longrightarrow>
      snd (fs_write (WErr left) (tmp_path (norm hash)) b (files s)) f = files s f"
    by (auto simp: fs_write_def split: option.splits)
  have "s' = s\<lparr>files := files s'\<rparr> \<and> (\<forall>f. f \<noteq> tmp_path (norm hash) \<longrightarrow> files s' f = files s f)"
    using assms w by (auto simp: store_put_eq Let_def split: if_splits write_outcome.splits)
  then show thesis using that by blast
qed

lemma store_purge_eq:
  "store_purge i s hash =
     (let h = norm hash
      in if \<not> is_valid_hash h then (False, s)
         else (h \<in> dom (index s),
               s\<lparr>files := fs_remove (remove_ok i) (blob_path h) (files s), index := (index s)(h := None),
                 tot := sat_sub (tot s) (held_len s h)\<rparr>))"
proof -
  have sub0: "sat_sub n 0 = n" for n by (simp add: sat_sub_def)
  show ?thesis
    by (auto simp: store_purge_def Let_def held_len_def sub0 fun_upd_idem domIff split: option.splits)
qed

lemma purge_fields [simp]:
  "denied (snd (store_purge i s hash)) = denied s"
  "max_bytes (snd (store_purge i s hash)) = max_bytes s"
  by (simp_all add: store_purge_eq Let_def)

lemma purge_index:
  "is_valid_hash (norm hash) \<Longrightarrow> index (snd (store_purge i s hash)) = (index s)(norm hash := None)"
  by (simp add: store_purge_eq Let_def)

lemma purge_files:
  "f \<noteq> blob_path (norm hash) \<Longrightarrow> files (snd (store_purge i s hash)) f = files s f"
  by (auto simp: store_purge_eq Let_def)

lemma write_denylist_cases:
  assumes "write_denylist i S d = (r, d')"
  shows "r = Inr () \<and> d' = replaced ''denylist.txt.tmp'' denylist_path (str_bytes (denylist_body (set_order i S))) d
     \<or> (\<exists>e. r = Inl e \<and> (\<forall>f. f \<noteq> ''denylist.txt.tmp'' \<longrightarrow> d' f = d f))"
  using assms
  by (auto simp: write_denylist_def Let_def fs_write_def fs_rename_def replaced_def
      split: write_outcome.splits option.splits if_splits)

end
