(* ===== verification/Machines.thy ===== *)
theory Machines
  imports Main
begin

text \<open>
  Components that change state by operations: the contract they share. \<open>machine\<close> is a step function with
  an invariant that every admissible step keeps (\<open>legal\<close> says which inputs the environment can give);
  \<open>banning_machine\<close> adds a set of banned names whose members are never held. What holds of one step holds
  of every sequence of steps; the store and the p2p task are instances.
\<close>

locale machine =
  fixes step :: "'s \<Rightarrow> 'e \<Rightarrow> 's"
    and legal :: "'e \<Rightarrow> bool"
    and inv :: "'s \<Rightarrow> bool"
  assumes step_inv: "inv s \<Longrightarrow> legal e \<Longrightarrow> inv (step s e)"
begin

lemma run_inv: "inv s \<Longrightarrow> list_all legal es \<Longrightarrow> inv (foldl step s es)"
  by (induction es arbitrary: s) (auto intro: step_inv)

end

locale banning_machine = machine step legal inv
  for step :: "'s \<Rightarrow> 'e \<Rightarrow> 's" and legal :: "'e \<Rightarrow> bool" and inv :: "'s \<Rightarrow> bool" +
  fixes banned :: "'s \<Rightarrow> 'k \<Rightarrow> bool"
    and holds :: "'s \<Rightarrow> 'k \<Rightarrow> bool"
    and lifts :: "'e \<Rightarrow> 'k \<Rightarrow> bool"
  assumes banned_not_held: "inv s \<Longrightarrow> banned s k \<Longrightarrow> \<not> holds s k"
    and ban_kept: "inv s \<Longrightarrow> legal e \<Longrightarrow> banned s k \<Longrightarrow> \<not> lifts e k \<Longrightarrow> banned (step s e) k"
begin

lemma run_banned:
  "inv s \<Longrightarrow> list_all legal es \<Longrightarrow> banned s k \<Longrightarrow> list_all (\<lambda>e. \<not> lifts e k) es
    \<Longrightarrow> banned (foldl step s es) k"
  by (induction es arbitrary: s) (auto intro: step_inv ban_kept)

lemma run_not_held:
  "inv s \<Longrightarrow> list_all legal es \<Longrightarrow> banned s k \<Longrightarrow> list_all (\<lambda>e. \<not> lifts e k) es
    \<Longrightarrow> \<not> holds (foldl step s es) k"
  by (rule banned_not_held) (auto intro: run_inv run_banned)

end

end
