(* ===== verification/Store_Inv.thy ===== *)
theory Store_Inv
  imports Store Machines
begin

text \<open>
  Well-formed stores and what the operations keep of them: keys are content hashes, no denied hash is
  held, the index agrees with the disk, the denylist file agrees with the set in memory, the cached total is
  the sum of the index. All of it holds whatever I/O call fails. The store is then an instance of
  \<open>banning_machine\<close>: a takedown stays down along every sequence of operations.
\<close>

section \<open>The denylist file round-trips\<close>

lemma load_lines_body:
  "list_all lower_hex64 xs \<Longrightarrow> load_lines (str_lines (denylist_body xs)) S = set xs \<union> S"
proof (induction xs arbitrary: S)
  case Nil
  then show ?case by (simp add: denylist_body_def str_lines_Nil)
next
  case (Cons x xs)
  then have x: "lower_hex64 x" and xs: "list_all lower_hex64 xs" by simp_all
  have "str_lines (denylist_body (x # xs)) = x # str_lines (denylist_body xs)"
    using lower_hex64_text [OF x] by (simp add: denylist_body_def str_lines_line strip_cr_id)
  moreover have "str_trim x = x" using lower_hex64_text [OF x] by (simp add: str_trim_graphic)
  moreover have "\<not> starts_with x ''#''"
    using lower_hex64_text [OF x] by (auto simp: starts_with_iff)
  ultimately show ?case
    using lower_hex64_text(1) [OF x] x Cons.IH [OF xs]
    by (simp add: norm_lower_hex64 lower_hex64_valid)
qed

lemma is_ascii_denylist_body: "list_all lower_hex64 xs \<Longrightarrow> is_ascii (denylist_body xs)"
proof (induction xs)
  case Nil
  then show ?case by (simp add: denylist_body_def is_ascii_def)
next
  case (Cons x xs)
  then have "is_ascii x" and "is_ascii (denylist_body xs)" by (simp_all add: lower_hex64_text)
  then show ?case by (simp add: denylist_body_def is_ascii_def)
qed

lemma load_written_denylist:
  assumes "order_ok i" and "finite S" and "\<forall>h \<in> S. lower_hex64 h"
  shows "load_denylist True (replaced tmp denylist_path (str_bytes (denylist_body (set_order i S))) d) = S"
proof -
  have S: "set (set_order i S) = S" using assms by (simp add: order_ok_def set_hash_iter)
  then have "list_all lower_hex64 (set_order i S)" using assms(3) by (simp add: list_all_iff)
  with S show ?thesis
    by (simp add: load_denylist_def fs_read_to_string_def fs_read_def utf8_valid_ascii
        is_ascii_denylist_body load_lines_body)
qed

lemma load_denylist_cong: "d denylist_path = d' denylist_path \<Longrightarrow> load_denylist ok d = load_denylist ok d'"
  by (simp add: load_denylist_def fs_read_to_string_def fs_read_def)

lemma load_lines_lower_hex64:
  "\<forall>h \<in> S. lower_hex64 h \<Longrightarrow> finite S \<Longrightarrow> finite (load_lines ls S) \<and> (\<forall>h \<in> load_lines ls S. lower_hex64 h)"
  by (induction ls S rule: load_lines.induct) (auto simp: Let_def norm_valid_lower_hex64)

lemma load_denylist_lower_hex64: "finite (load_denylist ok d) \<and> (\<forall>h \<in> load_denylist ok d. lower_hex64 h)"
  using load_lines_lower_hex64 [of "{}"] by (simp add: load_denylist_def split: option.splits)

section \<open>Invariants\<close>

definition keys_ok :: "store \<Rightarrow> bool" where
  "keys_ok s \<longleftrightarrow> finite (dom (index s)) \<and> (\<forall>h \<in> dom (index s). is_valid_hash h) \<and>
     finite (denied s) \<and> (\<forall>h \<in> denied s. lower_hex64 h)"

definition deny_ok :: "store \<Rightarrow> bool" where
  "deny_ok s \<longleftrightarrow> dom (index s) \<inter> denied s = {}"

definition disk_ok :: "store \<Rightarrow> bool" where
  "disk_ok s \<longleftrightarrow> (\<forall>h n. index s h = Some n \<longrightarrow> (\<exists>b. files s (blob_path h) = Some b \<and> n = len64 b))"

definition persisted :: "store \<Rightarrow> bool" where
  "persisted s \<longleftrightarrow> load_denylist True (files s) = denied s"

definition store_ok :: "store \<Rightarrow> bool" where
  "store_ok s \<longleftrightarrow> keys_ok s \<and> deny_ok s \<and> disk_ok s \<and> persisted s"

lemmas store_ok_defs = store_ok_def keys_ok_def deny_ok_def disk_ok_def persisted_def

lemma store_ok_blob:
  "store_ok s \<Longrightarrow> index s h = Some n \<Longrightarrow> \<exists>b. files s (blob_path h) = Some b \<and> n = len64 b"
  by (simp add: store_ok_defs)

text \<open>A change of files that touches neither blobs nor the denylist keeps the invariant.\<close>

lemma store_ok_files:
  assumes "store_ok s" and "\<And>h. d (blob_path h) = files s (blob_path h)"
    and "d denylist_path = files s denylist_path"
  shows "store_ok (s\<lparr>files := d\<rparr>)"
  using assms load_denylist_cong [of d "files s"] by (simp add: store_ok_defs)

lemma store_ok_put_blob:
  assumes "store_ok s" and "is_valid_hash h" and "h \<notin> denied s"
  shows "store_ok (put_blob s h b)"
proof -
  let ?d = "replaced (tmp_path h) (blob_path h) b (files s)"
  have "load_denylist True ?d = load_denylist True (files s)"
    by (rule load_denylist_cong) simp
  moreover have "?d (blob_path k) = (if k = h then Some b else files s (blob_path k))" for k
    by simp
  ultimately show ?thesis
    using assms by (auto simp: store_ok_defs put_blob_def)
qed

lemma store_ok_put: "store_ok s \<Longrightarrow> store_ok (snd (store_put i s hash b))"
proof -
  assume ok: "store_ok s"
  obtain r s' where p: "store_put i s hash b = (r, s')" by fastforce
  show ?thesis
  proof (cases r)
    case (Inl e)
    with p obtain d where "s' = s\<lparr>files := d\<rparr>" "\<And>f. f \<noteq> tmp_path (norm hash) \<Longrightarrow> d f = files s f"
      by (auto elim: store_put_Err)
    with ok p show ?thesis by (simp add: store_ok_files)
  next
    case (Inr u)
    with p have "store_put i s hash b = (Inr u, s')" by simp
    with ok p show ?thesis by (auto simp: store_put_Ok_iff store_ok_put_blob)
  qed
qed

lemma store_ok_purge: "store_ok s \<Longrightarrow> store_ok (snd (store_purge i s hash))"
proof (cases "is_valid_hash (norm hash)")
  case True
  assume ok: "store_ok s"
  let ?s = "snd (store_purge i s hash)"
  have "load_denylist True (files ?s) = load_denylist True (files s)"
    by (rule load_denylist_cong) (simp add: purge_files)
  with ok True show ?thesis
    by (auto simp: store_ok_defs purge_index purge_files split: if_splits)
next
  case False
  assume "store_ok s"
  with False show ?thesis by (simp add: store_purge_eq Let_def)
qed

text \<open>
  The three ways \<open>deny\<close> ends: a malformed hash, an I/O error with the set rolled back, or the hash in the
  set and in the file and the blob purged.
\<close>

lemma store_deny_cases:
  assumes "store_deny i s hash = (r, s')"
  obtains (invalid) "\<not> is_valid_hash (norm hash)" "r = Inl NotAContentHash" "s' = s"
  | (io_error) e d where "is_valid_hash (norm hash)" "norm hash \<notin> denied s" "r = Inl e" "s' = s\<lparr>files := d\<rparr>"
      "\<And>f. f \<noteq> ''denylist.txt.tmp'' \<Longrightarrow> d f = files s f"
  | (again) p where "is_valid_hash (norm hash)" "norm hash \<in> denied s" "r = Inr p"
      "(p, s') = store_purge i s (norm hash)"
  | (banned) p d where "is_valid_hash (norm hash)" "norm hash \<notin> denied s" "r = Inr p"
      "d = replaced ''denylist.txt.tmp'' denylist_path
         (str_bytes (denylist_body (set_order i (insert (norm hash) (denied s))))) (files s)"
      "(p, s') = store_purge i (s\<lparr>files := d, denied := insert (norm hash) (denied s)\<rparr>) (norm hash)"
proof (cases "is_valid_hash (norm hash) \<and> norm hash \<notin> denied s")
  case True
  let ?S = "insert (norm hash) (denied s)"
  obtain w d where w: "write_denylist i ?S (files s) = (w, d)" by fastforce
  from True have roll: "?S - {norm hash} = denied s" by simp
  from write_denylist_cases [OF w] show thesis
  proof
    assume "w = Inr () \<and> d = replaced ''denylist.txt.tmp'' denylist_path
        (str_bytes (denylist_body (set_order i ?S))) (files s)"
    then have wd: "w = Inr ()" "d = replaced ''denylist.txt.tmp'' denylist_path
        (str_bytes (denylist_body (set_order i ?S))) (files s)" by simp_all
    obtain p t where pt: "store_purge i (s\<lparr>files := d, denied := ?S\<rparr>) (norm hash) = (p, t)" by fastforce
    from True w wd(1) pt assms have "r = Inr p" and "s' = t"
      by (simp_all add: store_deny_def Let_def)
    with True wd(2) pt show thesis by (metis banned)
  next
    assume "\<exists>e. w = Inl e \<and> (\<forall>f. f \<noteq> ''denylist.txt.tmp'' \<longrightarrow> d f = files s f)"
    then obtain e where e: "w = Inl e" "\<And>f. f \<noteq> ''denylist.txt.tmp'' \<Longrightarrow> d f = files s f" by blast
    with True w assms roll have "r = Inl e" "s' = s\<lparr>files := d\<rparr>"
      by (simp_all add: store_deny_def Let_def)
    with True e(2) show thesis by (metis io_error)
  qed
next
  case False
  show thesis
  proof (cases "is_valid_hash (norm hash)")
    case True
    obtain p t where pt: "store_purge i s (norm hash) = (p, t)" by fastforce
    with True False assms have "r = Inr p" and "s' = t"
      by (simp_all add: store_deny_def Let_def)
    with True False pt show thesis by (metis again)
  next
    case False
    with assms show thesis by (intro invalid) (simp_all add: store_deny_def Let_def)
  qed
qed

lemma store_allow_cases:
  assumes "store_allow i s hash = (r, s')"
  obtains (absent) "norm hash \<notin> denied s" "r = Inr False" "s' = s"
  | (io_error) e d where "norm hash \<in> denied s" "r = Inl e" "s' = s\<lparr>files := d\<rparr>"
      "\<And>f. f \<noteq> ''denylist.txt.tmp'' \<Longrightarrow> d f = files s f"
  | (lifted) d where "norm hash \<in> denied s" "r = Inr True"
      "d = replaced ''denylist.txt.tmp'' denylist_path
         (str_bytes (denylist_body (set_order i (denied s - {norm hash})))) (files s)"
      "s' = s\<lparr>files := d, denied := denied s - {norm hash}\<rparr>"
proof (cases "norm hash \<in> denied s")
  case True
  let ?S = "denied s - {norm hash}"
  obtain w d where w: "write_denylist i ?S (files s) = (w, d)" by fastforce
  from True have roll: "insert (norm hash) ?S = denied s" by blast
  from write_denylist_cases [OF w] show thesis
  proof
    assume "w = Inr () \<and> d = replaced ''denylist.txt.tmp'' denylist_path
        (str_bytes (denylist_body (set_order i ?S))) (files s)"
    then have wd: "w = Inr ()" "d = replaced ''denylist.txt.tmp'' denylist_path
        (str_bytes (denylist_body (set_order i ?S))) (files s)" by simp_all
    with True w assms have "r = Inr True" and "s' = s\<lparr>files := d, denied := ?S\<rparr>"
      by (simp_all add: store_allow_def Let_def)
    with True wd(2) show thesis by (metis lifted)
  next
    assume "\<exists>e. w = Inl e \<and> (\<forall>f. f \<noteq> ''denylist.txt.tmp'' \<longrightarrow> d f = files s f)"
    then obtain e where e: "w = Inl e" "\<And>f. f \<noteq> ''denylist.txt.tmp'' \<Longrightarrow> d f = files s f" by blast
    with True w assms roll have "r = Inl e" "s' = s\<lparr>files := d\<rparr>"
      by (simp_all add: store_allow_def Let_def)
    with True e(2) show thesis by (metis io_error)
  qed
next
  case False
  with assms show thesis by (intro absent) (simp_all add: store_allow_def Let_def)
qed

lemma store_ok_banned:
  assumes "store_ok s" and "order_ok i" and "is_valid_hash (norm hash)"
    and d: "d = replaced ''denylist.txt.tmp'' denylist_path
      (str_bytes (denylist_body (set_order i (insert (norm hash) (denied s))))) (files s)"
  shows "store_ok (snd (store_purge i (s\<lparr>files := d, denied := insert (norm hash) (denied s)\<rparr>) (norm hash)))"
    (is "store_ok (snd (store_purge i ?s _))")
proof -
  let ?h = "norm hash" and ?t = "snd (store_purge i ?s (norm hash))"
  have S: "finite (denied ?s)" "\<forall>h \<in> denied ?s. lower_hex64 h"
    using assms(1,3) by (auto simp: store_ok_defs norm_valid_lower_hex64)
  have h: "norm ?h = ?h" "is_valid_hash (norm ?h)" using assms(3) by (simp_all add: norm_norm_valid)
  have "load_denylist True (files ?t) = load_denylist True d"
    by (rule load_denylist_cong) (simp add: purge_files)
  also have "\<dots> = denied ?s"
    using S load_written_denylist [OF assms(2)] unfolding d by simp
  finally have "persisted ?t" by (simp add: persisted_def)
  moreover have "d (blob_path k) = files s (blob_path k)" for k by (simp add: d)
  ultimately show ?thesis
    using assms(1) S h by (auto simp: store_ok_defs purge_index purge_files split: if_splits)
qed

lemma store_ok_deny: "store_ok s \<Longrightarrow> order_ok i \<Longrightarrow> store_ok (snd (store_deny i s hash))"
proof -
  assume ok: "store_ok s" "order_ok i"
  obtain r s' where p: "store_deny i s hash = (r, s')" by fastforce
  from p show ?thesis
  proof (cases rule: store_deny_cases)
    case invalid
    with ok p show ?thesis by simp
  next
    case (io_error e d)
    with ok p show ?thesis by (simp add: store_ok_files)
  next
    case (again q)
    then have "s' = snd (store_purge i s (norm hash))" by (metis snd_conv)
    with ok p show ?thesis by (simp add: store_ok_purge)
  next
    case (banned q d)
    then have "s' = snd (store_purge i (s\<lparr>files := d, denied := insert (norm hash) (denied s)\<rparr>) (norm hash))"
      by (metis snd_conv)
    with ok p banned show ?thesis by (simp add: store_ok_banned)
  qed
qed

lemma store_ok_allow: "store_ok s \<Longrightarrow> order_ok i \<Longrightarrow> store_ok (snd (store_allow i s hash))"
proof -
  assume ok: "store_ok s" "order_ok i"
  obtain r s' where p: "store_allow i s hash = (r, s')" by fastforce
  from p show ?thesis
  proof (cases rule: store_allow_cases)
    case absent
    with ok p show ?thesis by simp
  next
    case (io_error e d)
    with ok p show ?thesis by (simp add: store_ok_files)
  next
    case (lifted d)
    let ?S = "denied s - {norm hash}"
    have "finite ?S" "\<forall>h \<in> ?S. lower_hex64 h" using ok by (auto simp: store_ok_defs)
    then have "load_denylist True d = ?S" using load_written_denylist [OF ok(2)] lifted(3) by simp
    moreover have "d (blob_path k) = files s (blob_path k)" for k by (simp add: lifted(3))
    ultimately show ?thesis using ok p lifted(4) by (auto simp: store_ok_defs)
  qed
qed

section \<open>Runs\<close>

datatype store_op = Put string bytes | Purge string | Deny string | Allow string

fun store_step :: "store \<Rightarrow> io \<times> store_op \<Rightarrow> store" where
  "store_step s (i, Put hash b) = snd (store_put i s hash b)"
| "store_step s (i, Purge hash) = snd (store_purge i s hash)"
| "store_step s (i, Deny hash) = snd (store_deny i s hash)"
| "store_step s (i, Allow hash) = snd (store_allow i s hash)"

fun lifts_ban :: "io \<times> store_op \<Rightarrow> string \<Rightarrow> bool" where
  "lifts_ban (i, Allow hash) h = (norm hash = h)"
| "lifts_ban (i, _) h = False"

definition io_legal :: "io \<times> store_op \<Rightarrow> bool" where
  "io_legal e \<longleftrightarrow> order_ok (fst e)"

lemma put_denied [simp]: "denied (snd (store_put i s hash b)) = denied s"
  by (simp add: store_put_eq Let_def put_blob_def split: write_outcome.splits)

lemma deny_denied: "h \<in> denied s \<Longrightarrow> h \<in> denied (snd (store_deny i s hash))"
proof -
  assume h: "h \<in> denied s"
  obtain r s' where p: "store_deny i s hash = (r, s')" by fastforce
  from p h show ?thesis
    by (cases rule: store_deny_cases) (auto simp: p dest: arg_cong [of _ _ "\<lambda>x. denied (snd x)"])
qed

lemma allow_denied: "h \<in> denied s \<Longrightarrow> norm hash \<noteq> h \<Longrightarrow> h \<in> denied (snd (store_allow i s hash))"
proof -
  assume h: "h \<in> denied s" "norm hash \<noteq> h"
  obtain r s' where p: "store_allow i s hash = (r, s')" by fastforce
  from p h show ?thesis by (cases rule: store_allow_cases) (auto simp: p)
qed

interpretation store_run: banning_machine store_step io_legal store_ok
    "\<lambda>s h. h \<in> denied s" "\<lambda>s h. h \<in> dom (index s)" lifts_ban
proof unfold_locales
  fix s :: store and e assume "store_ok s" "io_legal e"
  then show "store_ok (store_step s e)"
    by (cases "(s, e)" rule: store_step.cases)
       (auto simp: io_legal_def store_ok_put store_ok_purge store_ok_deny store_ok_allow)
next
  fix s :: store and h assume "store_ok s" "h \<in> denied s"
  then show "\<not> h \<in> dom (index s)" by (auto simp: store_ok_defs)
next
  fix s :: store and e h assume "h \<in> denied s" "\<not> lifts_ban e h"
  then show "h \<in> denied (store_step s e)"
    by (cases "(s, e)" rule: store_step.cases) (auto simp: deny_denied allow_denied)
qed

end
