(* ===== verification/Store_Spec.thy ===== *)
theory Store_Spec
  imports Store_Inv
begin

text \<open>
  What the store promises, above its invariant: the arithmetic of the cached total and of the byte budget,
  self-certification (every indexed blob hashes to its key), what reopening a directory yields, and a
  functional refinement: the detailed operations implement four set-and-map operations on an abstract state.
\<close>

section \<open>The cached total\<close>

definition index_bytes :: "(string \<rightharpoonup> u64) \<Rightarrow> nat" where
  "index_bytes m = (\<Sum>h \<in> dom m. unat (the (m h)))"

definition acct_ok :: "store \<Rightarrow> bool" where
  "acct_ok s \<longleftrightarrow> unat (tot s) = index_bytes (index s)"

lemma index_bytes_empty [simp]: "index_bytes Map.empty = 0"
  by (simp add: index_bytes_def)

lemma index_bytes_fresh: "finite (dom m) \<Longrightarrow> h \<notin> dom m \<Longrightarrow> index_bytes (m(h \<mapsto> n)) = unat n + index_bytes m"
proof -
  assume fin: "finite (dom m)" and h: "h \<notin> dom m"
  have "(\<Sum>k \<in> dom m. unat (the ((m(h \<mapsto> n)) k))) = (\<Sum>k \<in> dom m. unat (the (m k)))"
    using h by (intro sum.cong) auto
  with fin h show ?thesis by (simp add: index_bytes_def)
qed

lemma index_bytes_remove:
  assumes "finite (dom m)"
  shows "index_bytes m = (case m h of Some n \<Rightarrow> unat n | None \<Rightarrow> 0) + index_bytes (m(h := None))"
proof (cases "m h")
  case None
  then have "m(h := None) = m" by (simp add: fun_upd_idem)
  with None show ?thesis by simp
next
  case (Some n)
  then have "m = (m(h := None))(h \<mapsto> n)" by auto
  then have "index_bytes m = index_bytes ((m(h := None))(h \<mapsto> n))" by simp
  also have "\<dots> = unat n + index_bytes (m(h := None))"
    using assms by (intro index_bytes_fresh) auto
  finally show ?thesis using Some by simp
qed

lemma unat_held_len: "unat (held_len s h) = (case index s h of Some n \<Rightarrow> unat n | None \<Rightarrow> 0)"
  by (simp add: held_len_def split: option.splits)

lemma index_bytes_put:
  assumes "finite (dom m)"
  shows "index_bytes (m(h \<mapsto> n)) = unat n + index_bytes (m(h := None))"
  using assms index_bytes_fresh [of "m(h := None)" h n] by simp

lemma acct_ok_put_blob:
  assumes "finite (dom (index s))" and "acct_ok s"
    and "index_bytes (index s) - unat (held_len s h) + length b < 2 ^ 64"
  shows "acct_ok (put_blob s h b)"
proof -
  have "length b < 2 ^ 64" using assms(3) by simp
  moreover have "unat (sat_sub (tot s) (held_len s h)) = index_bytes ((index s)(h := None))"
    using assms(1,2) index_bytes_remove [of "index s" h]
    by (simp add: unat_sat_sub acct_ok_def unat_held_len)
  moreover have "index_bytes ((index s)(h := None)) + length b < 2 ^ 64"
    using assms(3) index_bytes_remove [OF assms(1), of h] by (simp add: unat_held_len)
  ultimately show ?thesis
    using assms(1) by (simp add: acct_ok_def put_blob_def index_bytes_put unat_sat_add unat_len64)
qed

lemma acct_ok_purge:
  assumes "finite (dom (index s))" and "acct_ok s"
  shows "acct_ok (snd (store_purge i s hash))"
proof (cases "is_valid_hash (norm hash)")
  case True
  with assms index_bytes_remove [OF assms(1), of "norm hash"] show ?thesis
    by (simp add: store_purge_eq Let_def acct_ok_def unat_sat_sub unat_held_len)
next
  case False
  with assms show ?thesis by (simp add: store_purge_eq Let_def)
qed

lemma acct_ok_files [simp]: "acct_ok (s\<lparr>files := d\<rparr>) = acct_ok s"
  by (simp add: acct_ok_def)

lemma acct_ok_denied [simp]: "acct_ok (s\<lparr>denied := S\<rparr>) = acct_ok s"
  by (simp add: acct_ok_def)

text \<open>Under a budget the total cannot saturate, and a put of new content keeps it within the budget.\<close>

lemma budget_put_blob:
  assumes "finite (dom (index s))" and "acct_ok s"
    and "0 < max_bytes s" and "max_bytes s < - 1" and "tot s \<le> max_bytes s"
    and "within_budget s h b" and "length b < 2 ^ 64"
    and "\<And>n. index s h = Some n \<Longrightarrow> length b \<le> unat n"
  shows "acct_ok (put_blob s h b) \<and> tot (put_blob s h b) \<le> max_bytes s"
proof -
  let ?rest = "index_bytes ((index s)(h := None))" and ?max = "unat (max_bytes s)"
  have max: "?max < 2 ^ 64 - 1" using assms(4) by (simp add: word_less_nat_alt)
  have tot: "index_bytes (index s) = unat (held_len s h) + ?rest" "unat (tot s) = index_bytes (index s)"
    using assms(2) index_bytes_remove [OF assms(1), of h] by (simp_all add: unat_held_len acct_ok_def)
  have tm: "unat (tot s) \<le> ?max" using assms(5) by (simp add: word_le_nat_alt)
  have fits: "?rest + length b \<le> ?max"
  proof (cases "held_len s h = 0")
    case True
    with assms(3,6,7) have "min (unat (tot s) + length b) (2 ^ 64 - 1) \<le> ?max"
      by (auto simp: within_budget_def word_le_nat_alt unat_sat_add unat_len64)
    with max True tot show ?thesis by (simp add: min_def split: if_splits)
  next
    case False
    then obtain n where n: "index s h = Some n" by (auto simp: held_len_def split: option.splits)
    with assms(8) have "length b \<le> unat (held_len s h)" by (simp add: held_len_def)
    with tot tm show ?thesis by simp
  qed
  with max tot have acct: "acct_ok (put_blob s h b)"
    using assms(1,2) by (intro acct_ok_put_blob) simp_all
  moreover have "index_bytes (index (put_blob s h b)) = length b + ?rest"
    using assms(1,7) by (simp add: put_blob_def index_bytes_put unat_len64)
  ultimately have "unat (tot (put_blob s h b)) \<le> ?max" using fits by (simp add: acct_ok_def)
  with acct show ?thesis by (simp add: word_le_nat_alt)
qed

section \<open>Self-certification\<close>

definition certified :: "crypto \<Rightarrow> store \<Rightarrow> bool" where
  "certified c s \<longleftrightarrow>
     (\<forall>h n. index s h = Some n \<longrightarrow> (\<exists>b. files s (blob_path h) = Some b \<and> sha256_hex c b = h))"

lemma certified_put:
  assumes "certified c s" and "sha256_hex c b = norm hash"
  shows "certified c (snd (store_put i s hash b))"
proof -
  obtain r s' where p: "store_put i s hash b = (r, s')" by fastforce
  show ?thesis
  proof (cases r)
    case (Inl e)
    with p obtain d where "s' = s\<lparr>files := d\<rparr>" "\<And>f. f \<noteq> tmp_path (norm hash) \<Longrightarrow> d f = files s f"
      by (auto elim: store_put_Err)
    with assms(1) p show ?thesis by (simp add: certified_def)
  next
    case (Inr u)
    with p have "s' = put_blob s (norm hash) b" using store_put_Ok_iff [of i s hash b u s'] by simp
    moreover from assms have "certified c (put_blob s (norm hash) b)"
      by (simp add: certified_def put_blob_def)
    ultimately show ?thesis using p by simp
  qed
qed

lemma certified_purge: "certified c s \<Longrightarrow> certified c (snd (store_purge i s hash))"
proof (cases "is_valid_hash (norm hash)")
  case True
  assume "certified c s"
  with True show ?thesis by (auto simp: certified_def purge_index purge_files split: if_splits)
next
  case False
  assume "certified c s"
  with False show ?thesis by (simp add: store_purge_eq Let_def)
qed

lemma certified_files:
  "certified c s \<Longrightarrow> (\<And>h. d (blob_path h) = files s (blob_path h)) \<Longrightarrow> certified c (s\<lparr>files := d, denied := S\<rparr>)"
  by (simp add: certified_def)

lemma certified_deny: "certified c s \<Longrightarrow> certified c (snd (store_deny i s hash))"
proof -
  assume ok: "certified c s"
  obtain r s' where p: "store_deny i s hash = (r, s')" by fastforce
  from p show ?thesis
  proof (cases rule: store_deny_cases)
    case invalid
    with ok p show ?thesis by simp
  next
    case (io_error e d)
    with ok p show ?thesis by (simp add: certified_def)
  next
    case (again q)
    then have "s' = snd (store_purge i s (norm hash))" by (metis snd_conv)
    with ok p show ?thesis by (simp add: certified_purge)
  next
    case (banned q d)
    then have s': "s' = snd (store_purge i (s\<lparr>files := d, denied := insert (norm hash) (denied s)\<rparr>) (norm hash))"
      by (metis snd_conv)
    have "certified c (s\<lparr>files := d, denied := insert (norm hash) (denied s)\<rparr>)"
      using ok banned(4) by (intro certified_files) simp_all
    with p s' show ?thesis by (simp add: certified_purge)
  qed
qed

lemma certified_allow: "certified c s \<Longrightarrow> certified c (snd (store_allow i s hash))"
proof -
  assume ok: "certified c s"
  obtain r s' where p: "store_allow i s hash = (r, s')" by fastforce
  from p show ?thesis
  proof (cases rule: store_allow_cases)
    case absent
    with ok p show ?thesis by simp
  next
    case (io_error e d)
    with ok p show ?thesis by (simp add: certified_def)
  next
    case (lifted d)
    have "certified c (s\<lparr>files := d, denied := denied s - {norm hash}\<rparr>)"
      using ok lifted(3) by (intro certified_files) simp_all
    with p lifted(4) show ?thesis by simp
  qed
qed

lemma certified_get:
  "certified c s \<Longrightarrow> store_get r s hash = Some b \<Longrightarrow> sha256_hex c b = norm hash"
  by (auto simp: certified_def store_get_def fs_read_def Let_def split: if_splits)

section \<open>Reopening a directory\<close>

text \<open>
  \<open>open\<close> over a complete listing, read without an error: every file whose name is a content hash and
  \<open>.bin\<close>, and which is not denied, is indexed with its length.
\<close>

definition file_len :: "disk \<Rightarrow> string \<Rightarrow> u64" where
  "file_len d f = (case d f of Some b \<Rightarrow> len64 b | None \<Rightarrow> 0)"

definition indexed_from :: "disk \<Rightarrow> string set \<Rightarrow> string set \<Rightarrow> (string \<rightharpoonup> u64)" where
  "indexed_from d dn names =
     (\<lambda>h. if is_valid_hash h \<and> h \<notin> dn \<and> blob_path h \<in> names then Some (file_len d (blob_path h)) else None)"

definition clean_listing :: "open_io \<Rightarrow> disk \<Rightarrow> bool" where
  "clean_listing i d \<longleftrightarrow>
     dir_ok i \<and> read_dir_ok i \<and> denylist_ok i \<and> (\<forall>f. md_ok i f) \<and>
     (\<exists>names. listing i = map Some names \<and> distinct names \<and> set names = dom d)"

text \<open>The three things one directory entry can mean to \<open>open\<close>.\<close>

lemma scan_other_file:
  "\<not> (\<exists>h. name = blob_path h \<and> is_valid_hash h)
    \<Longrightarrow> scan_dir i dn (Some name # es) d idx t = scan_dir i dn es d idx t"
  by (auto simp: blob_path_def strip_suffix_Some_iff split: option.splits)

lemma scan_denied_blob:
  "is_valid_hash h \<Longrightarrow> h \<in> dn \<Longrightarrow>
    scan_dir i dn (Some (blob_path h) # es) d idx t
      = scan_dir i dn es (fs_remove (rm_ok i (blob_path h)) (blob_path h) d) idx t"
  by (simp add: blob_path_def strip_suffix_append)

lemma scan_blob:
  "is_valid_hash h \<Longrightarrow> h \<notin> dn \<Longrightarrow> md_ok i (blob_path h) \<Longrightarrow>
    scan_dir i dn (Some (blob_path h) # es) d idx t
      = scan_dir i dn es d (idx(h \<mapsto> file_len d (blob_path h))) (t + file_len d (blob_path h))"
  by (simp add: blob_path_def strip_suffix_append file_len_def fs_read_def Let_def)

text \<open>The outcome of scanning a list of names from the index built so far.\<close>

definition scanned ::
  "disk \<Rightarrow> string set \<Rightarrow> string set \<Rightarrow> (string \<rightharpoonup> u64) \<Rightarrow> disk
    \<Rightarrow> (store_error + (string \<rightharpoonup> u64) \<times> u64) \<times> disk \<Rightarrow> bool" where
  "scanned d0 dn names idx d r \<longleftrightarrow>
     fst r = Inr (idx ++ indexed_from d0 dn names, of_nat (index_bytes (idx ++ indexed_from d0 dn names))) \<and>
     (\<forall>h. h \<notin> dn \<longrightarrow> snd r (blob_path h) = d (blob_path h)) \<and> snd r denylist_path = d denylist_path"

lemma indexed_from_insert:
  "indexed_from d dn (insert name N) =
     (if \<exists>h. name = blob_path h \<and> is_valid_hash h \<and> h \<notin> dn
      then (indexed_from d dn N)(take (length name - 4) name \<mapsto> file_len d name) else indexed_from d dn N)"
  by (auto simp: indexed_from_def fun_eq_iff blob_path_def)

lemma indexed_from_blob:
  "is_valid_hash h \<Longrightarrow> h \<notin> dn \<Longrightarrow>
    indexed_from d dn (insert (blob_path h) N) = (indexed_from d dn N)(h \<mapsto> file_len d (blob_path h))"
  by (auto simp: indexed_from_def fun_eq_iff)

lemma scan_dir_clean:
  assumes "distinct names" and "\<And>f. md_ok i f"
    and "\<And>f. f \<in> set names \<Longrightarrow> d f = d0 f"
    and "finite (dom idx)" and "t = of_nat (index_bytes idx)"
    and "\<And>h. h \<in> dom idx \<Longrightarrow> blob_path h \<notin> set names"
  shows "scanned d0 dn (set names) idx d (scan_dir i dn (map Some names) d idx t)"
  using assms
proof (induction names arbitrary: d idx t)
  case Nil
  have "indexed_from d0 dn {} = Map.empty" by (simp add: indexed_from_def)
  with Nil show ?case by (simp add: scanned_def)
next
  case (Cons name names)
  consider (other) "\<not> (\<exists>h. name = blob_path h \<and> is_valid_hash h)"
    | (denied) h where "name = blob_path h" "is_valid_hash h" "h \<in> dn"
    | (blob) h where "name = blob_path h" "is_valid_hash h" "h \<notin> dn" by blast
  then show ?case
  proof cases
    case other
    then have "indexed_from d0 dn (set (name # names)) = indexed_from d0 dn (set names)"
      by (auto simp: indexed_from_insert)
    moreover have "scanned d0 dn (set names) idx d (scan_dir i dn (map Some names) d idx t)"
      using Cons.prems by (intro Cons.IH) auto
    ultimately show ?thesis using scan_other_file [OF other] by (simp add: scanned_def)
  next
    case denied
    let ?d = "fs_remove (rm_ok i name) name d"
    have "indexed_from d0 dn (set (name # names)) = indexed_from d0 dn (set names)"
      using denied by (auto simp: indexed_from_insert)
    moreover have "scanned d0 dn (set names) idx ?d (scan_dir i dn (map Some names) ?d idx t)"
      using Cons.prems by (intro Cons.IH) (auto simp: fs_remove_def)
    moreover have "\<forall>k. k \<notin> dn \<longrightarrow> ?d (blob_path k) = d (blob_path k)" "?d denylist_path = d denylist_path"
      using denied by (auto simp: fs_remove_def)
    ultimately show ?thesis
      using denied by (simp add: scanned_def scan_denied_blob del: scan_dir.simps)
  next
    case blob
    let ?n = "file_len d name" and ?J = "indexed_from d0 dn"
    have n: "?n = file_len d0 name" using Cons.prems(3) by (simp add: file_len_def)
    have fresh: "h \<notin> dom idx" using Cons.prems(6) blob(1) by auto
    have "h \<notin> dom (?J (set names))" using Cons.prems(1) blob(1) by (auto simp: indexed_from_def)
    then have J: "idx ++ ?J (set (name # names)) = idx(h \<mapsto> ?n) ++ ?J (set names)"
      using blob n by (simp add: map_add_upd_left indexed_from_blob)
    have "scanned d0 dn (set names) (idx(h \<mapsto> ?n)) d (scan_dir i dn (map Some names) d (idx(h \<mapsto> ?n)) (t + ?n))"
      using Cons.prems blob fresh by (intro Cons.IH) (auto simp: index_bytes_fresh simp del: fun_upd_apply)
    then show ?thesis
      using blob Cons.prems(2) J by (simp add: scanned_def scan_blob del: scan_dir.simps)
  qed
qed

lemma store_open_clean:
  assumes "clean_listing i d"
  obtains s where "fst (store_open i d) = Inr s" "denied s = load_denylist True d" "max_bytes s = 0"
    and "index s = indexed_from d (denied s) (dom d)" "tot s = of_nat (index_bytes (index s))"
    and "\<And>h. h \<notin> denied s \<Longrightarrow> files s (blob_path h) = d (blob_path h)"
    and "files s denylist_path = d denylist_path"
proof -
  obtain names where n: "listing i = map Some names" "distinct names" "set names = dom d"
    using assms by (auto simp: clean_listing_def)
  let ?dn = "load_denylist True d"
  have md: "\<And>f. md_ok i f" using assms by (simp add: clean_listing_def)
  have sc: "scanned d ?dn (set names) Map.empty d (scan_dir i ?dn (map Some names) d Map.empty 0)"
    using n(2) md by (intro scan_dir_clean) simp_all
  obtain r d' where rd: "scan_dir i ?dn (map Some names) d Map.empty 0 = (r, d')" by fastforce
  have d': "r = Inr (indexed_from d ?dn (dom d), of_nat (index_bytes (indexed_from d ?dn (dom d))))"
    "\<And>h. h \<notin> ?dn \<Longrightarrow> d' (blob_path h) = d (blob_path h)" "d' denylist_path = d denylist_path"
    using sc n(3) by (simp_all add: scanned_def rd)
  let ?s = "\<lparr>files = d', index = indexed_from d ?dn (dom d),
      tot = of_nat (index_bytes (indexed_from d ?dn (dom d))), denied = ?dn, max_bytes = 0\<rparr>"
  have "fst (store_open i d) = Inr ?s"
    using assms n(1) rd d'(1) by (simp add: store_open_def clean_listing_def Let_def)
  then show thesis using d'(2,3) by (intro that [of ?s]) simp_all
qed

lemma dom_indexed_from: "dom (indexed_from d dn names) \<subseteq> {h. is_valid_hash h \<and> h \<notin> dn \<and> blob_path h \<in> names}"
  by (auto simp: indexed_from_def split: if_splits)

lemma finite_indexed_from: "finite names \<Longrightarrow> finite (dom (indexed_from d dn names))"
proof -
  assume "finite names"
  then have "finite {h. blob_path h \<in> names}"
    by (intro finite_vimageI [unfolded vimage_def]) (simp_all add: inj_on_def)
  then show ?thesis by (rule rev_finite_subset) (use dom_indexed_from in fastforce)
qed

lemma store_ok_opened:
  assumes "clean_listing i d" and "fst (store_open i d) = Inr s"
  shows "store_ok s"
proof -
  have fin: "finite (dom d)" using assms(1) by (auto simp: clean_listing_def) (metis finite_set)
  obtain s' where s': "fst (store_open i d) = Inr s'" "denied s' = load_denylist True d"
    "index s' = indexed_from d (denied s') (dom d)"
    "\<And>h. h \<notin> denied s' \<Longrightarrow> files s' (blob_path h) = d (blob_path h)"
    "files s' denylist_path = d denylist_path"
    using store_open_clean [OF assms(1)] by metis
  with assms(2) have s: "s = s'" by simp
  have "load_denylist True (files s') = load_denylist True d"
    using s'(5) by (rule load_denylist_cong)
  then have "persisted s'" by (simp add: persisted_def s'(2))
  moreover have "keys_ok s'"
    using finite_indexed_from [OF fin] dom_indexed_from load_denylist_lower_hex64 [of True d]
    unfolding keys_ok_def s'(2,3) by blast
  moreover have "deny_ok s'"
    unfolding deny_ok_def s'(3) by (auto simp: indexed_from_def split: if_splits)
  moreover have "disk_ok s'"
    using s'(4) unfolding disk_ok_def s'(3)
    by (auto simp: indexed_from_def file_len_def split: if_splits option.splits)
  ultimately show ?thesis by (simp add: s store_ok_def)
qed

text \<open>
  Reopening the directory of a well-formed store gives back its denylist and every blob it held, with the
  lengths it had. Files that were on the disk and not in the index (a blob whose removal had failed) are
  indexed as well, unless they are denied.
\<close>

lemma reopen_keeps:
  assumes "store_ok s" and "clean_listing i (files s)" and "fst (store_open i (files s)) = Inr s'"
  shows "denied s' = denied s" and "index s \<subseteq>\<^sub>m index s'"
    and "\<And>h. h \<in> dom (index s) \<Longrightarrow> files s' (blob_path h) = files s (blob_path h)"
proof -
  obtain t where t: "fst (store_open i (files s)) = Inr t" "denied t = load_denylist True (files s)"
    "index t = indexed_from (files s) (denied t) (dom (files s))"
    "\<And>h. h \<notin> denied t \<Longrightarrow> files t (blob_path h) = files s (blob_path h)"
    using store_open_clean [OF assms(2)] by metis
  with assms(3) have s': "s' = t" by simp
  show dn: "denied s' = denied s" using assms(1) t(2) by (simp add: s' store_ok_defs)
  show "index s \<subseteq>\<^sub>m index s'"
    unfolding map_le_def
  proof
    fix h assume "h \<in> dom (index s)"
    then obtain n where n: "index s h = Some n" by blast
    with assms(1) obtain b where "files s (blob_path h) = Some b" "n = len64 b"
      by (blast dest: store_ok_blob)
    moreover from n assms(1) have "is_valid_hash h" "h \<notin> denied s" by (auto simp: store_ok_defs)
    ultimately show "index s h = index s' h"
      using dn n unfolding s' t(3) by (auto simp: indexed_from_def file_len_def)
  qed
  show "\<And>h. h \<in> dom (index s) \<Longrightarrow> files s' (blob_path h) = files s (blob_path h)"
    using assms(1) dn t(4) store_run.banned_not_held unfolding s' by metis
qed

section \<open>The abstract store\<close>

text \<open>
  What the operations mean, without files, temporary names or cached sums: a map of held blobs and a set of
  banned hashes. \<open>abs_store\<close> reads this off a detailed state; \<open>succeeds\<close> says whether a call did its work
  (it may refuse, or fail on I/O), and then the abstract operation is what it did.
\<close>

record blob_spec =
  held :: "string \<rightharpoonup> bytes"
  banned :: "string set"

definition abs_store :: "store \<Rightarrow> blob_spec" where
  "abs_store s =
     \<lparr>held = (\<lambda>h. if h \<in> dom (index s) then files s (blob_path h) else None), banned = denied s\<rparr>"

fun spec_step :: "blob_spec \<Rightarrow> store_op \<Rightarrow> blob_spec" where
  "spec_step a (Put hash b) = a\<lparr>held := (held a)(norm hash \<mapsto> b)\<rparr>"
| "spec_step a (Purge hash) = a\<lparr>held := (held a)(norm hash := None)\<rparr>"
| "spec_step a (Deny hash) =
     a\<lparr>held := (held a)(norm hash := None), banned := insert (norm hash) (banned a)\<rparr>"
| "spec_step a (Allow hash) = a\<lparr>banned := banned a - {norm hash}\<rparr>"

fun succeeds :: "io \<Rightarrow> store \<Rightarrow> store_op \<Rightarrow> bool" where
  "succeeds i s (Put hash b) = (case fst (store_put i s hash b) of Inr _ \<Rightarrow> True | Inl _ \<Rightarrow> False)"
| "succeeds i s (Purge hash) = is_valid_hash (norm hash)"
| "succeeds i s (Deny hash) = (case fst (store_deny i s hash) of Inr _ \<Rightarrow> True | Inl _ \<Rightarrow> False)"
| "succeeds i s (Allow hash) = (case fst (store_allow i s hash) of Inr _ \<Rightarrow> True | Inl _ \<Rightarrow> False)"

lemma abs_files:
  "(\<And>h. d (blob_path h) = files s (blob_path h)) \<Longrightarrow> abs_store (s\<lparr>files := d\<rparr>) = abs_store s"
  by (simp add: abs_store_def fun_eq_iff)

lemma abs_put_blob: "abs_store (put_blob s h b) = (abs_store s)\<lparr>held := (held (abs_store s))(h \<mapsto> b)\<rparr>"
  by (auto simp: abs_store_def put_blob_def fun_eq_iff)

lemma abs_purge:
  "is_valid_hash (norm hash) \<Longrightarrow>
    abs_store (snd (store_purge i s hash)) = (abs_store s)\<lparr>held := (held (abs_store s))(norm hash := None)\<rparr>"
  by (auto simp: abs_store_def purge_index purge_files fun_eq_iff)

lemma abs_put: "abs_store (snd (store_put i s hash b)) =
    (if succeeds i s (Put hash b) then spec_step (abs_store s) (Put hash b) else abs_store s)"
proof -
  obtain r s' where p: "store_put i s hash b = (r, s')" by fastforce
  show ?thesis
  proof (cases r)
    case (Inl e)
    with p obtain d where "s' = s\<lparr>files := d\<rparr>" "\<And>f. f \<noteq> tmp_path (norm hash) \<Longrightarrow> d f = files s f"
      by (auto elim: store_put_Err)
    with Inl p show ?thesis by (simp add: abs_files)
  next
    case (Inr u)
    with p have "s' = put_blob s (norm hash) b" using store_put_Ok_iff [of i s hash b u s'] by simp
    with Inr p show ?thesis by (simp add: abs_put_blob)
  qed
qed

lemma abs_deny: "abs_store (snd (store_deny i s hash)) =
    (if succeeds i s (Deny hash) then spec_step (abs_store s) (Deny hash) else abs_store s)"
proof -
  obtain r s' where p: "store_deny i s hash = (r, s')" by fastforce
  from p show ?thesis
  proof (cases rule: store_deny_cases)
    case invalid
    with p show ?thesis by simp
  next
    case (io_error e d)
    with p show ?thesis by (simp add: abs_files)
  next
    case (again q)
    then have "s' = snd (store_purge i s (norm hash))" by (metis snd_conv)
    with p again show ?thesis
      by (auto simp: abs_purge norm_norm_valid) (simp add: abs_store_def insert_absorb)
  next
    case (banned q d)
    then have "s' = snd (store_purge i (s\<lparr>files := d, denied := insert (norm hash) (denied s)\<rparr>) (norm hash))"
      by (metis snd_conv)
    moreover have "d (blob_path h) = files s (blob_path h)" for h using banned(4) by simp
    ultimately show ?thesis
      using p banned(1,3) by (simp add: abs_purge norm_norm_valid) (simp add: abs_store_def fun_eq_iff)
  qed
qed

lemma abs_allow: "abs_store (snd (store_allow i s hash)) =
    (if succeeds i s (Allow hash) then spec_step (abs_store s) (Allow hash) else abs_store s)"
proof -
  obtain r s' where p: "store_allow i s hash = (r, s')" by fastforce
  from p show ?thesis
  proof (cases rule: store_allow_cases)
    case absent
    with p show ?thesis by (simp add: abs_store_def)
  next
    case (io_error e d)
    with p show ?thesis by (simp add: abs_files)
  next
    case (lifted d)
    have "d (blob_path h) = files s (blob_path h)" for h using lifted(3) by simp
    with p lifted(2,4) show ?thesis by (simp add: abs_store_def fun_eq_iff)
  qed
qed

lemma store_refines_step:
  "abs_store (store_step s (i, op)) = (if succeeds i s op then spec_step (abs_store s) op else abs_store s)"
proof (cases op)
  case (Purge hash)
  then show ?thesis
    by (simp add: abs_purge) (simp add: store_purge_eq Let_def)
qed (simp_all only: store_step.simps abs_put abs_deny abs_allow)

lemma abs_get:
  "store_get True s hash = (if is_valid_hash (norm hash) then held (abs_store s) (norm hash) else None)"
  by (auto simp: store_get_def abs_store_def fs_read_def Let_def)

lemma abs_has: "store_ok s \<Longrightarrow> store_has s hash = map_option len64 (held (abs_store s) (norm hash))"
  by (cases "index s (norm hash)") (auto simp: store_has_def abs_store_def dest: store_ok_blob)

end
