(* ===== verification/Store_Budget.thy ===== *)
theory Store_Budget
  imports Store_Spec
begin

text \<open>
  Runs of the store on verified content. The node puts only bytes whose digest is the key; as long as no two
  different byte strings in play collide under SHA-256, a repeated put carries the bytes already held, and the
  byte budget bounds what the index accounts for, exactly.
\<close>

text \<open>\<open>B\<close> is the set of byte strings in play; each fits in memory.\<close>

definition collision_free :: "crypto \<Rightarrow> bytes set \<Rightarrow> bool" where
  "collision_free c B \<longleftrightarrow> inj_on (sha256_hex c) B \<and> (\<forall>b \<in> B. length b < 2 ^ 64)"

fun verified_op :: "crypto \<Rightarrow> bytes set \<Rightarrow> io \<times> store_op \<Rightarrow> bool" where
  "verified_op c B (i, Put hash b) = (order_ok i \<and> sha256_hex c b = norm hash \<and> b \<in> B)"
| "verified_op c B (i, _) = order_ok i"

definition blobs_in :: "bytes set \<Rightarrow> store \<Rightarrow> bool" where
  "blobs_in B s \<longleftrightarrow> (\<forall>h n b. index s h = Some n \<longrightarrow> files s (blob_path h) = Some b \<longrightarrow> b \<in> B)"

definition budgeted :: "crypto \<Rightarrow> bytes set \<Rightarrow> u64 \<Rightarrow> store \<Rightarrow> bool" where
  "budgeted c B m s \<longleftrightarrow>
     store_ok s \<and> certified c s \<and> blobs_in B s \<and> acct_ok s \<and> max_bytes s = m \<and> tot s \<le> m"

lemma held_len_verified:
  assumes "budgeted c B m s" and "collision_free c B" and "b \<in> B" and "sha256_hex c b = h"
    and "index s h = Some n"
  shows "unat n = length b"
proof -
  obtain b' where b': "files s (blob_path h) = Some b'" "n = len64 b'"
    using assms(1,5) store_ok_blob unfolding budgeted_def by blast
  with assms(1,5) have "sha256_hex c b' = h" "b' \<in> B"
    by (fastforce simp: budgeted_def certified_def, auto simp: budgeted_def blobs_in_def)
  with assms(2-4) have "b' = b" by (auto simp: collision_free_def dest: inj_onD)
  with assms(2,3) b'(2) show ?thesis by (simp add: collision_free_def unat_len64)
qed

lemma blobs_in_put_blob: "blobs_in B s \<Longrightarrow> b \<in> B \<Longrightarrow> blobs_in B (put_blob s h b)"
  by (auto simp: blobs_in_def put_blob_def split: if_splits)

lemma blobs_in_purge: "blobs_in B s \<Longrightarrow> blobs_in B (snd (store_purge i s hash))"
  by (auto simp: blobs_in_def store_purge_eq Let_def fs_remove_def split: if_splits)

lemma blobs_in_files: "(\<And>h. d (blob_path h) = files s (blob_path h)) \<Longrightarrow> blobs_in B (s\<lparr>files := d\<rparr>) = blobs_in B s"
  by (simp add: blobs_in_def)

text \<open>What a purge and a deny or allow keep of the accounts.\<close>

definition accounts :: "bytes set \<Rightarrow> u64 \<Rightarrow> store \<Rightarrow> bool" where
  "accounts B m s \<longleftrightarrow> blobs_in B s \<and> acct_ok s \<and> max_bytes s = m \<and> tot s \<le> m"

lemma sat_sub_le: "sat_sub a b \<le> a"
  by (simp add: word_le_nat_alt unat_sat_sub)

lemma accounts_purge:
  assumes "accounts B m s" and "finite (dom (index s))"
  shows "accounts B m (snd (store_purge i s hash))"
proof -
  have "tot (snd (store_purge i s hash)) \<le> tot s"
    by (simp add: store_purge_eq Let_def sat_sub_le)
  with assms show ?thesis by (auto simp: accounts_def blobs_in_purge acct_ok_purge)
qed

lemma accounts_files:
  "accounts B m s \<Longrightarrow> (\<And>h. d (blob_path h) = files s (blob_path h)) \<Longrightarrow> accounts B m (s\<lparr>files := d, denied := S\<rparr>)"
  by (simp add: accounts_def acct_ok_def blobs_in_def)

lemma accounts_deny:
  assumes "accounts B m s" and "finite (dom (index s))"
  shows "accounts B m (snd (store_deny i s hash))"
proof -
  obtain r s' where p: "store_deny i s hash = (r, s')" by fastforce
  from p show ?thesis
  proof (cases rule: store_deny_cases)
    case invalid
    with assms p show ?thesis by simp
  next
    case (io_error e d)
    with assms p accounts_files [of B m s d "denied s"] show ?thesis by simp
  next
    case (again q)
    then have "s' = snd (store_purge i s (norm hash))" by (metis snd_conv)
    with assms p show ?thesis by (simp add: accounts_purge)
  next
    case (banned q d)
    let ?s = "s\<lparr>files := d, denied := insert (norm hash) (denied s)\<rparr>"
    have "s' = snd (store_purge i ?s (norm hash))" using banned by (metis snd_conv)
    moreover have "accounts B m ?s" using assms(1) banned(4) by (intro accounts_files) simp_all
    ultimately show ?thesis using p assms(2) by (simp add: accounts_purge)
  qed
qed

lemma accounts_allow:
  assumes "accounts B m s"
  shows "accounts B m (snd (store_allow i s hash))"
proof -
  obtain r s' where p: "store_allow i s hash = (r, s')" by fastforce
  from p show ?thesis
  proof (cases rule: store_allow_cases)
    case (io_error e d)
    with assms p accounts_files [of B m s d "denied s"] show ?thesis by simp
  next
    case (lifted d)
    have "accounts B m (s\<lparr>files := d, denied := denied s - {norm hash}\<rparr>)"
      using assms lifted(3) by (intro accounts_files) simp_all
    with p lifted(4) show ?thesis by simp
  qed (use assms p in simp)
qed

lemma accounts_put:
  assumes "budgeted c B m s" and "collision_free c B" and "0 < m" "m < - 1"
    and "b \<in> B" and "sha256_hex c b = norm hash"
  shows "accounts B m (snd (store_put i s hash b))"
proof -
  have acc: "accounts B m s" and fin: "finite (dom (index s))"
    using assms(1) by (simp_all add: accounts_def budgeted_def store_ok_defs)
  obtain r s' where p: "store_put i s hash b = (r, s')" by fastforce
  show ?thesis
  proof (cases r)
    case (Inl e)
    with p obtain d where d: "s' = s\<lparr>files := d\<rparr>" "\<And>f. f \<noteq> tmp_path (norm hash) \<Longrightarrow> d f = files s f"
      by (auto elim: store_put_Err)
    with acc p accounts_files [of B m s d "denied s"] show ?thesis by simp
  next
    case (Inr u)
    with p have s': "s' = put_blob s (norm hash) b" and w: "within_budget s (norm hash) b"
      using store_put_Ok_iff [of i s hash b u s'] by simp_all
    have "acct_ok s'\<and> tot s' \<le> max_bytes s"
      unfolding s' using assms fin w held_len_verified [OF assms(1,2,5,6)]
      by (intro budget_put_blob) (auto simp: budgeted_def collision_free_def)
    moreover have "max_bytes s' = max_bytes s" by (simp add: s' put_blob_def)
    ultimately show ?thesis
      using acc assms(5) p by (simp add: accounts_def s' blobs_in_put_blob)
  qed
qed

lemma budgeted_eq: "budgeted c B m s \<longleftrightarrow> store_ok s \<and> certified c s \<and> accounts B m s"
  by (auto simp: budgeted_def accounts_def)

lemma budgeted_step:
  assumes "budgeted c B m s" and "verified_op c B e" and "collision_free c B" and "0 < m" "m < - 1"
  shows "budgeted c B m (store_step s e)"
proof -
  have s: "store_ok s" "certified c s" "accounts B m s" using assms(1) by (simp_all add: budgeted_eq)
  have fin: "finite (dom (index s))" using s(1) by (simp add: store_ok_defs)
  have legal: "io_legal e" using assms(2) by (cases "(c, B, e)" rule: verified_op.cases) (auto simp: io_legal_def)
  have "certified c (store_step s e) \<and> accounts B m (store_step s e)"
  proof (cases "(s, e)" rule: store_step.cases)
    case (1 s0 i hash b)
    with assms s show ?thesis by (simp add: certified_put accounts_put)
  next
    case (2 s0 i hash)
    with s fin show ?thesis by (simp add: certified_purge accounts_purge)
  next
    case (3 s0 i hash)
    with s fin show ?thesis by (simp add: certified_deny accounts_deny)
  next
    case (4 s0 i hash)
    with s show ?thesis by (simp add: certified_allow accounts_allow)
  qed
  with s(1) legal show ?thesis by (simp add: budgeted_eq store_run.step_inv)
qed

text \<open>A budget that is set: not unlimited, and not the largest \<open>u64\<close>, at which the total would saturate.\<close>

definition real_budget :: "u64 \<Rightarrow> bool" where
  "real_budget m \<longleftrightarrow> 0 < m \<and> m < - 1"

interpretation budget_run: machine store_step
    "\<lambda>e. collision_free c B \<and> real_budget m \<and> verified_op c B e" "budgeted c B m"
  for c :: crypto and B :: "bytes set" and m :: u64
  by unfold_locales (simp add: real_budget_def budgeted_step)

text \<open>Self-certification needs less: it holds along every run whose puts are verified.\<close>

fun verified_put :: "crypto \<Rightarrow> io \<times> store_op \<Rightarrow> bool" where
  "verified_put c (i, Put hash b) = (sha256_hex c b = norm hash)"
| "verified_put c (i, _) = True"

lemma certified_step: "certified c s \<Longrightarrow> verified_put c e \<Longrightarrow> certified c (store_step s e)"
  by (cases "(s, e)" rule: store_step.cases)
     (auto simp: certified_put certified_purge certified_deny certified_allow)

interpretation certified_run: machine store_step "verified_put c" "certified c" for c :: crypto
  by unfold_locales (rule certified_step)

text \<open>What the accounts mean for the disk.\<close>

lemma disk_bytes:
  assumes "budgeted c B m s" and "collision_free c B"
  shows "(\<Sum>h \<in> dom (index s). length (the (files s (blob_path h)))) = unat (tot s)"
proof -
  have "length (the (files s (blob_path h))) = unat (the (index s h))" if "h \<in> dom (index s)" for h
  proof -
    from that obtain n where n: "index s h = Some n" by blast
    with assms(1) obtain b where b: "files s (blob_path h) = Some b" "n = len64 b"
      using store_ok_blob unfolding budgeted_def by blast
    with n assms have "length b < 2 ^ 64" by (auto simp: budgeted_def blobs_in_def collision_free_def)
    with b n show ?thesis by (simp add: unat_len64)
  qed
  then show ?thesis using assms(1) by (simp add: budgeted_def acct_ok_def index_bytes_def)
qed

end
