(* ===== verification/Store_Tasks.thy ===== *)
theory Store_Tasks
  imports Store_Budget
begin

text \<open>
  The store under concurrency (src/store.rs): the awaits inside \<open>put\<close>, \<open>deny\<close>, \<open>purge\<close> and \<open>get\<close> as program
  counters, and one step per lock region or file-system call, in any interleaving. What happens under one write
  lock is one step: the denylist change of \<open>deny\<close> and of \<open>allow\<close>, and the update of the index together with the
  total (the index lock is held until the total is written). The node has one ingest task, which awaits each
  put before the next, so at most one put is in flight; denies, allows and reads come from any number of
  HTTP handlers and serve tasks.
\<close>

section \<open>Program counters\<close>

datatype put_pc =
    PutCheck string bytes | PutTotal string bytes | PutHeld string bytes u64
  | PutWrite string bytes | PutRename string bytes | PutCommit string bytes

datatype deny_pc = DenySet string | PurgeFile string | PurgeIndex string

fun put_step :: "io \<Rightarrow> store \<Rightarrow> put_pc \<Rightarrow> (put_pc + (store_error + unit)) \<times> store" where
  "put_step i s (PutCheck h b) =
     (if h \<in> denied s then (Inr (Inl OnDenylist), s)
      else if 0 < max_bytes s then (Inl (PutTotal h b), s) else (Inl (PutWrite h b), s))"
| "put_step i s (PutTotal h b) = (Inl (PutHeld h b (tot s)), s)"
| "put_step i s (PutHeld h b cur) =
     (let already = (case index s h of Some n \<Rightarrow> n | None \<Rightarrow> 0)
      in if already = 0 \<and> max_bytes s < sat_add cur (len64 b)
         then (Inr (Inl (OverBudget (max_bytes s) cur (length b))), s)
         else (Inl (PutWrite h b), s))"
| "put_step i s (PutWrite h b) =
     (case fs_write (write_out i) (tmp_path h) b (files s) of
        (False, d) \<Rightarrow> (Inr (Inl WriteTmp), s\<lparr>files := d\<rparr>)
      | (True, d) \<Rightarrow> (Inl (PutRename h b), s\<lparr>files := d\<rparr>))"
| "put_step i s (PutRename h b) =
     (case fs_rename (rename_ok i) (tmp_path h) (blob_path h) (files s) of
        (False, d) \<Rightarrow> (Inr (Inl RenameIntoPlace), s\<lparr>files := d\<rparr>)
      | (True, d) \<Rightarrow> (Inl (PutCommit h b), s\<lparr>files := d\<rparr>))"
| "put_step i s (PutCommit h b) =
     (let prev = (case index s h of Some n \<Rightarrow> n | None \<Rightarrow> 0)
      in (Inr (Inr ()), s\<lparr>index := (index s)(h \<mapsto> len64 b), tot := sat_add (sat_sub (tot s) prev) (len64 b)\<rparr>))"

fun deny_step :: "io \<Rightarrow> store \<Rightarrow> deny_pc \<Rightarrow> (deny_pc + (store_error + bool)) \<times> store" where
  "deny_step i s (DenySet h) =
     (if h \<notin> denied s then
        (let S = insert h (denied s)
         in case write_denylist i S (files s) of
              (Inl e, d) \<Rightarrow> (Inr (Inl e), s\<lparr>files := d, denied := S - {h}\<rparr>)
            | (Inr _, d) \<Rightarrow> (Inl (PurgeFile h), s\<lparr>files := d, denied := S\<rparr>))
      else (Inl (PurgeFile h), s))"
| "deny_step i s (PurgeFile h) =
     (Inl (PurgeIndex h), s\<lparr>files := fs_remove (remove_ok i) (blob_path h) (files s)\<rparr>)"
| "deny_step i s (PurgeIndex h) =
     (case index s h of
        Some n \<Rightarrow> (Inr (Inr True), s\<lparr>index := (index s)(h := None), tot := sat_sub (tot s) n\<rparr>)
      | None \<Rightarrow> (Inr (Inr False), s))"

section \<open>Tasks on one store\<close>

text \<open>\<open>reading\<close>: the reads that found their hash in the index and have not read the file yet.\<close>

record store_tasks =
  shared :: store
  putting :: "put_pc option"
  denying :: "deny_pc list"
  reading :: "string list"

text \<open>No task is under way.\<close>

definition idle :: "store \<Rightarrow> store_tasks" where
  "idle s = \<lparr>shared = s, putting = None, denying = [], reading = []\<rparr>"

datatype task_event =
    PutCall string bytes | PutNext | DenyCall string | DenyNext nat | AllowCall string
  | ReadCall string | ReadNext nat bool

datatype task_out =
    PutReturns "store_error + unit" | DenyReturns string "store_error + bool"
  | AllowReturns string "store_error + bool" | ReadReturns string "bytes option"

fun deny_hash :: "deny_pc \<Rightarrow> string" where
  "deny_hash (DenySet h) = h"
| "deny_hash (PurgeFile h) = h"
| "deny_hash (PurgeIndex h) = h"

definition drop_nth :: "nat \<Rightarrow> 'a list \<Rightarrow> 'a list" where
  "drop_nth k xs = take k xs @ drop (Suc k) xs"

lemma length_drop_nth: "k < length xs \<Longrightarrow> Suc (length (drop_nth k xs)) = length xs"
  by (simp add: drop_nth_def)

fun task_step :: "store_tasks \<Rightarrow> io \<times> task_event \<Rightarrow> store_tasks \<times> task_out list" where
  "task_step a (i, PutCall hash b) =
     (case putting a of
        Some _ \<Rightarrow> (a, [])
      | None \<Rightarrow>
          let h = norm hash
          in if \<not> is_valid_hash h then (a, [PutReturns (Inl NonHexKey)])
             else (a\<lparr>putting := Some (PutCheck h b)\<rparr>, []))"
| "task_step a (i, PutNext) =
     (case putting a of
        None \<Rightarrow> (a, [])
      | Some pc \<Rightarrow>
          (case put_step i (shared a) pc of
             (Inl pc', s) \<Rightarrow> (a\<lparr>shared := s, putting := Some pc'\<rparr>, [])
           | (Inr r, s) \<Rightarrow> (a\<lparr>shared := s, putting := None\<rparr>, [PutReturns r])))"
| "task_step a (i, DenyCall hash) =
     (let h = norm hash
      in if \<not> is_valid_hash h then (a, [DenyReturns h (Inl NotAContentHash)])
         else (a\<lparr>denying := denying a @ [DenySet h]\<rparr>, []))"
| "task_step a (i, DenyNext k) =
     (if k < length (denying a) then
        (case deny_step i (shared a) (denying a ! k) of
           (Inl pc, s) \<Rightarrow> (a\<lparr>shared := s, denying := (denying a)[k := pc]\<rparr>, [])
         | (Inr r, s) \<Rightarrow>
             (a\<lparr>shared := s, denying := drop_nth k (denying a)\<rparr>, [DenyReturns (deny_hash (denying a ! k)) r]))
      else (a, []))"
| "task_step a (i, AllowCall hash) =
     (case store_allow i (shared a) hash of (r, s) \<Rightarrow> (a\<lparr>shared := s\<rparr>, [AllowReturns (norm hash) r]))"
| "task_step a (i, ReadCall hash) =
     (let h = norm hash
      in if \<not> is_valid_hash h then (a, [ReadReturns h None])
         else if h \<notin> dom (index (shared a)) then (a, [ReadReturns h None])
         else (a\<lparr>reading := reading a @ [h]\<rparr>, []))"
| "task_step a (i, ReadNext k ok) =
     (if k < length (reading a) then
        (a\<lparr>reading := drop_nth k (reading a)\<rparr>,
         [ReadReturns (reading a ! k) (fs_read ok (blob_path (reading a ! k)) (files (shared a)))])
      else (a, []))"

fun task_run :: "store_tasks \<Rightarrow> (io \<times> task_event) list \<Rightarrow> store_tasks \<times> task_out list" where
  "task_run a [] = (a, [])"
| "task_run a (e # es) =
     (let (a1, o1) = task_step a e; (a2, o2) = task_run a1 es in (a2, o1 @ o2))"

lemma task_run_state: "fst (task_run a es) = foldl (\<lambda>a e. fst (task_step a e)) a es"
  by (induction es arbitrary: a) (simp_all add: case_prod_beta Let_def)

lemma set_drop_nth: "set (drop_nth k xs) \<subseteq> set xs"
  by (auto simp: drop_nth_def dest: in_set_takeD in_set_dropD)

section \<open>A task alone does what the operation does\<close>

text \<open>From the write on, the steps of a put look neither at the denylist nor at the budget.\<close>

lemma task_put_idle: "putting a = None \<Longrightarrow> task_run a (replicate k (i, PutNext)) = (a, [])"
  by (induction k) simp_all

lemma put_from_write:
  assumes "putting a = None" and "3 \<le> k"
  shows "task_run (a\<lparr>shared := s, putting := Some (PutWrite h b)\<rparr>) (replicate k (i, PutNext)) =
    (case fs_write (write_out i) (tmp_path h) b (files s) of
       (False, d) \<Rightarrow> (a\<lparr>shared := s\<lparr>files := d\<rparr>\<rparr>, [PutReturns (Inl WriteTmp)])
     | (True, d) \<Rightarrow>
         (case fs_rename (rename_ok i) (tmp_path h) (blob_path h) d of
            (False, d) \<Rightarrow> (a\<lparr>shared := s\<lparr>files := d\<rparr>\<rparr>, [PutReturns (Inl RenameIntoPlace)])
          | (True, d) \<Rightarrow>
              (let prev = (case index s h of Some n \<Rightarrow> n | None \<Rightarrow> 0)
               in (a\<lparr>shared := s\<lparr>files := d, index := (index s)(h \<mapsto> len64 b),
                    tot := sat_add (sat_sub (tot s) prev) (len64 b)\<rparr>\<rparr>, [PutReturns (Inr ())]))))"
proof -
  obtain j where k: "replicate k (i, PutNext) = (i, PutNext) # (i, PutNext) # (i, PutNext) # replicate j (i, PutNext)"
    using assms(2) by (auto simp: le_iff_add numeral_3_eq_3)
  have a: "a\<lparr>shared := t, putting := None\<rparr> = a\<lparr>shared := t\<rparr>" for t using assms(1) by (simp add: store_tasks.equality)
  obtain w d where w: "fs_write (write_out i) (tmp_path h) b (files s) = (w, d)" by fastforce
  obtain r d' where r: "fs_rename (rename_ok i) (tmp_path h) (blob_path h) d = (r, d')" by fastforce
  show ?thesis unfolding k using assms(1) w r by (cases w; cases r) (simp_all add: a task_put_idle Let_def)
qed

lemma put_alone:
  assumes "putting a = None"
  shows "task_run a ((i, PutCall hash b) # replicate 6 (i, PutNext)) =
    (a\<lparr>shared := snd (store_put i (shared a) hash b)\<rparr>, [PutReturns (fst (store_put i (shared a) hash b))])"
proof -
  obtain s where s: "shared a = s" by simp
  have steps: "replicate 6 (i, PutNext) = (i, PutNext) # replicate 5 (i, PutNext)"
    "replicate 5 (i, PutNext) = (i, PutNext) # (i, PutNext) # replicate 3 (i, PutNext)" by (simp_all add: numeral_eq_Suc)
  have a: "a\<lparr>shared := s\<rparr> = a" "a\<lparr>putting := None\<rparr> = a" "a\<lparr>shared := s, putting := None\<rparr> = a"
    using assms s by (simp_all add: store_tasks.equality)
  have "a\<lparr>shared := s, putting := x\<rparr> = a\<lparr>putting := x\<rparr>" for x using s by (simp add: store_tasks.equality)
  note simps = task_put_idle [OF assms] put_from_write [OF assms, where s = s, unfolded this] store_put_def s a assms Let_def
  consider "\<not> is_valid_hash (norm hash)" | "is_valid_hash (norm hash)" "norm hash \<in> denied s"
    | (free) "is_valid_hash (norm hash)" "norm hash \<notin> denied s" "max_bytes s = 0"
    | (budget) "is_valid_hash (norm hash)" "norm hash \<notin> denied s" "0 < max_bytes s"
    by (metis word_gt_0)
  then show ?thesis
  proof cases
    case free
    then show ?thesis by (simp add: steps(1) simps split: prod.split bool.split)
  next
    case budget
    then show ?thesis
      by (cases "(case index s (norm hash) of Some n \<Rightarrow> n | None \<Rightarrow> 0) = 0 \<and> max_bytes s < sat_add (tot s) (len64 b)")
        (auto simp: steps simps split: prod.split bool.split)
  qed (simp_all add: steps(1) simps)
qed

lemma drop_nth_last [simp]: "drop_nth (length xs) (xs @ [x]) = xs"
  by (simp add: drop_nth_def)

lemma deny_alone:
  "task_run a ((i, DenyCall hash) # replicate 3 (i, DenyNext (length (denying a)))) =
    (a\<lparr>shared := snd (store_deny i (shared a) hash)\<rparr>, [DenyReturns (norm hash) (fst (store_deny i (shared a) hash))])"
proof (cases "is_valid_hash (norm hash)")
  case False
  then show ?thesis by (simp add: numeral_eq_Suc store_deny_def)
next
  case True
  then have n: "norm (norm hash) = norm hash" by (simp add: norm_norm_valid)
  obtain w d where w: "write_denylist i (insert (norm hash) (denied (shared a))) (files (shared a)) = (w, d)"
    by fastforce
  show ?thesis
    using True w
    by (cases "norm hash \<in> denied (shared a)"; cases w; cases "index (shared a) (norm hash)")
      (simp_all add: numeral_eq_Suc store_deny_def store_purge_def n Let_def)
qed

lemma read_alone:
  "task_run a [(i, ReadCall hash), (j, ReadNext (length (reading a)) ok)] =
    (a, [ReadReturns (norm hash) (store_get ok (shared a) hash)])"
  by (simp add: store_get_def Let_def)

end
