(* ===== verification/Store_Cut.thy ===== *)
theory Store_Cut
  imports Store_Tasks
begin

text \<open>
  A handler that is dropped inside \<open>write_denylist\<close> (src/store.rs): its client closed the connection while it waited for
  the write or for the rename. The set in memory has changed, and neither the error path's rollback nor the rest of
  the operation runs; the file call it was waiting for has any outcome.
\<close>

section \<open>The cut\<close>

text \<open>Where a handler is dropped inside \<open>write_denylist\<close>: while it waits for the write, or for the rename.\<close>

datatype cut = InWrite write_outcome | InRename bool

definition cut_denylist :: "cut \<Rightarrow> io \<Rightarrow> string set \<Rightarrow> disk \<Rightarrow> disk" where
  "cut_denylist c i S d =
     (let body = str_bytes (denylist_body (set_order i S)); tmp = ''denylist.txt.tmp''
      in case c of
           InWrite w \<Rightarrow> snd (fs_write w tmp body d)
         | InRename ok \<Rightarrow> snd (fs_rename ok tmp denylist_path (d(tmp \<mapsto> body))))"

definition deny_cut :: "cut \<Rightarrow> io \<Rightarrow> store \<Rightarrow> string \<Rightarrow> store" where
  "deny_cut c i s hash =
     (let h = norm hash
      in if \<not> is_valid_hash h \<or> h \<in> denied s then s
         else s\<lparr>files := cut_denylist c i (insert h (denied s)) (files s), denied := insert h (denied s)\<rparr>)"

definition allow_cut :: "cut \<Rightarrow> io \<Rightarrow> store \<Rightarrow> string \<Rightarrow> store" where
  "allow_cut c i s hash =
     (let h = norm hash
      in if h \<in> denied s
         then s\<lparr>files := cut_denylist c i (denied s - {h}) (files s), denied := denied s - {h}\<rparr> else s)"

lemma cut_denylist_blob [simp]: "cut_denylist c i S d (blob_path h) = d (blob_path h)"
  by (auto simp: cut_denylist_def fs_write_def fs_rename_def Let_def split: cut.split write_outcome.split option.split)

lemma cut_denylist_other: "f \<noteq> denylist_path \<Longrightarrow> f \<noteq> ''denylist.txt.tmp'' \<Longrightarrow> cut_denylist c i S d f = d f"
  by (auto simp: cut_denylist_def fs_write_def fs_rename_def Let_def split: cut.split write_outcome.split option.split)

text \<open>A cut changes the set in memory at its hash, and files of the denylist only.\<close>

lemma cut_fields [simp]:
  "index (deny_cut c i s hash) = index s" "tot (deny_cut c i s hash) = tot s" "max_bytes (deny_cut c i s hash) = max_bytes s"
  "index (allow_cut c i s hash) = index s" "tot (allow_cut c i s hash) = tot s" "max_bytes (allow_cut c i s hash) = max_bytes s"
  "files (deny_cut c i s hash) (blob_path h) = files s (blob_path h)" "files (allow_cut c i s hash) (blob_path h) = files s (blob_path h)"
  by (simp_all add: deny_cut_def allow_cut_def Let_def)

lemma cut_denied:
  "denied (deny_cut c i s hash) = (if is_valid_hash (norm hash) then insert (norm hash) (denied s) else denied s)"
  "denied (allow_cut c i s hash) = denied s - {norm hash}"
  by (auto simp: deny_cut_def allow_cut_def Let_def)

lemma cut_other:
  "f \<noteq> denylist_path \<Longrightarrow> f \<noteq> ''denylist.txt.tmp'' \<Longrightarrow> files (deny_cut c i s hash) f = files s f"
  "f \<noteq> denylist_path \<Longrightarrow> f \<noteq> ''denylist.txt.tmp'' \<Longrightarrow> files (allow_cut c i s hash) f = files s f"
  by (simp_all add: deny_cut_def allow_cut_def cut_denylist_other Let_def)

lemma cut_write_denylist: "load_denylist ok (cut_denylist (InWrite w) i S d) = load_denylist ok d"
  by (rule load_denylist_cong)
    (auto simp: cut_denylist_def fs_write_def Let_def split: write_outcome.split option.split)

text \<open>Whatever the cut, the file holds the old list or the new one.\<close>

lemma cut_denylist_old_or_new:
  assumes "order_ok i" and "finite S" and "\<forall>h \<in> S. lower_hex64 h"
  shows "load_denylist True (cut_denylist c i S d) \<in> {load_denylist True d, S}"
proof (cases "\<exists>w. c = InWrite w \<or> c = InRename False")
  case True
  then show ?thesis
    using cut_write_denylist [of True _ i S d] load_denylist_cong [of "cut_denylist c i S d" d True]
    by (auto simp: cut_denylist_def fs_rename_def Let_def)
next
  case False
  then have "c = InRename True" by (cases c) auto
  then have "cut_denylist c i S d = replaced ''denylist.txt.tmp'' denylist_path (str_bytes (denylist_body (set_order i S))) d"
    by (simp add: cut_denylist_def fs_rename_written Let_def)
  with load_written_denylist [OF assms] show ?thesis by simp
qed

end
