(* ===== verification/Store_Tasks_Inv.thy ===== *)
theory Store_Tasks_Inv
  imports Store_Cut
begin

text \<open>
  What every interleaving of store tasks keeps: the denylist file agrees with the set in memory, except at hashes whose
  change was cut off inside \<open>write_denylist\<close>; no two denylist changes lose each other; every blob on the disk hashes to its name, the cached total is exact and
  within the budget; and a takedown that returned while no put of its hash was past the check stays down.
\<close>

section \<open>What a counter knows\<close>

fun put_item :: "put_pc \<Rightarrow> string \<times> bytes" where
  "put_item (PutCheck h b) = (h, b)"
| "put_item (PutTotal h b) = (h, b)"
| "put_item (PutHeld h b cur) = (h, b)"
| "put_item (PutWrite h b) = (h, b)"
| "put_item (PutRename h b) = (h, b)"
| "put_item (PutCommit h b) = (h, b)"

text \<open>A put that is past the denylist check.\<close>

fun past_check :: "put_pc \<Rightarrow> string \<Rightarrow> bool" where
  "past_check (PutCheck h b) k = False"
| "past_check pc k = (fst (put_item pc) = k)"

definition late_put :: "store_tasks \<Rightarrow> string \<Rightarrow> bool" where
  "late_put a h \<longleftrightarrow> (case putting a of Some pc \<Rightarrow> past_check pc h | None \<Rightarrow> False)"

section \<open>Keys, denylist and disk\<close>

text \<open>The denylist file agrees with the set in memory, except on \<open>X\<close>.\<close>

definition settled :: "string set \<Rightarrow> store \<Rightarrow> bool" where
  "settled X s \<longleftrightarrow> load_denylist True (files s) - X = denied s - X"

lemma settled_empty: "settled {} s \<longleftrightarrow> persisted s"
  by (simp add: settled_def persisted_def)

definition keys_persisted :: "string set \<Rightarrow> store \<Rightarrow> bool" where
  "keys_persisted X s \<longleftrightarrow> keys_ok s \<and> settled X s"

lemma keys_persisted_empty: "keys_persisted {} s \<longleftrightarrow> keys_ok s \<and> persisted s"
  by (simp add: keys_persisted_def settled_empty)

definition disk_certified :: "crypto \<Rightarrow> disk \<Rightarrow> bool" where
  "disk_certified c d \<longleftrightarrow> (\<forall>h b. lower_hex64 h \<longrightarrow> d (blob_path h) = Some b \<longrightarrow> sha256_hex c b = h)"

fun tmp_written :: "disk \<Rightarrow> put_pc \<Rightarrow> bool" where
  "tmp_written d (PutRename h b) = (d (tmp_path h) = Some b)"
| "tmp_written d pc = True"

definition pcs_ok :: "crypto \<Rightarrow> store_tasks \<Rightarrow> bool" where
  "pcs_ok c a \<longleftrightarrow>
     (case putting a of
        Some pc \<Rightarrow> lower_hex64 (fst (put_item pc)) \<and> sha256_hex c (snd (put_item pc)) = fst (put_item pc) \<and>
          tmp_written (files (shared a)) pc
      | None \<Rightarrow> True) \<and>
     list_all (\<lambda>pc. lower_hex64 (deny_hash pc)) (denying a) \<and> list_all lower_hex64 (reading a)"

definition tasks_ok :: "string set \<Rightarrow> crypto \<Rightarrow> store_tasks \<Rightarrow> bool" where
  "tasks_ok X c a \<longleftrightarrow> keys_persisted X (shared a) \<and> disk_certified c (files (shared a)) \<and> pcs_ok c a"

fun task_legal :: "crypto \<Rightarrow> io \<times> task_event \<Rightarrow> bool" where
  "task_legal c (i, PutCall hash b) = (order_ok i \<and> sha256_hex c b = norm hash)"
| "task_legal c (i, ev) = order_ok i"

lemma task_legal_order: "task_legal c (i, ev) \<Longrightarrow> order_ok i"
  by (cases ev) simp_all

lemma keys_persisted_files:
  "keys_persisted X s \<Longrightarrow> d denylist_path = files s denylist_path \<Longrightarrow> keys_persisted X (s\<lparr>files := d\<rparr>)"
  using load_denylist_cong [of d "files s"] by (simp add: keys_persisted_def keys_ok_def settled_def)

lemma keys_persisted_index:
  "keys_persisted X s \<Longrightarrow> dom m \<subseteq> insert h (dom (index s)) \<Longrightarrow> is_valid_hash h
    \<Longrightarrow> keys_persisted X (s\<lparr>index := m, tot := t\<rparr>)"
  by (auto simp: keys_persisted_def keys_ok_def settled_def intro: finite_subset)

lemma keys_persisted_written:
  assumes "keys_persisted X s" and "order_ok i" and "finite S" and "\<forall>h \<in> S. lower_hex64 h"
    and "write_denylist i S (files s) = (Inr u, d)"
  shows "keys_persisted X (s\<lparr>files := d, denied := S\<rparr>)"
  using assms(1,3,4) write_denylist_cases [OF assms(5)] load_written_denylist [OF assms(2-4)]
  by (simp add: keys_persisted_def keys_ok_def settled_def)

lemma disk_certified_cong:
  "disk_certified c d \<Longrightarrow> (\<And>h. d' (blob_path h) = d (blob_path h) \<or> d' (blob_path h) = None) \<Longrightarrow> disk_certified c d'"
  unfolding disk_certified_def by (metis option.distinct(1))

lemma disk_certified_upd [simp]:
  "disk_certified c d \<Longrightarrow> disk_certified c (d(tmp_path h := x))"
  "disk_certified c d \<Longrightarrow> disk_certified c (d(blob_path h := None))"
  "disk_certified c d \<Longrightarrow> sha256_hex c b = h \<Longrightarrow> disk_certified c (d(blob_path h \<mapsto> b))"
  by (auto simp: disk_certified_def)

lemma disk_certified_remove [simp]: "disk_certified c d \<Longrightarrow> disk_certified c (fs_remove ok (blob_path h) d)"
  by (simp add: fs_remove_def)

lemma keys_persisted_upd [simp]:
  "keys_persisted X s \<Longrightarrow> keys_persisted X (s\<lparr>files := (files s)(tmp_path h := x)\<rparr>)"
  "keys_persisted X s \<Longrightarrow> keys_persisted X (s\<lparr>files := (files s)(blob_path h := x)\<rparr>)"
  by (simp_all add: keys_persisted_files)

lemma write_denylist_other:
  assumes "write_denylist i S d = (r, d')" and "f \<noteq> denylist_path" and "f \<noteq> ''denylist.txt.tmp''"
  shows "d' f = d f"
  using write_denylist_cases [OF assms(1)] assms(2,3) by auto

text \<open>The temporary files of blobs and of the denylist differ.\<close>

lemma tmp_path_denylist_tmp [simp]: "lower_hex64 h \<Longrightarrow> tmp_path h \<noteq> ''denylist.txt.tmp''"
proof
  assume h: "lower_hex64 h" "tmp_path h = ''denylist.txt.tmp''"
  then have "length (tmp_path h) = length ''denylist.txt.tmp''" by simp
  with h(1) show False by (simp add: tmp_path_def lower_hex64_def)
qed

section \<open>Steps\<close>

lemma put_step_ok:
  assumes s: "keys_persisted X s" "disk_certified c (files s)"
    and pc: "lower_hex64 (fst (put_item pc))" "sha256_hex c (snd (put_item pc)) = fst (put_item pc)"
      "tmp_written (files s) pc"
    and step: "put_step i s pc = (r, s')"
  shows "keys_persisted X s' \<and> disk_certified c (files s') \<and> denied s' = denied s \<and>
    (\<forall>pc'. r = Inl pc' \<longrightarrow> put_item pc' = put_item pc \<and> tmp_written (files s') pc')"
proof (cases pc)
  case (PutWrite h b)
  with s step show ?thesis
    by (auto simp: fs_write_def split: write_outcome.splits option.splits)
next
  case (PutRename h b)
  have "keys_persisted X (s\<lparr>files := (files s)(tmp_path h := None, blob_path h \<mapsto> b)\<rparr>)"
    using s(1) by (intro keys_persisted_files) simp_all
  with PutRename s pc step show ?thesis
    by (auto simp: fs_rename_def split: if_splits)
next
  case (PutCommit h b)
  then obtain t where s': "s' = s\<lparr>index := (index s)(h \<mapsto> len64 b), tot := t\<rparr>" "r = Inr (Inr ())"
    using step by (auto simp: Let_def)
  moreover have "keys_persisted X (s\<lparr>index := (index s)(h \<mapsto> len64 b), tot := t\<rparr>)"
    using s(1) pc(1) PutCommit by (intro keys_persisted_index [where h = h]) (auto simp: lower_hex64_valid)
  ultimately show ?thesis using s(2) by simp
qed (use s step in \<open>auto simp: Let_def split: if_splits\<close>)

lemma deny_step_ok:
  assumes s: "keys_persisted X s" "disk_certified c (files s)" and "order_ok i" and pc: "lower_hex64 (deny_hash pc)"
    and step: "deny_step i s pc = (r, s')"
  shows "keys_persisted X s' \<and> disk_certified c (files s') \<and> denied s \<subseteq> denied s' \<and>
    (\<forall>h. lower_hex64 h \<longrightarrow> files s' (tmp_path h) = files s (tmp_path h)) \<and>
    (\<forall>pc'. r = Inl pc' \<longrightarrow> deny_hash pc' = deny_hash pc)"
proof (cases "(i, s, pc)" rule: deny_step.cases)
  case (1 i' s0 h)
  show ?thesis
  proof (cases "h \<in> denied s")
    case True
    with 1 assms show ?thesis by auto
  next
    case False
    obtain w d where w: "write_denylist i (insert h (denied s)) (files s) = (w, d)" by fastforce
    have same: "d (blob_path k) = files s (blob_path k)" for k
      using write_denylist_other [OF w] by simp
    have tmp: "lower_hex64 k \<Longrightarrow> d (tmp_path k) = files s (tmp_path k)" for k
      using write_denylist_other [OF w] by simp
    have S: "finite (insert h (denied s))" "\<forall>k \<in> insert h (denied s). lower_hex64 k" "insert h (denied s) - {h} = denied s"
      using s pc 1 False by (auto simp: keys_persisted_def keys_ok_def)
    show ?thesis
    proof (cases w)
      case (Inl e)
      then have "d denylist_path = files s denylist_path" using write_denylist_cases [OF w] by auto
      then have "keys_persisted X (s\<lparr>files := d\<rparr>)" using s(1) by (intro keys_persisted_files)
      with Inl 1 step w S(3) False s(2) same tmp show ?thesis
        by (auto intro: disk_certified_cong)
    next
      case (Inr u)
      then have "keys_persisted X (s\<lparr>files := d, denied := insert h (denied s)\<rparr>)"
        using s(1) assms(3) S w by (intro keys_persisted_written) auto
      with Inr 1 step w False s(2) same tmp show ?thesis
        by (auto intro: disk_certified_cong)
    qed
  qed
next
  case (2 i' s0 h)
  with assms show ?thesis by (auto simp: keys_persisted_files)
next
  case (3 i' s0 h)
  then have "dom ((index s)(h := None)) \<subseteq> insert h (dom (index s))" "is_valid_hash h"
    using pc by (auto simp: lower_hex64_valid)
  with 3 assms keys_persisted_index [OF s(1)] show ?thesis by (auto split: option.splits)
qed

text \<open>A deny or an allow leaves what a put has written in its temporary file.\<close>

lemma pcs_ok_deny:
  assumes "pcs_ok c a" and "\<forall>h. lower_hex64 h \<longrightarrow> files s' (tmp_path h) = files (shared a) (tmp_path h)"
    and "list_all (\<lambda>pc. lower_hex64 (deny_hash pc)) ds"
  shows "pcs_ok c (a\<lparr>shared := s', denying := ds\<rparr>)"
proof (cases "putting a")
  case (Some pc)
  with assms show ?thesis by (cases pc) (auto simp: pcs_ok_def)
qed (use assms in \<open>simp add: pcs_ok_def\<close>)

lemma allow_ok:
  assumes "keys_persisted X s" and "disk_certified c (files s)" and "order_ok i" and "store_allow i s hash = (r, s')"
  shows "keys_persisted X s' \<and> disk_certified c (files s') \<and> denied s - {norm hash} \<subseteq> denied s' \<and>
    (\<forall>h. lower_hex64 h \<longrightarrow> files s' (tmp_path h) = files s (tmp_path h))"
  using assms(4)
proof (cases rule: store_allow_cases)
  case (io_error e d)
  then have "d (blob_path k) = files s (blob_path k)" "d denylist_path = files s denylist_path" for k by simp_all
  with io_error assms(1,2) show ?thesis by (auto simp: keys_persisted_files intro: disk_certified_cong)
next
  case (lifted d)
  have "finite (denied s - {norm hash})" "\<forall>k \<in> denied s - {norm hash}. lower_hex64 k"
    using assms(1) by (auto simp: keys_persisted_def keys_ok_def)
  then have "load_denylist True d = denied s - {norm hash}"
    using load_written_denylist [OF assms(3)] lifted(3) by simp
  then have "keys_persisted X s'"
    using assms(1) lifted(4) by (auto simp: keys_persisted_def keys_ok_def settled_def)
  moreover have "d (blob_path k) = files s (blob_path k)" for k by (simp add: lifted(3))
  ultimately show ?thesis using assms(2) lifted by (auto intro: disk_certified_cong)
qed (use assms in simp)

text \<open>A cut leaves the old list or the new one in the file, and so unsettles its own hash at most.\<close>

lemma cut_settled:
  assumes "keys_persisted X s" and "order_ok i" and "finite S" and "\<forall>h \<in> S. lower_hex64 h" and "S - X = denied s - X"
  shows "keys_persisted X (s\<lparr>files := cut_denylist cu i S (files s), denied := S\<rparr>)"
  using assms(1,3-5) cut_denylist_old_or_new [OF assms(2-4), of cu "files s"]
  by (auto simp: keys_persisted_def keys_ok_def settled_def)

lemma deny_cut_ok:
  assumes "keys_persisted X s" and "disk_certified c (files s)" and "order_ok i" and "norm hash \<in> X"
  shows "keys_persisted X (deny_cut cu i s hash) \<and> disk_certified c (files (deny_cut cu i s hash))"
proof -
  have "disk_certified c (files (deny_cut cu i s hash))" using assms(2) by (rule disk_certified_cong) simp
  moreover have "keys_persisted X (deny_cut cu i s hash)"
  proof (cases "is_valid_hash (norm hash) \<and> norm hash \<notin> denied s")
    case True
    then have "keys_persisted X (s\<lparr>files := cut_denylist cu i (insert (norm hash) (denied s)) (files s), denied := insert (norm hash) (denied s)\<rparr>)"
      using assms(1,3,4) by (intro cut_settled) (auto simp: keys_persisted_def keys_ok_def norm_valid_lower_hex64)
    with True show ?thesis by (simp add: deny_cut_def Let_def)
  next
    case False
    with assms(1) show ?thesis by (auto simp: deny_cut_def Let_def)
  qed
  ultimately show ?thesis by blast
qed

lemma allow_cut_ok:
  assumes "keys_persisted X s" and "disk_certified c (files s)" and "order_ok i" and "norm hash \<in> X"
  shows "keys_persisted X (allow_cut cu i s hash) \<and> disk_certified c (files (allow_cut cu i s hash))"
proof -
  have "disk_certified c (files (allow_cut cu i s hash))" using assms(2) by (rule disk_certified_cong) simp
  moreover have "keys_persisted X (s\<lparr>files := cut_denylist cu i (denied s - {norm hash}) (files s), denied := denied s - {norm hash}\<rparr>)"
    using assms(1,3,4) by (intro cut_settled) (auto simp: keys_persisted_def keys_ok_def)
  then have "keys_persisted X (allow_cut cu i s hash)" using assms(1) by (simp add: allow_cut_def Let_def)
  ultimately show ?thesis by blast
qed

lemma cut_tasks_ok:
  assumes "tasks_ok X c a" and "order_ok i" and "norm hash \<in> X"
  shows "tasks_ok X c (a\<lparr>shared := deny_cut cu i (shared a) hash\<rparr>)" and "tasks_ok X c (a\<lparr>shared := allow_cut cu i (shared a) hash\<rparr>)"
proof -
  note ok = assms(1) [unfolded tasks_ok_def]
  have ds: "list_all (\<lambda>pc. lower_hex64 (deny_hash pc)) (denying a)" using ok by (simp add: pcs_ok_def)
  have same: "pcs_ok c (a\<lparr>shared := s\<rparr>)" if "\<And>h. lower_hex64 h \<Longrightarrow> files s (tmp_path h) = files (shared a) (tmp_path h)" for s
    using pcs_ok_deny [of c a s "denying a"] ok ds that by simp
  show "tasks_ok X c (a\<lparr>shared := deny_cut cu i (shared a) hash\<rparr>)"
    using ok deny_cut_ok [of X "shared a" c i hash cu] assms(2,3)
    by (simp add: tasks_ok_def same cut_other)
  show "tasks_ok X c (a\<lparr>shared := allow_cut cu i (shared a) hash\<rparr>)"
    using ok allow_cut_ok [of X "shared a" c i hash cu] assms(2,3)
    by (simp add: tasks_ok_def same cut_other)
qed

lemma list_all_drop_nth: "list_all P xs \<Longrightarrow> list_all P (drop_nth k xs)"
  using set_drop_nth [of k xs] by (auto simp: list_all_iff)

lemma task_step_ok:
  assumes "tasks_ok X c a" and "task_legal c e"
  shows "tasks_ok X c (fst (task_step a e))"
proof -
  note ok = assms(1) [unfolded tasks_ok_def]
  obtain i ev where e: "e = (i, ev)" by fastforce
  have io: "order_ok i" using assms(2) task_legal_order by (simp add: e)
  show ?thesis
  proof (cases ev)
    case (PutCall hash b)
    with assms e show ?thesis
      by (auto simp: tasks_ok_def pcs_ok_def Let_def norm_valid_lower_hex64 split: option.split)
  next
    case PutNext
    show ?thesis
    proof (cases "putting a")
      case None
      with assms e PutNext show ?thesis by simp
    next
      case (Some pc)
      obtain r s' where p: "put_step i (shared a) pc = (r, s')" by fastforce
      have "lower_hex64 (fst (put_item pc))" "sha256_hex c (snd (put_item pc)) = fst (put_item pc)"
        "tmp_written (files (shared a)) pc"
        using ok Some by (simp_all add: pcs_ok_def)
      from put_step_ok [OF _ _ this p] ok e PutNext Some p show ?thesis
        by (cases r) (auto simp: tasks_ok_def pcs_ok_def)
    qed
  next
    case (DenyCall hash)
    with ok e show ?thesis
      by (cases "putting a") (simp_all add: tasks_ok_def pcs_ok_def Let_def norm_valid_lower_hex64)
  next
    case (DenyNext k)
    show ?thesis
    proof (cases "k < length (denying a)")
      case False
      with assms e DenyNext show ?thesis by simp
    next
      case True
      let ?pc = "denying a ! k"
      obtain r s' where p: "deny_step i (shared a) ?pc = (r, s')" by fastforce
      have ds: "list_all (\<lambda>pc. lower_hex64 (deny_hash pc)) (denying a)" using ok by (simp add: pcs_ok_def)
      with True have pc: "lower_hex64 (deny_hash ?pc)" by (simp add: list_all_length)
      note step = deny_step_ok [where c = c and X = X, OF _ _ io pc p]
      have facts: "keys_persisted X s'" "disk_certified c (files s')"
        "\<forall>h. lower_hex64 h \<longrightarrow> files s' (tmp_path h) = files (shared a) (tmp_path h)"
        using step ok by simp_all
      show ?thesis
      proof (cases r)
        case (Inl pc')
        with step ok have "deny_hash pc' = deny_hash ?pc" by simp
        with ds pc True have "list_all (\<lambda>pc. lower_hex64 (deny_hash pc)) ((denying a)[k := pc'])"
          by (auto simp: list_all_length nth_list_update)
        then have "pcs_ok c (a\<lparr>shared := s', denying := (denying a)[k := pc']\<rparr>)"
          using ok facts(3) by (intro pcs_ok_deny) simp_all
        with Inl facts True e DenyNext p show ?thesis by (simp add: tasks_ok_def)
      next
        case (Inr x)
        have "pcs_ok c (a\<lparr>shared := s', denying := drop_nth k (denying a)\<rparr>)"
          using ok facts(3) list_all_drop_nth [OF ds] by (intro pcs_ok_deny) simp_all
        with Inr facts True e DenyNext p show ?thesis by (simp add: tasks_ok_def)
      qed
    qed
  next
    case (AllowCall hash)
    obtain r s' where p: "store_allow i (shared a) hash = (r, s')" by fastforce
    note step = allow_ok [where c = c and X = X, OF _ _ io p]
    have "list_all (\<lambda>pc. lower_hex64 (deny_hash pc)) (denying a)" using ok by (simp add: pcs_ok_def)
    then have "pcs_ok c (a\<lparr>shared := s', denying := denying a\<rparr>)"
      using ok step by (intro pcs_ok_deny) simp_all
    with ok step e AllowCall p show ?thesis by (simp add: tasks_ok_def)
  next
    case (ReadCall hash)
    with ok e show ?thesis
      by (cases "putting a") (simp_all add: tasks_ok_def pcs_ok_def Let_def norm_valid_lower_hex64)
  next
    case (ReadNext k r)
    with ok e list_all_drop_nth [of lower_hex64 "reading a" k] show ?thesis
      by (cases "putting a") (simp_all add: tasks_ok_def pcs_ok_def)
  qed
qed

interpretation tasks_run: machine "\<lambda>a e. fst (task_step a e)" "task_legal c" "tasks_ok X c" for X :: "string set" and c :: crypto
  by unfold_locales (rule task_step_ok)

text \<open>What a read returns, at every moment of every interleaving, hashes to what was asked.\<close>

lemma read_returns:
  assumes "tasks_ok X c a" and "ReadReturns h (Some b) \<in> set (snd (task_step a e))"
  shows "sha256_hex c b = h"
proof -
  obtain i ev where e: "e = (i, ev)" by fastforce
  from assms(2) obtain k ok where k: "ev = ReadNext k ok" "k < length (reading a)" "h = reading a ! k"
      "fs_read ok (blob_path h) (files (shared a)) = Some b"
    by (cases ev) (auto simp: e Let_def split: option.splits prod.splits sum.splits if_splits)
  then have "lower_hex64 h" using assms(1) by (simp add: tasks_ok_def pcs_ok_def list_all_length)
  with k(4) assms(1) show ?thesis
    by (simp add: tasks_ok_def disk_certified_def fs_read_def split: if_splits)
qed

lemma run_reads_certified:
  assumes "tasks_ok X c a" and "list_all (task_legal c) es" and "ReadReturns h (Some b) \<in> set (snd (task_run a es))"
  shows "sha256_hex c b = h"
  using assms
proof (induction es arbitrary: a)
  case (Cons e es)
  obtain a1 o1 where s: "task_step a e = (a1, o1)" by fastforce
  have "tasks_ok X c a1" using task_step_ok [of X c a e] Cons.prems s by simp
  with Cons read_returns [of X c a h b e] s show ?case by (auto split: prod.splits)
qed simp

section \<open>Takedowns\<close>

text \<open>
  A sealed hash: denied, not in the index, and no put of it past the denylist check. Only an allow breaks the
  seal.
\<close>

definition sealed :: "string \<Rightarrow> store_tasks \<Rightarrow> bool" where
  "sealed h a \<longleftrightarrow> h \<in> denied (shared a) \<and> h \<notin> dom (index (shared a)) \<and> \<not> late_put a h"

fun allows :: "string \<Rightarrow> io \<times> task_event \<Rightarrow> bool" where
  "allows h (i, AllowCall hash) = (norm hash = h)"
| "allows h (i, ev) = False"

lemma put_step_sealed:
  assumes "h \<in> denied s" and "h \<notin> dom (index s)" and "\<not> past_check pc h" and "put_step i s pc = (r, s')"
  shows "h \<in> denied s' \<and> h \<notin> dom (index s') \<and> (\<forall>pc'. r = Inl pc' \<longrightarrow> \<not> past_check pc' h)"
  using assms
  by (cases pc)
    (auto simp: Let_def fs_write_def split: if_splits write_outcome.splits option.splits prod.splits bool.splits)

lemma deny_step_sealed:
  assumes "h \<in> denied s" and "h \<notin> dom (index s)" and "deny_step i s pc = (r, s')"
  shows "h \<in> denied s' \<and> h \<notin> dom (index s')"
  using assms by (cases pc) (auto simp: Let_def split: if_splits option.splits prod.splits sum.splits)

lemma sealed_step:
  assumes "sealed h a" and "\<not> allows h e"
  shows "sealed h (fst (task_step a e))"
proof -
  note seal = assms(1) [unfolded sealed_def late_put_def]
  obtain i ev where e: "e = (i, ev)" by fastforce
  show ?thesis
  proof (cases ev)
    case (PutCall hash b)
    with seal e show ?thesis by (auto simp: sealed_def late_put_def Let_def split: option.split)
  next
    case PutNext
    show ?thesis
    proof (cases "putting a")
      case None
      with assms(1) e PutNext show ?thesis by simp
    next
      case (Some pc)
      obtain r s' where p: "put_step i (shared a) pc = (r, s')" by fastforce
      have "\<not> past_check pc h" using seal Some by simp
      with put_step_sealed [OF _ _ this p] seal e PutNext Some p show ?thesis
        by (cases r) (auto simp: sealed_def late_put_def)
    qed
  next
    case (DenyNext k)
    obtain r s' where p: "deny_step i (shared a) (denying a ! k) = (r, s')" by fastforce
    with deny_step_sealed [OF _ _ p] seal e DenyNext show ?thesis
      by (cases r) (auto simp: sealed_def late_put_def)
  next
    case (AllowCall hash)
    obtain r s' where p: "store_allow i (shared a) hash = (r, s')" by fastforce
    then have "h \<in> denied s' \<and> h \<notin> dom (index s')"
    proof (cases rule: store_allow_cases)
    qed (use seal assms(2) e AllowCall in auto)
    with seal e AllowCall p show ?thesis by (simp add: sealed_def late_put_def)
  qed (use seal e in \<open>auto simp: sealed_def late_put_def Let_def\<close>)
qed

interpretation seal_run: machine "\<lambda>a e. fst (task_step a e)" "\<lambda>e. \<not> allows h e" "sealed h" for h :: string
  by unfold_locales (rule sealed_step)

text \<open>A deny that returns success leaves a sealed hash, unless a put of it is past the check.\<close>

lemma deny_returns_sealed:
  assumes "task_step a (i, DenyNext k) = (a', [DenyReturns h (Inr p)])"
    and "h \<in> denied (shared a)" and "\<not> late_put a h"
  shows "sealed h a'"
proof -
  have k: "k < length (denying a)" using assms(1) by (auto split: if_splits)
  obtain r s' where d: "deny_step i (shared a) (denying a ! k) = (r, s')" by fastforce
  with assms(1) k have r: "r = Inr (Inr p)" and h: "deny_hash (denying a ! k) = h"
    and a': "a' = a\<lparr>shared := s', denying := drop_nth k (denying a)\<rparr>"
    by (auto split: sum.splits)
  from d r h have "denying a ! k = PurgeIndex h"
    by (cases "denying a ! k") (auto simp: Let_def split: if_splits prod.splits sum.splits)
  with d have "denied s' = denied (shared a)" "h \<notin> dom (index s')" by (auto split: option.splits)
  with assms(2,3) show ?thesis by (simp add: a' sealed_def late_put_def)
qed

text \<open>At the start, when no task is under way.\<close>

lemma idle_ok:
  assumes "store_ok s" and "disk_certified c (files s)"
  shows "tasks_ok X c (idle s)"
  using assms by (simp add: tasks_ok_def idle_def keys_persisted_def settled_def persisted_def store_ok_def pcs_ok_def)

end
