(* ===== verification/Store_Tasks_Budget.thy ===== *)
theory Store_Tasks_Budget
  imports Store_Tasks_Inv
begin

text \<open>
  The byte budget under concurrency: a put reads the total, the index and then writes, each at a different
  moment, while denies purge blobs in between. Since one put is in flight at a time, the total can only have
  shrunk when the put commits, so the budget still bounds it.
\<close>

definition indexed_in :: "crypto \<Rightarrow> bytes set \<Rightarrow> store \<Rightarrow> bool" where
  "indexed_in c B s \<longleftrightarrow> (\<forall>h n. index s h = Some n \<longrightarrow> (\<exists>b \<in> B. sha256_hex c b = h \<and> n = len64 b))"

definition sums_ok :: "crypto \<Rightarrow> bytes set \<Rightarrow> u64 \<Rightarrow> store \<Rightarrow> bool" where
  "sums_ok c B m s \<longleftrightarrow> finite (dom (index s)) \<and> indexed_in c B s \<and> acct_ok s \<and> max_bytes s = m \<and> tot s \<le> m"

definition fits :: "u64 \<Rightarrow> store \<Rightarrow> string \<Rightarrow> bytes \<Rightarrow> bool" where
  "fits m s h b \<longleftrightarrow> unat (tot s) - unat (held_len s h) + length b \<le> unat m"

text \<open>What a put knows at each of its counters: the total it read is not below the current one; it fits.\<close>

fun pc_fits :: "u64 \<Rightarrow> store \<Rightarrow> put_pc \<Rightarrow> bool" where
  "pc_fits m s (PutHeld h b cur) = (tot s \<le> cur)"
| "pc_fits m s (PutWrite h b) = fits m s h b"
| "pc_fits m s (PutRename h b) = fits m s h b"
| "pc_fits m s (PutCommit h b) = fits m s h b"
| "pc_fits m s pc = True"

definition put_budgeted :: "crypto \<Rightarrow> bytes set \<Rightarrow> u64 \<Rightarrow> store_tasks \<Rightarrow> bool" where
  "put_budgeted c B m a \<longleftrightarrow>
     (case putting a of
        Some pc \<Rightarrow> snd (put_item pc) \<in> B \<and> sha256_hex c (snd (put_item pc)) = fst (put_item pc) \<and> pc_fits m (shared a) pc
      | None \<Rightarrow> True)"

definition tasks_budgeted :: "crypto \<Rightarrow> bytes set \<Rightarrow> u64 \<Rightarrow> store_tasks \<Rightarrow> bool" where
  "tasks_budgeted c B m a \<longleftrightarrow> sums_ok c B m (shared a) \<and> put_budgeted c B m a"

fun put_from :: "crypto \<Rightarrow> bytes set \<Rightarrow> io \<times> task_event \<Rightarrow> bool" where
  "put_from c B (i, PutCall hash b) = (b \<in> B \<and> sha256_hex c b = norm hash)"
| "put_from c B (i, ev) = True"

lemma fits_purge:
  assumes "index s k = Some n" and "acct_ok s" and "finite (dom (index s))"
  shows "fits m s h b \<Longrightarrow> fits m (s\<lparr>index := (index s)(k := None), tot := sat_sub (tot s) n\<rparr>) h b"
  using assms by (cases "h = k") (auto simp: fits_def held_len_def unat_sat_sub)

lemma sat_sub_le_trans: "t \<le> cur \<Longrightarrow> sat_sub t n \<le> cur"
  using sat_sub_le order_trans by blast

lemma pc_fits_purge:
  assumes "index s k = Some n" and "acct_ok s" and "finite (dom (index s))"
  shows "pc_fits m s pc \<Longrightarrow> pc_fits m (s\<lparr>index := (index s)(k := None), tot := sat_sub (tot s) n\<rparr>) pc"
  using fits_purge [OF assms] by (cases pc) (auto simp: sat_sub_le_trans)

lemma fits_files [simp]: "fits m (s\<lparr>files := d\<rparr>) h b = fits m s h b"
  by (simp add: fits_def held_len_def)

lemma pc_fits_files [simp]:
  "pc_fits m (s\<lparr>files := d\<rparr>) pc = pc_fits m s pc" "pc_fits m (s\<lparr>files := d, denied := S\<rparr>) pc = pc_fits m s pc"
  by (cases pc; simp add: fits_def held_len_def)+

lemma sums_ok_files [simp]:
  "sums_ok c B m (s\<lparr>files := d\<rparr>) = sums_ok c B m s" "sums_ok c B m (s\<lparr>files := d, denied := S\<rparr>) = sums_ok c B m s"
  by (simp_all add: sums_ok_def indexed_in_def acct_ok_def)

lemma sums_ok_purge:
  assumes "sums_ok c B m s" and "index s k = Some n"
  shows "sums_ok c B m (s\<lparr>index := (index s)(k := None), tot := sat_sub (tot s) n\<rparr>)"
proof -
  have fin: "finite (dom (index s))" using assms(1) by (simp add: sums_ok_def)
  with assms index_bytes_remove [OF fin, of k] show ?thesis
    by (auto simp: sums_ok_def indexed_in_def acct_ok_def unat_sat_sub sat_sub_le_trans)
qed

lemma held_fits:
  assumes "sums_ok c B m s" and "collision_free c B" and "real_budget m" and "b \<in> B" and "sha256_hex c b = h"
    and "tot s \<le> cur" and "held_len s h \<noteq> 0 \<or> sat_add cur (len64 b) \<le> m"
  shows "fits m s h b"
proof -
  have len: "unat (len64 b) = length b" using assms(2,4) by (simp add: collision_free_def unat_len64)
  have m: "unat m < 2 ^ 64 - 1" using assms(3) by (simp add: real_budget_def word_less_nat_alt)
  have tm: "unat (tot s) \<le> unat m" using assms(1) by (simp add: sums_ok_def word_le_nat_alt)
  have tc: "unat (tot s) \<le> unat cur" using assms(6) by (simp add: word_le_nat_alt)
  show ?thesis
  proof (cases "held_len s h = 0")
    case True
    with assms(7) have "min (unat cur + length b) (2 ^ 64 - 1) \<le> unat m"
      by (simp add: word_le_nat_alt unat_sat_add len)
    with m have "unat cur + length b \<le> unat m" by (simp add: min_def split: if_splits)
    with tc True show ?thesis by (simp add: fits_def)
  next
    case False
    then obtain n where n: "index s h = Some n" by (auto simp: held_len_def split: option.splits)
    with assms(1) obtain b' where "b' \<in> B" "sha256_hex c b' = h" "n = len64 b'"
      by (auto simp: sums_ok_def indexed_in_def)
    with assms(2,4,5) have "n = len64 b" by (metis collision_free_def inj_onD)
    then have held: "unat (held_len s h) = length b" using n len by (simp add: held_len_def)
    have "unat (held_len s h) \<le> unat (tot s)"
      using assms(1) n index_bytes_remove [of "index s" h] by (simp add: sums_ok_def acct_ok_def unat_held_len)
    with held tm show ?thesis by (simp add: fits_def)
  qed
qed

lemma commit_sums:
  assumes "sums_ok c B m s" and "collision_free c B" and "b \<in> B" and "sha256_hex c b = h" and "fits m s h b"
    and s': "s' = s\<lparr>index := (index s)(h \<mapsto> len64 b), tot := sat_add (sat_sub (tot s) (held_len s h)) (len64 b)\<rparr>"
  shows "sums_ok c B m s'"
proof -
  have fin: "finite (dom (index s))" and acct: "unat (tot s) = index_bytes (index s)"
    using assms(1) by (simp_all add: sums_ok_def acct_ok_def)
  have len: "unat (len64 b) = length b" using assms(2,3) by (simp add: collision_free_def unat_len64)
  have sum: "index_bytes (index s) - unat (held_len s h) + length b \<le> unat m" using assms(5) acct by (simp add: fits_def)
  then have "index_bytes (index s) - unat (held_len s h) + length b < 2 ^ 64"
    using unsigned_less [of m, where ?'a = nat] by simp
  then have "acct_ok (put_blob s h b)" using assms(1) by (intro acct_ok_put_blob) (simp_all add: sums_ok_def)
  then have ok: "acct_ok s'" by (simp add: s' acct_ok_def put_blob_def)
  have "index_bytes (index s') = length b + index_bytes ((index s)(h := None))"
    using fin len by (simp add: s' index_bytes_put)
  also have "\<dots> \<le> unat m"
    using sum index_bytes_remove [OF fin, of h] by (simp add: unat_held_len)
  finally have "tot s' \<le> m" using ok by (simp add: acct_ok_def word_le_nat_alt)
  moreover have "indexed_in c B s'" using assms(1,3,4) by (auto simp: sums_ok_def indexed_in_def s')
  ultimately show ?thesis using ok fin assms(1) by (simp add: sums_ok_def s')
qed

lemma put_step_budget:
  assumes "sums_ok c B m s" and "collision_free c B" and "real_budget m"
    and "snd (put_item pc) \<in> B" "sha256_hex c (snd (put_item pc)) = fst (put_item pc)" "pc_fits m s pc"
    and step: "put_step i s pc = (r, s')"
  shows "sums_ok c B m s' \<and> (\<forall>pc'. r = Inl pc' \<longrightarrow> put_item pc' = put_item pc \<and> pc_fits m s' pc')"
proof (cases pc)
  case (PutCheck h b)
  have "0 < max_bytes s" using assms(1,3) by (simp add: sums_ok_def real_budget_def)
  with PutCheck assms show ?thesis by (auto split: if_splits)
next
  case (PutHeld h b cur)
  have "max_bytes s = m" using assms(1) by (simp add: sums_ok_def)
  with PutHeld assms held_fits [OF assms(1-3), of b h cur] show ?thesis
    by (auto simp: held_len_def [symmetric] Let_def not_less split: if_splits)
next
  case (PutCommit h b)
  with assms commit_sums [OF assms(1,2), of b h s'] show ?thesis
    by (auto simp: held_len_def [symmetric] Let_def)
qed (use assms in \<open>auto split: if_splits prod.splits bool.splits\<close>)

lemma deny_step_budget:
  assumes "sums_ok c B m s" and "deny_step i s pc = (r, s')"
  shows "sums_ok c B m s' \<and> (\<forall>pc'. pc_fits m s pc' \<longrightarrow> pc_fits m s' pc')"
proof (cases pc)
  case (DenySet h)
  with assms show ?thesis by (auto simp: Let_def split: if_splits prod.splits sum.splits)
next
  case (PurgeFile h)
  with assms show ?thesis by auto
next
  case (PurgeIndex h)
  with assms sums_ok_purge [OF assms(1)] pc_fits_purge [of s h] show ?thesis
    by (auto simp: sums_ok_def split: option.splits)
qed

lemma allow_budget:
  assumes "sums_ok c B m s" and "store_allow i s hash = (r, s')"
  shows "sums_ok c B m s' \<and> (\<forall>pc'. pc_fits m s pc' \<longrightarrow> pc_fits m s' pc')"
  using assms(2) by (cases rule: store_allow_cases) (use assms(1) in simp_all)

lemma put_budgeted_other:
  assumes "put_budgeted c B m a" and "\<And>pc. pc_fits m (shared a) pc \<Longrightarrow> pc_fits m (shared a') pc" and "putting a' = putting a"
  shows "put_budgeted c B m a'"
  using assms by (auto simp: put_budgeted_def split: option.splits)

lemma task_step_budget:
  assumes "tasks_budgeted c B m a" and "put_from c B e" and "collision_free c B" and "real_budget m"
  shows "tasks_budgeted c B m (fst (task_step a e))"
proof -
  note ok = assms(1) [unfolded tasks_budgeted_def]
  obtain i ev where e: "e = (i, ev)" by fastforce
  show ?thesis
  proof (cases ev)
    case (PutCall hash b)
    with assms e show ?thesis
      by (cases "putting a") (auto simp: tasks_budgeted_def put_budgeted_def Let_def)
  next
    case PutNext
    show ?thesis
    proof (cases "putting a")
      case None
      with assms e PutNext show ?thesis by simp
    next
      case (Some pc)
      obtain r s' where p: "put_step i (shared a) pc = (r, s')" by fastforce
      have "snd (put_item pc) \<in> B" "sha256_hex c (snd (put_item pc)) = fst (put_item pc)" "pc_fits m (shared a) pc"
        using ok Some by (simp_all add: put_budgeted_def)
      with put_step_budget [OF _ assms(3,4) this p] ok e PutNext Some p show ?thesis
        by (cases r) (auto simp: tasks_budgeted_def put_budgeted_def)
    qed
  next
    case (DenyNext k)
    obtain r s' where p: "deny_step i (shared a) (denying a ! k) = (r, s')" by fastforce
    show ?thesis
      using deny_step_budget [OF _ p] ok e DenyNext p put_budgeted_other [of c B m a "fst (task_step a e)"]
      by (cases r) (auto simp: tasks_budgeted_def)
  next
    case (AllowCall hash)
    obtain r s' where p: "store_allow i (shared a) hash = (r, s')" by fastforce
    show ?thesis
      using allow_budget [OF _ p] ok e AllowCall p put_budgeted_other [of c B m a "fst (task_step a e)"]
      by (auto simp: tasks_budgeted_def)
  next
    case (DenyCall hash)
    with ok e put_budgeted_other [of c B m a "fst (task_step a e)"] show ?thesis
      by (auto simp: tasks_budgeted_def Let_def)
  next
    case (ReadCall hash)
    with ok e put_budgeted_other [of c B m a "fst (task_step a e)"] show ?thesis
      by (auto simp: tasks_budgeted_def Let_def)
  next
    case (ReadNext k r)
    with ok e put_budgeted_other [of c B m a "fst (task_step a e)"] show ?thesis
      by (auto simp: tasks_budgeted_def)
  qed
qed

interpretation tasks_budget: machine "\<lambda>a e. fst (task_step a e)"
    "\<lambda>e. collision_free c B \<and> real_budget m \<and> put_from c B e" "tasks_budgeted c B m"
  for c :: crypto and B :: "bytes set" and m :: u64
  by unfold_locales (simp add: task_step_budget)

text \<open>At the start, when no task is under way.\<close>

lemma idle_budgeted:
  assumes "budgeted c B m s"
  shows "tasks_budgeted c B m (idle s)"
proof -
  have "\<exists>b \<in> B. sha256_hex c b = h \<and> n = len64 b" if i: "index s h = Some n" for h n
  proof -
    from i assms obtain b where b: "files s (blob_path h) = Some b" "n = len64 b"
      using store_ok_blob unfolding budgeted_def by blast
    moreover from i assms obtain b' where "files s (blob_path h) = Some b'" "sha256_hex c b' = h"
      unfolding budgeted_def certified_def by blast
    moreover have "b \<in> B" using i assms b(1) unfolding budgeted_def blobs_in_def by blast
    ultimately show ?thesis using b by auto
  qed
  with assms show ?thesis
    by (simp add: tasks_budgeted_def sums_ok_def indexed_in_def budgeted_def store_ok_def keys_ok_def
        put_budgeted_def idle_def)
qed

end
