(* ===== verification/Store_Props.thy ===== *)
theory Store_Props
  imports Store_Budget "HOL-Library.Char_ord" "HOL-Library.List_Lexorder"
begin

text \<open>
  The properties of the blob store (src/store.rs), each with a concrete instance: the invariant, takedowns,
  the denylist file, failures, the byte budget, self-certification, reopening, and the refinement of the
  abstract store.
\<close>

section \<open>Concrete inputs\<close>

definition demo_hash :: string where
  "demo_hash = replicate 64 (CHR ''a'')"

definition demo_io :: io where
  "demo_io = \<lparr>write_out = WOk, rename_ok = True, remove_ok = True, set_order = sorted_list_of_set\<rparr>"

definition empty_store :: store where
  "empty_store = \<lparr>files = Map.empty, index = Map.empty, tot = 0, denied = {}, max_bytes = 0\<rparr>"

definition demo_store :: store where
  "demo_store = put_blob empty_store demo_hash [7]"

definition banned_store :: store where
  "banned_store = snd (store_deny demo_io empty_store demo_hash)"

lemma demo_order [simp]: "order_ok demo_io"
  by (simp add: order_ok_def demo_io_def hash_iter_def)

lemma demo_hash_hex [simp]: "lower_hex64 demo_hash"
  by (simp add: lower_hex64_def demo_hash_def is_lower_hexdigit_def list_all_iff)

lemma demo_hash_valid [simp]: "norm demo_hash = demo_hash" "is_valid_hash demo_hash"
  by (simp_all add: norm_lower_hex64 lower_hex64_valid)

lemma empty_store_ok [simp]: "store_ok empty_store"
  unfolding store_ok_defs
  by (simp add: empty_store_def load_denylist_def fs_read_to_string_def fs_read_def)

lemma demo_store_ok [simp]: "store_ok demo_store"
  unfolding demo_store_def by (rule store_ok_put_blob) (simp, simp, simp add: empty_store_def)

lemma demo_store_fields [simp]:
  "index demo_store = [demo_hash \<mapsto> 1]" "denied demo_store = {}" "tot demo_store = 1" "max_bytes demo_store = 0"
  "files demo_store (blob_path demo_hash) = Some [7]"
  by (simp_all add: demo_store_def put_blob_def empty_store_def len64_def held_len_def sat_add_def sat_sub_def)

lemma banned_store_eq:
  "store_deny demo_io empty_store demo_hash = (Inr False, banned_store)" and
  banned_store_denied [simp]: "denied banned_store = {demo_hash}"
proof -
  have w: "write_denylist demo_io {demo_hash} Map.empty =
      (Inr (), replaced ''denylist.txt.tmp'' denylist_path (str_bytes (denylist_body [demo_hash])) Map.empty)"
    by (simp add: write_denylist_def demo_io_def Let_def fs_write_def fs_rename_written)
  show "store_deny demo_io empty_store demo_hash = (Inr False, banned_store)"
    and "denied banned_store = {demo_hash}"
    using w by (simp_all add: banned_store_def store_deny_def empty_store_def Let_def store_purge_eq)
qed

lemma banned_store_ok [simp]: "store_ok banned_store"
  unfolding banned_store_def by (rule store_ok_deny) simp_all

section \<open>Invariant and takedowns\<close>

text \<open>
  C24: whatever sequence of puts, purges, denies and allows runs, and whichever of their disk operations fail,
  the store stays well-formed: only content hashes as keys, nothing denied is held, every indexed blob is on
  the disk with its length, and the denylist file holds exactly the denylist.
\<close>

theorem store_invariant:
  assumes "store_ok s" and "list_all io_legal es"
  shows "store_ok (foldl store_step s es)"
  using assms by (rule store_run.run_inv)

theorem store_invariant_witness:
  "store_ok (foldl store_step demo_store [(demo_io, Deny demo_hash), (demo_io, Put demo_hash [7])])"
  by (rule store_invariant) (simp_all add: io_legal_def)

text \<open>
  A takedown sticks. After a deny that reported success, along every later sequence of operations that
  contains no allow of this hash, the hash stays denied and is neither listed nor served, and every put of it
  is refused.
\<close>

theorem takedown_sticks:
  assumes "store_ok s" and "order_ok i" and "store_deny i s hash = (Inr p, s')"
    and "list_all io_legal es" and "list_all (\<lambda>e. \<not> lifts_ban e (norm hash)) es"
  shows "store_is_denied (foldl store_step s' es) hash \<and> store_has (foldl store_step s' es) hash = None \<and>
    store_get ok (foldl store_step s' es) hash = None \<and>
    store_put j (foldl store_step s' es) hash b = (Inl OnDenylist, foldl store_step s' es)"
proof -
  let ?t = "foldl store_step s' es"
  have ok: "store_ok s'" using store_ok_deny [OF assms(1,2), of hash] assms(3) by simp
  have v: "is_valid_hash (norm hash)" and d: "norm hash \<in> denied s'"
    using assms(3) by (cases rule: store_deny_cases; force dest: arg_cong [of _ _ "\<lambda>x. denied (snd x)"])+
  have t: "norm hash \<in> denied ?t" "norm hash \<notin> dom (index ?t)"
    using store_run.run_banned [OF ok assms(4) d assms(5)] store_run.run_not_held [OF ok assms(4) d assms(5)]
    by simp_all
  from t(1) have "store_is_denied ?t hash" by (simp add: store_is_denied_def)
  moreover from t(2) have "store_has ?t hash = None" by (auto simp: store_has_def)
  moreover from t(2) have "store_get ok ?t hash = None" by (simp add: store_get_def Let_def)
  moreover from t(1) v have "store_put j ?t hash b = (Inl OnDenylist, ?t)" by (simp add: store_put_def Let_def)
  ultimately show ?thesis by blast
qed

theorem takedown_sticks_witness:
  "store_get True (foldl store_step banned_store [(demo_io, Put demo_hash [7])]) demo_hash = None"
  using takedown_sticks [of empty_store demo_io demo_hash False banned_store
      "[(demo_io, Put demo_hash [7])]" True demo_io "[7]"]
  by (simp add: banned_store_eq io_legal_def del: foldl_Cons)

text \<open>
  A takedown survives a restart. Opening the directory of a well-formed store gives back the same
  denylist, and a denied hash is not indexed, whatever blob files lie in the directory.
\<close>

theorem takedown_survives_reopen:
  assumes "store_ok s" and "clean_listing i (files s)" and "fst (store_open i (files s)) = Inr s'"
  shows "denied s' = denied s \<and> (\<forall>h \<in> denied s. store_has s' h = None \<and> store_get ok s' h = None)"
proof -
  have dn: "denied s' = denied s" using assms by (rule reopen_keeps(1))
  have "store_ok s'" using assms(2,3) by (rule store_ok_opened)
  then have "h \<in> denied s \<Longrightarrow> h \<notin> dom (index s')" for h
    unfolding dn [symmetric] by (rule store_run.banned_not_held)
  moreover have "h \<in> denied s \<Longrightarrow> norm h = h" for h
    using assms(1) by (simp add: store_ok_def keys_ok_def norm_lower_hex64)
  ultimately have "h \<in> denied s \<Longrightarrow> store_has s' h = None \<and> store_get ok s' h = None" for h
    by (simp add: store_has_def store_get_def Let_def domIff)
  with dn show ?thesis by blast
qed

definition demo_open :: "string list \<Rightarrow> open_io" where
  "demo_open names =
     \<lparr>dir_ok = True, read_dir_ok = True, denylist_ok = True, listing = map Some names,
      rm_ok = (\<lambda>_. True), md_ok = (\<lambda>_. True)\<rparr>"

lemma demo_open_clean: "distinct names \<Longrightarrow> set names = dom d \<Longrightarrow> clean_listing (demo_open names) d"
  by (auto simp: clean_listing_def demo_open_def)

lemma banned_files: "dom (files banned_store) = {denylist_path}"
proof -
  have "files banned_store = fs_remove True (blob_path demo_hash)
      (replaced ''denylist.txt.tmp'' denylist_path (str_bytes (denylist_body [demo_hash])) Map.empty)"
    by (simp add: banned_store_def store_deny_def empty_store_def Let_def store_purge_eq write_denylist_def
        demo_io_def fs_write_def fs_rename_written)
  then show ?thesis by (auto simp: fs_remove_def replaced_def split: if_splits)
qed

theorem takedown_survives_reopen_witness:
  "\<exists>s'. fst (store_open (demo_open [denylist_path]) (files banned_store)) = Inr s' \<and>
     denied s' = {demo_hash} \<and> store_has s' demo_hash = None"
proof -
  have c: "clean_listing (demo_open [denylist_path]) (files banned_store)"
    by (rule demo_open_clean) (simp_all add: banned_files)
  then obtain s' where s': "fst (store_open (demo_open [denylist_path]) (files banned_store)) = Inr s'"
    using store_open_clean by metis
  show ?thesis
    using takedown_survives_reopen [OF banned_store_ok c s'] s' by simp
qed

section \<open>The denylist file\<close>

text \<open>
  writing the denylist and loading it gives back the set, in whatever order the set is visited; loading it
  yields only hashes in normal form, whatever the file holds.
\<close>

theorem denylist_roundtrip:
  assumes "order_ok i" and "finite S" and "\<forall>h \<in> S. lower_hex64 h" and "write_denylist i S d = (Inr (), d')"
  shows "load_denylist True d' = S \<and> (\<forall>f. f \<notin> {denylist_path, ''denylist.txt.tmp''} \<longrightarrow> d' f = d f)"
  using write_denylist_cases [OF assms(4)] load_written_denylist [OF assms(1-3)] by auto

theorem denylist_roundtrip_witness:
  "\<exists>d'. write_denylist demo_io {demo_hash} Map.empty = (Inr (), d') \<and> load_denylist True d' = {demo_hash}"
proof -
  have w: "write_denylist demo_io {demo_hash} Map.empty =
      (Inr (), replaced ''denylist.txt.tmp'' denylist_path (str_bytes (denylist_body [demo_hash])) Map.empty)"
    by (simp add: write_denylist_def demo_io_def Let_def fs_write_def fs_rename_written)
  then show ?thesis using denylist_roundtrip [OF demo_order _ _ w] by simp
qed

text \<open>
  A deny or an allow that fails rolls back: the denylist, the index, the total and every file but the
  temporary one are as before, so memory and file still agree.
\<close>

theorem denylist_change_rolls_back:
  assumes "store_deny i s hash = (Inl e, s') \<or> store_allow i s hash = (Inl e, s')"
  shows "s' = s\<lparr>files := files s'\<rparr> \<and> (\<forall>f. f \<noteq> ''denylist.txt.tmp'' \<longrightarrow> files s' f = files s f)"
  using assms
proof
  assume "store_deny i s hash = (Inl e, s')"
  then show ?thesis by (cases rule: store_deny_cases) auto
next
  assume "store_allow i s hash = (Inl e, s')"
  then show ?thesis by (cases rule: store_allow_cases) auto
qed

theorem denylist_change_rolls_back_witness:
  "denied (snd (store_deny (demo_io\<lparr>rename_ok := False\<rparr>) demo_store demo_hash)) = {} \<and>
   fst (store_deny (demo_io\<lparr>rename_ok := False\<rparr>) demo_store demo_hash) = Inl RenameDenylist"
proof -
  let ?r = "store_deny (demo_io\<lparr>rename_ok := False\<rparr>) demo_store demo_hash"
  have e: "fst ?r = Inl RenameDenylist"
    by (simp add: store_deny_def Let_def write_denylist_def demo_io_def fs_write_def fs_rename_written)
  then have "?r = (Inl RenameDenylist, snd ?r)" by (metis prod.collapse)
  then have "snd ?r = demo_store\<lparr>files := files (snd ?r)\<rparr>"
    using denylist_change_rolls_back by blast
  then have "denied (snd ?r) = denied (demo_store\<lparr>files := files (snd ?r)\<rparr>)" by (rule arg_cong)
  with e show ?thesis by simp
qed

section \<open>Puts\<close>

text \<open>
  C40: a put that reports an error, at whatever point it failed, leaves the index, the total, the denylist and
  every file but its own temporary file as they were: no blob is lost or half written.
\<close>

theorem failed_put_keeps_everything:
  assumes "store_put i s hash b = (Inl e, s')"
  shows "s' = s\<lparr>files := files s'\<rparr> \<and> (\<forall>f. f \<noteq> tmp_path (norm hash) \<longrightarrow> files s' f = files s f)"
  using assms by (auto elim: store_put_Err)

theorem failed_put_keeps_everything_witness:
  "store_get True (snd (store_put (demo_io\<lparr>write_out := WErr (Some [1])\<rparr>) demo_store demo_hash [1, 2])) demo_hash
     = Some [7]"
proof -
  let ?s = "snd (store_put (demo_io\<lparr>write_out := WErr (Some [1])\<rparr>) demo_store demo_hash [1, 2])"
  have "store_put (demo_io\<lparr>write_out := WErr (Some [1])\<rparr>) demo_store demo_hash [1, 2] = (Inl WriteTmp, ?s)"
    by (simp add: store_put_eq within_budget_def)
  from failed_put_keeps_everything [OF this]
  have s: "?s = demo_store\<lparr>files := files ?s\<rparr>" "files ?s (blob_path demo_hash) = Some [7]" by simp_all
  from s(1) have "index ?s = index (demo_store\<lparr>files := files ?s\<rparr>)" by (rule arg_cong)
  with s(2) show ?thesis by (simp add: store_get_def fs_read_def)
qed

text \<open>
  Content that was put is served: \<open>get\<close> returns exactly these bytes under every spelling of the hash,
  \<open>has\<close> reports their length, and what is served for other hashes does not change.
\<close>

theorem put_then_get:
  assumes "store_put i s hash b = (Inr (), s')" and "norm hash' = norm hash"
  shows "store_get True s' hash' = Some b \<and> store_has s' hash' = Some (len64 b) \<and>
    (\<forall>k. norm k \<noteq> norm hash \<longrightarrow> store_get ok s' k = store_get ok s k \<and> store_has s' k = store_has s k)"
proof -
  have s': "s' = put_blob s (norm hash) b" "is_valid_hash (norm hash)"
    using assms(1) by (simp_all add: store_put_Ok_iff)
  then show ?thesis
    using assms(2) by (auto simp: store_get_def store_has_def put_blob_def fs_read_def Let_def)
qed

theorem put_then_get_witness:
  "store_get True (snd (store_put demo_io empty_store (''0x'' @ demo_hash) [7])) demo_hash = Some [7]"
proof -
  have n: "norm (''0x'' @ demo_hash) = demo_hash" by (simp only: norm_0x_lower_hex64 demo_hash_hex)
  have "store_put demo_io empty_store (''0x'' @ demo_hash) [7]
      = (Inr (), snd (store_put demo_io empty_store (''0x'' @ demo_hash) [7]))"
    unfolding store_put_eq n Let_def by (simp add: demo_io_def within_budget_def empty_store_def)
  from put_then_get [OF this] show ?thesis by (simp only: n demo_hash_valid)
qed

section \<open>Budget and self-certification\<close>

text \<open>
  C17: under a byte budget the blobs the store holds never exceed it. Along every run whose puts are verified
  (and whose byte strings do not collide under SHA-256), the cached total is exactly the number of bytes of
  the indexed blobs on the disk, and it is at most the budget.
\<close>

theorem budget_respected:
  assumes "budgeted c B m s" and "real_budget m" and "collision_free c B" and "list_all (verified_op c B) es"
    and "t = foldl store_step s es"
  shows "(\<Sum>h \<in> dom (index t). length (the (files t (blob_path h)))) = unat (store_total_bytes t)
    \<and> store_total_bytes t \<le> m"
proof -
  have t: "budgeted c B m t"
    unfolding assms(5) using assms(1-4) by (intro budget_run.run_inv) (auto simp: list_all_iff)
  with disk_bytes [OF t assms(3)] show ?thesis by (simp add: store_total_bytes_def budgeted_def)
qed

definition demo_digest :: string where
  "demo_digest = sha256_hex demo_crypto [7]"

theorem budget_respected_witness:
  "store_total_bytes (foldl store_step (empty_store\<lparr>max_bytes := 5\<rparr>) [(demo_io, Put demo_digest [7])]) \<le> 5"
proof -
  have d: "norm demo_digest = demo_digest"
    unfolding demo_digest_def by (intro norm_lower_hex64 sha256_hex_lower_hex64 demo_crypto_ok)
  have "store_ok (empty_store\<lparr>max_bytes := 5\<rparr>)"
    using empty_store_ok by (simp add: store_ok_defs)
  then have "budgeted demo_crypto {[7]} 5 (empty_store\<lparr>max_bytes := 5\<rparr>)"
    by (simp add: budgeted_def certified_def blobs_in_def acct_ok_def) (simp add: empty_store_def)
  moreover have "real_budget 5" by (simp add: real_budget_def word_less_nat_alt)
  moreover have "collision_free demo_crypto {[7]}" by (simp add: collision_free_def)
  moreover have "list_all (verified_op demo_crypto {[7]}) [(demo_io, Put demo_digest [7])]"
    by (simp add: d) (simp add: demo_digest_def)
  ultimately show ?thesis by (rule budget_respected [OF _ _ _ _ refl, THEN conjunct2])
qed

text \<open>
  The store is self-certifying. Along every run whose puts carry bytes that hash to their key, every read
  returns bytes that hash to the address that was asked for.
\<close>

theorem reads_self_certify:
  assumes "certified c s" and "list_all (verified_put c) es"
    and "store_get ok (foldl store_step s es) hash = Some b"
  shows "sha256_hex c b = norm hash"
proof -
  have "certified c (foldl store_step s es)" using assms(1,2) by (rule certified_run.run_inv)
  then show ?thesis using assms(3) by (rule certified_get)
qed

theorem reads_self_certify_witness:
  "store_get True (foldl store_step empty_store [(demo_io, Put demo_digest [7])]) demo_digest = Some [7] \<and>
   sha256_hex demo_crypto [7] = norm demo_digest"
proof -
  let ?s = "foldl store_step empty_store [(demo_io, Put demo_digest [7])]"
  have hex: "lower_hex64 demo_digest"
    unfolding demo_digest_def by (rule sha256_hex_lower_hex64 [OF demo_crypto_ok])
  then have d: "norm demo_digest = demo_digest" "is_valid_hash demo_digest"
    by (simp_all add: norm_lower_hex64 lower_hex64_valid)
  have "store_put demo_io empty_store demo_digest [7] = (Inr (), put_blob empty_store demo_digest [7])"
    unfolding store_put_Ok_iff d(1) using d(2)
    by (simp add: demo_io_def within_budget_def empty_store_def)
  then have g: "store_get True ?s demo_digest = Some [7]"
    by (simp add: store_get_def d fs_read_def put_blob_def)
  have "certified demo_crypto empty_store" by (simp add: certified_def empty_store_def)
  moreover have "list_all (verified_put demo_crypto) [(demo_io, Put demo_digest [7])]"
    by (simp add: d(1)) (simp add: demo_digest_def)
  ultimately show ?thesis using reads_self_certify g by blast
qed

section \<open>Refinement\<close>

text \<open>
  C12: the store implements an abstract store of held blobs and banned hashes. Every operation either does its
  abstract counterpart or, when it refuses or fails, leaves the abstract state as it was; and what the readers
  return is what the abstract state says.
\<close>

theorem store_refines_spec:
  "abs_store (store_step s (i, op)) = (if succeeds i s op then spec_step (abs_store s) op else abs_store s) \<and>
   store_get True s hash = (if is_valid_hash (norm hash) then held (abs_store s) (norm hash) else None) \<and>
   (store_is_denied s hash \<longleftrightarrow> norm hash \<in> banned (abs_store s))"
  by (simp add: store_refines_step abs_get) (simp add: store_is_denied_def abs_store_def)

section \<open>Opening\<close>

text \<open>
  C27: opening the directory of a well-formed store, read without an error, gives a well-formed store with the
  same denylist that holds every blob it held, byte for byte and with its length, and whose total is the sum
  of the indexed lengths.
\<close>

theorem reopen_restores:
  assumes "store_ok s" and "clean_listing i (files s)" and "fst (store_open i (files s)) = Inr s'"
  shows "store_ok s' \<and> denied s' = denied s \<and> tot s' = of_nat (index_bytes (index s')) \<and>
    (\<forall>hash b. store_get True s hash = Some b \<longrightarrow> store_get True s' hash = Some b \<and> store_has s' hash = store_has s hash)"
proof -
  note keep = reopen_keeps [OF assms]
  have get: "store_get True s' hash = Some b \<and> store_has s' hash = store_has s hash"
    if g: "store_get True s hash = Some b" for hash b
  proof -
    from g have h: "is_valid_hash (norm hash)" "norm hash \<in> dom (index s)" "files s (blob_path (norm hash)) = Some b"
      by (auto simp: store_get_def fs_read_def Let_def split: if_splits)
    with keep(2) have "index s' (norm hash) = index s (norm hash)" by (simp add: map_le_def)
    moreover from this h(2) have "norm hash \<in> dom (index s')" by (simp add: domIff)
    ultimately show ?thesis
      using h keep(3) [OF h(2)] by (simp add: store_get_def store_has_def fs_read_def)
  qed
  obtain t where "fst (store_open i (files s)) = Inr t" "tot t = of_nat (index_bytes (index t))"
    using store_open_clean [OF assms(2)] by metis
  with assms(3) have "tot s' = of_nat (index_bytes (index s'))" by simp
  with keep(1) get store_ok_opened [OF assms(2,3)] show ?thesis by blast
qed

lemma demo_files: "dom (files demo_store) = {blob_path demo_hash}"
  by (auto simp: demo_store_def put_blob_def replaced_def empty_store_def split: if_splits)

theorem reopen_restores_witness:
  "\<exists>s'. fst (store_open (demo_open [blob_path demo_hash]) (files demo_store)) = Inr s' \<and>
     store_get True s' demo_hash = Some [7]"
proof -
  have c: "clean_listing (demo_open [blob_path demo_hash]) (files demo_store)"
    by (rule demo_open_clean) (simp_all add: demo_files)
  then obtain s' where s': "fst (store_open (demo_open [blob_path demo_hash]) (files demo_store)) = Inr s'"
    using store_open_clean by metis
  have "store_get True demo_store demo_hash = Some [7]" by (simp add: store_get_def fs_read_def)
  with reopen_restores [OF demo_store_ok c s'] s' show ?thesis by blast
qed

end
