(* ===== verification/Store_Tasks_Props.thy ===== *)
theory Store_Tasks_Props
  imports Store_Tasks_Budget Store_Props
begin

text \<open>
  The properties of the store under concurrency: a task that runs alone is the atomic operation, what every
  interleaving keeps, when a takedown holds under races, and the two races that the code leaves open.
\<close>

section \<open>Atomic when alone\<close>

text \<open>
  The step-by-step tasks are the operations: a put, a deny or a read whose steps are not interleaved with
  others ends in the state and with the result of the atomic operation, whatever other tasks are suspended.
\<close>

theorem tasks_alone:
  assumes "putting a = None"
  shows "task_run a ((i, PutCall hash b) # replicate 6 (i, PutNext)) =
      (a\<lparr>shared := snd (store_put i (shared a) hash b)\<rparr>, [PutReturns (fst (store_put i (shared a) hash b))]) \<and>
    task_run a ((i, DenyCall hash) # replicate 3 (i, DenyNext (length (denying a)))) =
      (a\<lparr>shared := snd (store_deny i (shared a) hash)\<rparr>, [DenyReturns (norm hash) (fst (store_deny i (shared a) hash))]) \<and>
    task_run a [(i, ReadCall hash), (i, ReadNext (length (reading a)) ok)] =
      (a, [ReadReturns (norm hash) (store_get ok (shared a) hash)])"
  using put_alone [OF assms] deny_alone read_alone by blast

theorem tasks_alone_witness:
  "task_run (idle demo_store) [(demo_io, ReadCall demo_hash), (demo_io, ReadNext 0 True)] =
     (idle demo_store, [ReadReturns demo_hash (Some [7])])"
proof -
  have "store_get True demo_store demo_hash = Some [7]" by (simp add: store_get_def fs_read_def)
  then show ?thesis
    using tasks_alone [of "idle demo_store" demo_io demo_hash "[]" True] by (simp add: idle_def)
qed

section \<open>Every interleaving\<close>

text \<open>
  C15: concurrency breaks neither the denylist nor self-certification nor the budget. However the steps of one
  put at a time and of any number of denies, allows and reads interleave, and whichever disk operations fail:
  the denylist file holds exactly the denylist, the cached total is the sum of the indexed lengths and within
  the budget, and every read that returns bytes returns bytes of the address it was called with.
\<close>

theorem interleaved_store_safe:
  assumes "budgeted c B m s" and "disk_certified c (files s)" and "real_budget m" and "collision_free c B"
    and "list_all (task_legal c) es" and "list_all (put_from c B) es" and "task_run (idle s) es = (a, outs)"
  shows "load_denylist True (files (shared a)) = denied (shared a) \<and>
    unat (store_total_bytes (shared a)) = index_bytes (index (shared a)) \<and> store_total_bytes (shared a) \<le> m \<and>
    (\<forall>h b. ReadReturns h (Some b) \<in> set outs \<longrightarrow> sha256_hex c b = h)"
proof -
  have a: "a = foldl (\<lambda>a e. fst (task_step a e)) (idle s) es" and outs: "outs = snd (task_run (idle s) es)"
    using task_run_state [of "idle s" es] assms(7) by simp_all
  have start: "tasks_ok {} c (idle s)" using assms(1,2) by (intro idle_ok) (simp_all add: budgeted_def)
  have "tasks_ok {} c a" unfolding a using start assms(5) by (rule tasks_run.run_inv)
  then have "load_denylist True (files (shared a)) = denied (shared a)"
    by (simp add: tasks_ok_def keys_persisted_empty persisted_def)
  moreover have "tasks_budgeted c B m a"
    unfolding a using idle_budgeted [OF assms(1)] assms(3,4,6)
    by (intro tasks_budget.run_inv) (auto simp: list_all_iff)
  moreover have "sha256_hex c b = h" if "ReadReturns h (Some b) \<in> set outs" for h b
    using run_reads_certified [OF start assms(5)] that by (simp add: outs)
  ultimately show ?thesis
    by (simp add: tasks_budgeted_def sums_ok_def acct_ok_def store_total_bytes_def)
qed

text \<open>A put and a read of the same hash, with a takedown of another one in between.\<close>

definition busy_events :: "(io \<times> task_event) list" where
  "busy_events =
     [(demo_io, PutCall demo_digest [7]), (demo_io, PutNext), (demo_io, DenyCall demo_hash), (demo_io, PutNext),
      (demo_io, DenyNext 0), (demo_io, PutNext), (demo_io, PutNext), (demo_io, DenyNext 0), (demo_io, PutNext),
      (demo_io, PutNext), (demo_io, ReadCall demo_digest), (demo_io, DenyNext 0), (demo_io, ReadNext 0 True)]"

lemma empty_budgeted: "budgeted demo_crypto {[7]} 5 (empty_store\<lparr>max_bytes := 5\<rparr>)"
proof -
  have "store_ok (empty_store\<lparr>max_bytes := 5\<rparr>)" using empty_store_ok by (simp add: store_ok_defs)
  then show ?thesis
    by (simp add: budgeted_def certified_def blobs_in_def acct_ok_def) (simp add: empty_store_def)
qed

theorem interleaved_store_safe_witness:
  "store_total_bytes (shared (fst (task_run (idle (empty_store\<lparr>max_bytes := 5\<rparr>)) busy_events))) \<le> 5"
proof -
  have "lower_hex64 demo_digest"
    unfolding demo_digest_def by (rule sha256_hex_lower_hex64 [OF demo_crypto_ok])
  then have "norm demo_digest = demo_digest" by (rule norm_lower_hex64)
  then have d: "sha256_hex demo_crypto [7] = norm demo_digest" by (simp add: demo_digest_def)
  have "real_budget 5" by (simp add: real_budget_def word_less_nat_alt)
  moreover have "disk_certified demo_crypto (files (empty_store\<lparr>max_bytes := 5\<rparr>))"
    by (simp add: disk_certified_def empty_store_def)
  moreover have "collision_free demo_crypto {[7]}" by (simp add: collision_free_def)
  moreover have "list_all (task_legal demo_crypto) busy_events" "list_all (put_from demo_crypto {[7]}) busy_events"
    by (simp_all add: busy_events_def d)
  ultimately show ?thesis
    using interleaved_store_safe [OF empty_budgeted] by (metis prod.collapse)
qed

section \<open>Takedowns under races\<close>

text \<open>
  A takedown holds under every interleaving. When a deny returns success, its hash has not been allowed
  meanwhile and no put of it is past the denylist check, then along every later interleaving without an allow
  of it the hash stays denied and is not held: a new read finds nothing, and a new put is refused.
\<close>

theorem takedown_interleaved:
  assumes "task_step a (i, DenyNext k) = (a', [DenyReturns h (Inr p)])"
    and "h \<in> denied (shared a)" and "\<not> late_put a h"
    and "list_all (\<lambda>e. \<not> allows h e) es" and "fst (task_run a' es) = a''" and "norm hash = h"
  shows "store_is_denied (shared a'') hash \<and> store_has (shared a'') hash = None \<and>
    task_step a'' (j, ReadCall hash) = (a'', [ReadReturns h None]) \<and>
    fst (store_put j (shared a'') hash b) \<noteq> Inr ()"
proof -
  have "sealed h a''"
    using deny_returns_sealed [OF assms(1-3)] assms(4) unfolding assms(5) [symmetric] task_run_state
    by (intro seal_run.run_inv) simp_all
  with assms(6) show ?thesis
    by (auto simp: sealed_def store_is_denied_def store_has_def store_put_eq Let_def domIff)
qed

lemma deny_demo: "write_denylist demo_io {demo_hash} d =
    (Inr (), replaced ''denylist.txt.tmp'' denylist_path (str_bytes (denylist_body [demo_hash])) d)"
  by (simp add: write_denylist_def demo_io_def Let_def fs_write_def fs_rename_written)

text \<open>The deny of a held blob, about to return; afterwards a put of the hash is tried.\<close>

definition denying_state :: store_tasks where
  "denying_state =
     (idle (demo_store\<lparr>denied := {demo_hash}\<rparr>))\<lparr>denying := [PurgeIndex demo_hash]\<rparr>"

theorem takedown_interleaved_witness:
  "store_has (shared (fst (task_run (fst (task_step denying_state (demo_io, DenyNext 0)))
      [(demo_io, PutCall demo_hash [7]), (demo_io, PutNext)]))) demo_hash = None"
proof -
  have r: "task_step denying_state (demo_io, DenyNext 0) =
      (fst (task_step denying_state (demo_io, DenyNext 0)), [DenyReturns demo_hash (Inr True)])"
    by (simp add: denying_state_def idle_def)
  have "demo_hash \<in> denied (shared denying_state)" "\<not> late_put denying_state demo_hash"
    by (simp_all add: denying_state_def idle_def late_put_def)
  from takedown_interleaved [OF r this, of "[(demo_io, PutCall demo_hash [7]), (demo_io, PutNext)]"] show ?thesis
    by simp
qed

section \<open>The races that are left\<close>

text \<open>
  The hypothesis on late puts is needed: a put that passed the check before the deny stores the blob after the
  deny has returned success. The hash is then denied and held until it is denied again or the node restarts.
\<close>

lemma late_put_survives:
  fixes a outs
  defines "es \<equiv> (demo_io, PutCall demo_hash [7]) # (demo_io, PutNext) # (demo_io, DenyCall demo_hash) #
      replicate 3 (demo_io, DenyNext 0) @ replicate 3 (demo_io, PutNext)"
  assumes "task_run (idle empty_store) es = (a, outs)"
  shows "outs = [DenyReturns demo_hash (Inr False), PutReturns (Inr ())] \<and>
    demo_hash \<in> denied (shared a) \<and> store_get True (shared a) demo_hash = Some [7]"
proof -
  have io: "write_out demo_io = WOk" "rename_ok demo_io" by (simp_all add: demo_io_def)
  show ?thesis
    using assms
    by (auto simp: idle_def empty_store_def numeral_eq_Suc deny_demo io fs_write_def fs_rename_def store_get_def fs_read_def Let_def)
qed

text \<open>
  When the purge runs between the rename and the commit of a put, the index lists a hash whose file is gone: it
  counts as held, so it is not fetched again after an allow, but no read returns it.
\<close>

lemma ghost_entry:
  fixes a outs
  defines "es \<equiv> (demo_io, PutCall demo_hash [7]) # replicate 3 (demo_io, PutNext) @
      (demo_io, DenyCall demo_hash) # replicate 3 (demo_io, DenyNext 0) @ [(demo_io, PutNext), (demo_io, AllowCall demo_hash)]"
  assumes "task_run (idle empty_store) es = (a, outs)"
  shows "demo_hash \<notin> denied (shared a) \<and> store_has (shared a) demo_hash = Some 1 \<and>
    store_get True (shared a) demo_hash = None"
proof -
  have io: "write_out demo_io = WOk" "rename_ok demo_io" "remove_ok demo_io" by (simp_all add: demo_io_def)
  have al: "write_denylist demo_io {} d =
      (Inr (), replaced ''denylist.txt.tmp'' denylist_path (str_bytes (denylist_body [])) d)" for d
    by (simp add: write_denylist_def demo_io_def Let_def fs_write_def fs_rename_written)
  show ?thesis
    using assms
    by (auto simp: idle_def empty_store_def numeral_eq_Suc deny_demo al io fs_write_def fs_rename_def fs_remove_def
        store_get_def store_has_def store_allow_def fs_read_def len64_def Let_def)
qed

end
