(* ===== verification/Store_Crash.thy ===== *)
theory Store_Crash
  imports Store_Tasks_Props
begin

text \<open>
  The store when the process dies, or when a handler is dropped, in the middle of an operation (src/store.rs). A
  crash leaves the disk of that moment, with temporary files in any state. A handler that is dropped while it
  rewrites the denylist (its client closed the connection) has changed the set in memory, and neither the error
  path's rollback nor the rest of the operation runs; the file call it was waiting for may still take effect.
\<close>

section \<open>Crashes\<close>

definition is_tmp :: "string \<Rightarrow> bool" where
  "is_tmp f \<longleftrightarrow> drop (length f - 4) f = ''.tmp''"

text \<open>The disk found after a crash: writes go to temporary files only, renames and removals are atomic.\<close>

definition torn :: "disk \<Rightarrow> disk \<Rightarrow> bool" where
  "torn d d' \<longleftrightarrow> (\<forall>f. \<not> is_tmp f \<longrightarrow> d' f = d f)"

lemma not_tmp [simp]: "\<not> is_tmp (blob_path h)" "\<not> is_tmp denylist_path"
  by (simp_all add: is_tmp_def blob_path_def denylist_path_def)

lemma is_tmp_paths: "is_tmp (tmp_path h)" "is_tmp ''denylist.txt.tmp''"
  by (simp_all add: is_tmp_def tmp_path_def)

text \<open>
  The disk never leaves this relation inside a step of a task: a write that has not ended has touched one temporary
  file, and every other file call is atomic.
\<close>

lemma inside_write: "is_tmp f \<Longrightarrow> torn d (snd (fs_write w f b d))"
  by (auto simp: torn_def fs_write_def split: write_outcome.split option.split)

lemma torn_blob: "torn d d' \<Longrightarrow> d' (blob_path h) = d (blob_path h)"
  by (simp add: torn_def)

lemma torn_denylist: "torn d d' \<Longrightarrow> load_denylist ok d' = load_denylist ok d"
  by (rule load_denylist_cong) (simp add: torn_def)

section \<open>Dropped handlers\<close>

text \<open>A later rewrite of the denylist that succeeds writes the whole set, cut takedowns included.\<close>

lemma cut_healed:
  assumes "store_ok s" and "order_ok j" and "is_valid_hash (norm hash)"
    and "norm k \<notin> denied (deny_cut c i s hash)" and "store_deny j (deny_cut c i s hash) k = (Inr p, u)"
  shows "load_denylist True (files u) = denied u \<and> norm hash \<in> denied u"
proof -
  let ?t = "deny_cut c i s hash"
  have t: "finite (denied ?t)" "\<forall>h \<in> denied ?t. lower_hex64 h" "norm hash \<in> denied ?t"
    using assms(1,3) by (auto simp: deny_cut_def store_ok_defs Let_def norm_valid_lower_hex64)
  from assms(5) show ?thesis
  proof (cases rule: store_deny_cases)
    case (banned q d)
    let ?v = "?t\<lparr>files := d, denied := insert (norm k) (denied ?t)\<rparr>"
    have u: "u = snd (store_purge j ?v (norm k))" using banned by (metis snd_conv)
    have "load_denylist True d = insert (norm k) (denied ?t)"
      using load_written_denylist [OF assms(2)] t banned by (auto simp: norm_valid_lower_hex64)
    moreover have "load_denylist True (files u) = load_denylist True d"
      unfolding u by (rule load_denylist_cong) (simp add: purge_files)
    ultimately show ?thesis using t(3) by (simp add: u)
  qed (use assms(4) in auto)
qed

text \<open>
  A dropped allow fails on the safe side: the hash is allowed until the next start, and the denylist file still
  has it; asking again reports that there was nothing to allow and does not write.
\<close>

lemma dropped_allow_returns:
  assumes "store_ok s" and "norm hash \<in> denied s"
  shows "store_allow j (allow_cut (InWrite w) i s hash) hash = (Inr False, allow_cut (InWrite w) i s hash) \<and>
    norm hash \<in> load_denylist True (files (allow_cut (InWrite w) i s hash))"
  using assms by (simp add: allow_cut_def store_allow_def cut_write_denylist store_ok_defs Let_def)

text \<open>
  C28: a takedown whose handler is dropped while it writes the denylist is forgotten. When the client closes the
  connection at that moment, the hash stays in the set in memory although the file was not rewritten; the retry of
  the takedown then returns success without writing, whichever I/O fails; and after the next start the hash is not
  denied.
\<close>

theorem dropped_takedown_forgotten:
  assumes "store_ok s" and "is_valid_hash (norm hash)" and "norm hash \<notin> denied s"
    and "store_deny j (deny_cut (InWrite w) i s hash) hash = (r, t)" and "clean_listing oi (files t)"
    and "fst (store_open oi (files t)) = Inr s'"
  shows "(\<exists>p. r = Inr p) \<and> norm hash \<in> denied t \<and> norm hash \<notin> denied s'"
proof -
  let ?c = "deny_cut (InWrite w) i s hash"
  have c: "norm hash \<in> denied ?c" "load_denylist True (files ?c) = denied s"
    using assms(1-3) by (simp_all add: deny_cut_def cut_write_denylist store_ok_defs Let_def)
  have t: "r = Inr (fst (store_purge j ?c (norm hash)))" "t = snd (store_purge j ?c (norm hash))"
    using assms(2,4) c(1) by (auto simp: store_deny_def Let_def split: prod.splits)
  have "load_denylist True (files t) = load_denylist True (files ?c)"
    unfolding t(2) by (rule load_denylist_cong) (simp add: purge_files)
  moreover have "denied s' = load_denylist True (files t)" using store_open_clean [OF assms(5)] assms(6) by (metis sum.inject(2))
  ultimately show ?thesis using c assms(3) t by simp
qed

text \<open>On an empty store; the disk then has the temporary file only.\<close>

theorem dropped_takedown_forgotten_witness:
  "\<exists>p t s'. store_deny demo_io (deny_cut (InWrite WOk) demo_io empty_store demo_hash) demo_hash = (Inr p, t) \<and>
     fst (store_open (demo_open [''denylist.txt.tmp'']) (files t)) = Inr s' \<and> demo_hash \<notin> denied s'"
proof -
  obtain r t where t: "store_deny demo_io (deny_cut (InWrite WOk) demo_io empty_store demo_hash) demo_hash = (r, t)" by fastforce
  then have "files t = [''denylist.txt.tmp'' \<mapsto> str_bytes (denylist_body (set_order demo_io {demo_hash}))]"
    by (auto simp: deny_cut_def cut_denylist_def store_deny_def store_purge_def empty_store_def fs_write_def fs_remove_def
        fun_upd_idem_iff Let_def split: if_splits prod.splits)
  then have c: "clean_listing (demo_open [''denylist.txt.tmp'']) (files t)" by (intro demo_open_clean) simp_all
  then obtain s' where s': "fst (store_open (demo_open [''denylist.txt.tmp'']) (files t)) = Inr s'"
    using store_open_clean by metis
  from dropped_takedown_forgotten [OF empty_store_ok _ _ t c s'] s' t show ?thesis by (auto simp: empty_store_def)
qed

end
