(* ===== verification/Http.thy ===== *)
theory Http
  imports Std_Text
begin

text \<open>
  What the code gets from its HTTP client (crate reqwest): a status, an optional content length and a body
  that arrives in chunks, any of which may be an error. The answers are the environment's: \<open>net k url\<close> is the
  answer to the request number \<open>k\<close> of a component, \<open>None\<close> when sending it failed.
\<close>

datatype chunk = ChunkErr | Chunk bytes

record response =
  status :: nat
  content_length :: "u64 option"
  body_chunks :: "chunk list"

definition is_success :: "nat \<Rightarrow> bool" where
  "is_success st \<longleftrightarrow> 200 \<le> st \<and> st < 300"

type_synonym net = "nat \<Rightarrow> string \<Rightarrow> response option"

text \<open>
  The body as the server sent it, when no chunk fails.
\<close>

fun chunk_bytes :: "chunk \<Rightarrow> bytes option" where
  "chunk_bytes ChunkErr = None"
| "chunk_bytes (Chunk c) = Some c"

definition sent_body :: "chunk list \<Rightarrow> bytes option" where
  "sent_body cs = (if ChunkErr \<in> set cs then None else Some (concat (List.map_filter chunk_bytes cs)))"

lemma sent_body_simps [simp]:
  "sent_body [] = Some []"
  "sent_body (ChunkErr # cs) = None"
  "sent_body (Chunk c # cs) = map_option ((@) c) (sent_body cs)"
  by (auto simp: sent_body_def map_filter_simps)

text \<open>
  \<open>r.json()\<close>: the whole body, decoded by serde\_json (a parameter); a transport error and a body that does
  not decode are both an error.
\<close>

definition json_body :: "(bytes \<Rightarrow> 'a option) \<Rightarrow> response \<Rightarrow> 'a option" where
  "json_body decode r = Option.bind (sent_body (body_chunks r)) decode"

end
