(* ===== verification/Chain.thy ===== *)
theory Chain
  imports Http
begin

text \<open>
  The pin set (src/chain.rs): the node's RPC through \<open>Chain::get\<close>, paging through the proposals of every
  domain, and \<open>confirmed_pins\<close>. The JSON decoders are parameters (crates serde and serde\_json), and so are the
  answers of the node, the order in which the concurrent fetches complete and the iteration order of the
  \<open>HashMap\<close>.
\<close>

record pin_item =
  payload_hash :: string
  uri :: string
  height :: u64

record proposal =
  p_payload_hash :: string
  p_uri :: string
  p_height :: u64

record proposals_resp =
  proposals :: "proposal list"
  total_matches :: "u64 option"

record decoders =
  dec_tip :: "bytes \<Rightarrow> u64 option"
  dec_domains :: "bytes \<Rightarrow> string list option"
  dec_proposals :: "bytes \<Rightarrow> proposals_resp option"

datatype rpc_error = RpcSend | RpcStatus nat | RpcDecode

section \<open>RPC\<close>

definition chain_new :: "string \<Rightarrow> string" where
  "chain_new rpc = trim_end_char (CHR ''/'') rpc"

definition chain_get ::
  "(bytes \<Rightarrow> 'a option) \<Rightarrow> string \<Rightarrow> (string \<Rightarrow> response option) \<Rightarrow> string \<Rightarrow> rpc_error + 'a" where
  "chain_get decode rpc answer path =
     (let url = rpc @ path
      in case answer url of
           None \<Rightarrow> Inl RpcSend
         | Some r \<Rightarrow>
             if \<not> is_success (status r) then Inl (RpcStatus (status r))
             else case json_body decode r of None \<Rightarrow> Inl RpcDecode | Some x \<Rightarrow> Inr x)"

definition tip_height :: "decoders \<Rightarrow> string \<Rightarrow> (string \<Rightarrow> response option) \<Rightarrow> rpc_error + u64" where
  "tip_height dec rpc answer = chain_get (dec_tip dec) rpc answer ''/tip''"

section \<open>Percent-encoding\<close>

definition unreserved :: "char \<Rightarrow> bool" where
  "unreserved c \<longleftrightarrow>
     (65 \<le> code c \<and> code c \<le> 90) \<or> (97 \<le> code c \<and> code c \<le> 122) \<or> (48 \<le> code c \<and> code c \<le> 57) \<or>
     c = CHR ''-'' \<or> c = CHR ''_'' \<or> c = CHR ''.'' \<or> c = CHR ''~''"

definition upper_hex :: "nat \<Rightarrow> char" where
  "upper_hex n = char_of (if n < 10 then 48 + n else 55 + n)"

definition urlencode :: "string \<Rightarrow> string" where
  "urlencode s =
     concat (map (\<lambda>c. if unreserved c then [c]
       else [CHR ''%'', upper_hex (code c div 16), upper_hex (code c mod 16)]) s)"

section \<open>Paging\<close>

definition MAX_PAGES :: nat where
  "MAX_PAGES = 200"

definition page_path :: "string \<Rightarrow> u32 \<Rightarrow> u64 \<Rightarrow> string" where
  "page_path domain per_domain offset =
     ''/proposals/'' @ urlencode domain @ ''/'' @ dec_str (unat per_domain) @ ''?offset='' @ dec_str (unat offset)"

text \<open>
  The loop body of one domain: \<open>n\<close> pages may still be fetched, \<open>k\<close> is the number of the next request.
\<close>

fun fetch_pages ::
  "decoders \<Rightarrow> string \<Rightarrow> net \<Rightarrow> string \<Rightarrow> u32 \<Rightarrow> nat \<Rightarrow> nat \<Rightarrow> u64 \<Rightarrow> proposal list \<Rightarrow> proposal list" where
  "fetch_pages dec rpc net d per_domain 0 k offset all = all"
| "fetch_pages dec rpc net d per_domain (Suc n) k offset all =
     (case chain_get (dec_proposals dec) rpc (net k) (page_path d per_domain offset) of
        Inl e \<Rightarrow> all
      | Inr p \<Rightarrow>
          (let got = (of_nat (length (proposals p)) :: u64); all = all @ proposals p
           in if got < ucast per_domain then all
              else case total_matches p of
                None \<Rightarrow> all
              | Some t \<Rightarrow>
                  (let offset = offset + got
                   in if t \<le> offset then all
                      else fetch_pages dec rpc net d per_domain n (Suc k) offset all)))"

definition fetch_domain :: "decoders \<Rightarrow> string \<Rightarrow> net \<Rightarrow> u32 \<Rightarrow> string \<Rightarrow> proposal list" where
  "fetch_domain dec rpc net per_domain d = fetch_pages dec rpc net d per_domain MAX_PAGES 0 0 []"

section \<open>The pin set\<close>

fun collect :: "u64 \<Rightarrow> proposal list \<Rightarrow> (string \<rightharpoonup> pin_item) \<Rightarrow> (string \<rightharpoonup> pin_item)" where
  "collect max_h [] by_hash = by_hash"
| "collect max_h (p # ps) by_hash =
     (if max_h < p_height p then collect max_h ps by_hash
      else
        let h = to_lowercase (p_payload_hash p)
        in collect max_h ps
             (case by_hash h of
                Some _ \<Rightarrow> by_hash
              | None \<Rightarrow> by_hash(h \<mapsto> \<lparr>payload_hash = h, uri = p_uri p, height = p_height p\<rparr>)))"

text \<open>
  The node's answers during one pass, and what the runtime chooses: \<open>answers\<close> for the two single requests,
  \<open>pages i\<close> for the domain number \<open>i\<close>; \<open>arrival\<close> reorders the fetched lists, \<open>visit\<close> enumerates the map.
\<close>

record pass_env =
  answers :: "string \<Rightarrow> response option"
  pages :: "nat \<Rightarrow> net"
  arrival :: "proposal list list \<Rightarrow> proposal list list"
  visit :: "string set \<Rightarrow> string list"

definition fetch_all :: "decoders \<Rightarrow> string \<Rightarrow> pass_env \<Rightarrow> u32 \<Rightarrow> string list \<Rightarrow> proposal list list" where
  "fetch_all dec rpc e per_domain ds =
     arrival e (map (\<lambda>(i, d). fetch_domain dec rpc (pages e i) per_domain d) (List.enumerate 0 ds))"

definition confirmed_pins ::
  "decoders \<Rightarrow> string \<Rightarrow> pass_env \<Rightarrow> u64 \<Rightarrow> u32 \<Rightarrow> rpc_error + pin_item list" where
  "confirmed_pins dec rpc e confirmations per_domain =
     (case tip_height dec rpc (answers e) of
        Inl er \<Rightarrow> Inl er
      | Inr tip \<Rightarrow>
          (let max_h = sat_sub tip confirmations
           in case chain_get (dec_domains dec) rpc (answers e) ''/domains'' of
                Inl er \<Rightarrow> Inl er
              | Inr ds \<Rightarrow>
                  (let fetched = fetch_all dec rpc e per_domain ds;
                       by_hash = collect max_h (concat fetched) Map.empty;
                       out = map (\<lambda>h. the (by_hash h)) (visit e (dom by_hash))
                   in Inr (sort_key height out))))"

text \<open>\<open>buffer_unordered\<close> yields every result once; the map's iterator every entry once.\<close>

definition pass_env_ok :: "pass_env \<Rightarrow> bool" where
  "pass_env_ok e \<longleftrightarrow> (\<forall>xs. set (arrival e xs) = set xs) \<and> hash_iter (visit e)"

section \<open>The pin set is what was confirmed\<close>

lemma finite_collect: "finite (dom m) \<Longrightarrow> finite (dom (collect max_h ps m))"
  by (induction max_h ps m rule: collect.induct) (auto simp: Let_def split: option.splits)

lemma collect_keeps: "m h = Some x \<Longrightarrow> collect max_h ps m h = Some x"
proof (induction max_h ps m rule: collect.induct)
  case (2 max_h p ps m)
  show ?case
  proof (cases "max_h < p_height p")
    case True
    with 2 show ?thesis by simp
  next
    case False
    have "m (to_lowercase (p_payload_hash p)) = None \<Longrightarrow> h \<noteq> to_lowercase (p_payload_hash p)"
      using "2.prems" by auto
    then show ?thesis
      using "2.IH"(2) [OF False refl] "2.prems" False by (simp add: Let_def split: option.splits)
  qed
qed simp

lemma collect_dom:
  "h \<in> dom (collect max_h ps m) \<longleftrightarrow>
     h \<in> dom m \<or> (\<exists>p \<in> set ps. p_height p \<le> max_h \<and> to_lowercase (p_payload_hash p) = h)"
proof (induction max_h ps m rule: collect.induct)
  case (2 max_h p ps m)
  show ?case
  proof (cases "max_h < p_height p")
    case True
    with 2 show ?thesis by (auto simp: not_less [symmetric])
  next
    case False
    with 2 show ?thesis by (auto simp: Let_def split: option.splits)
  qed
qed simp

text \<open>Each entry of the map is a confirmed proposal under its lower-cased hash.\<close>

definition pin_of :: "proposal \<Rightarrow> pin_item" where
  "pin_of p = \<lparr>payload_hash = to_lowercase (p_payload_hash p), uri = p_uri p, height = p_height p\<rparr>"

lemma collect_Some:
  "collect max_h ps m h = Some x \<Longrightarrow>
     m h = Some x \<or> (\<exists>p \<in> set ps. p_height p \<le> max_h \<and> x = pin_of p \<and> payload_hash x = h)"
proof (induction max_h ps m rule: collect.induct)
  case (2 max_h p ps m)
  show ?case
  proof (cases "max_h < p_height p")
    case True
    with 2 show ?thesis by auto
  next
    case False
    with 2 show ?thesis by (auto simp: Let_def pin_of_def split: option.splits if_splits)
  qed
qed simp

text \<open>All proposals of one pass, in the order of the domains.\<close>

definition pass_proposals :: "decoders \<Rightarrow> string \<Rightarrow> pass_env \<Rightarrow> u32 \<Rightarrow> string list \<Rightarrow> proposal set" where
  "pass_proposals dec rpc e per_domain ds =
     (\<Union>i < length ds. set (fetch_domain dec rpc (pages e i) per_domain (ds ! i)))"

lemma set_fetch_all:
  assumes "pass_env_ok e"
  shows "set (concat (fetch_all dec rpc e per_domain ds)) = pass_proposals dec rpc e per_domain ds"
proof -
  have "set (concat (fetch_all dec rpc e per_domain ds)) =
      (\<Union>(i, d) \<in> set (List.enumerate 0 ds). set (fetch_domain dec rpc (pages e i) per_domain d))"
    using assms by (simp add: fetch_all_def pass_env_ok_def case_prod_beta)
  also have "set (List.enumerate 0 ds) = (\<lambda>i. (i, ds ! i)) ` {..<length ds}"
    by (force simp: enumerate_eq_zip set_zip)
  finally show ?thesis by (simp add: pass_proposals_def)
qed

lemma confirmed_pins_Inr:
  assumes "pass_env_ok e" and "confirmed_pins dec rpc e confirmations per_domain = Inr out"
    and "tip_height dec rpc (answers e) = Inr tip"
    and "chain_get (dec_domains dec) rpc (answers e) ''/domains'' = Inr ds"
  shows "sorted (map height out)" and "distinct (map payload_hash out)"
    and "x \<in> set out \<Longrightarrow>
      \<exists>p \<in> pass_proposals dec rpc e per_domain ds. p_height p \<le> sat_sub tip confirmations \<and> x = pin_of p"
    and "p \<in> pass_proposals dec rpc e per_domain ds \<Longrightarrow> p_height p \<le> sat_sub tip confirmations \<Longrightarrow>
      to_lowercase (p_payload_hash p) \<in> payload_hash ` set out"
proof -
  let ?max = "sat_sub tip confirmations" and ?all = "concat (fetch_all dec rpc e per_domain ds)"
  let ?m = "collect ?max ?all Map.empty"
  have all: "set ?all = pass_proposals dec rpc e per_domain ds" using assms(1) by (rule set_fetch_all)
  have fin: "finite (dom ?m)" by (simp add: finite_collect)
  have visit: "set (visit e (dom ?m)) = dom ?m" "distinct (visit e (dom ?m))"
    using assms(1) fin by (simp_all add: pass_env_ok_def set_hash_iter distinct_hash_iter)
  have out: "out = sort_key height (map (\<lambda>h. the (?m h)) (visit e (dom ?m)))"
    using assms(2-4) by (simp add: confirmed_pins_def Let_def)
  have entry: "?m h = Some x \<Longrightarrow> \<exists>p \<in> set ?all. p_height p \<le> ?max \<and> x = pin_of p \<and> payload_hash x = h" for h x
    using collect_Some [of ?max ?all Map.empty h x] by simp
  then have key: "h \<in> dom ?m \<Longrightarrow> payload_hash (the (?m h)) = h" for h by fastforce
  show "sorted (map height out)" by (simp add: out)
  have "map payload_hash (map (\<lambda>h. the (?m h)) (visit e (dom ?m))) = visit e (dom ?m)"
    using visit(1) key by (auto intro: map_idI)
  then have "distinct (map payload_hash (map (\<lambda>h. the (?m h)) (visit e (dom ?m))))" using visit(2) by simp
  then show "distinct (map payload_hash out)" 
    by (simp only: out distinct_map [of payload_hash] distinct_sort set_sort)
  have set_out: "set out = (\<lambda>h. the (?m h)) ` dom ?m" by (simp add: out visit(1))
  show "\<exists>p \<in> pass_proposals dec rpc e per_domain ds. p_height p \<le> ?max \<and> x = pin_of p" if "x \<in> set out"
    using that entry unfolding set_out all [symmetric] by fastforce
  show "to_lowercase (p_payload_hash p) \<in> payload_hash ` set out"
    if "p \<in> pass_proposals dec rpc e per_domain ds" "p_height p \<le> ?max"
  proof -
    have "to_lowercase (p_payload_hash p) \<in> dom ?m"
      using that unfolding collect_dom all by auto
    then show ?thesis using key unfolding set_out by (force simp: image_image)
  qed
qed

section \<open>Paging never skips\<close>

text \<open>
  The node serves each domain newest first; \<open>F k\<close> is the domain's feed when request \<open>k\<close> arrives, and a page
  holds at most \<open>cap\<close> proposals from the offset on, with the number of all matches.
\<close>

definition serves_feed ::
  "decoders \<Rightarrow> string \<Rightarrow> net \<Rightarrow> string \<Rightarrow> u32 \<Rightarrow> nat \<Rightarrow> (nat \<Rightarrow> proposal list) \<Rightarrow> bool" where
  "serves_feed dec rpc net d per_domain cap F \<longleftrightarrow>
     (\<forall>k offset. chain_get (dec_proposals dec) rpc (net k) (page_path d per_domain offset) =
        Inr \<lparr>proposals = take cap (drop (unat offset) (F k)), total_matches = Some (of_nat (length (F k)))\<rparr>)"

text \<open>\<open>covers\<close>: the first part of the initial feed \<open>G\<close>, up to offset \<open>m\<close> of the feed \<open>pre @ G\<close>, was fetched.\<close>

definition covers :: "nat \<Rightarrow> nat \<Rightarrow> 'a list \<Rightarrow> 'a list \<Rightarrow> bool" where
  "covers pre m G all \<longleftrightarrow> (\<forall>i < length G. pre + i < m \<longrightarrow> G ! i \<in> set all)"

lemma covers_page:
  assumes "covers (length pre) m G all"
  shows "covers (length pre) (m + n) G (all @ take n (drop m (pre @ G)))"
  unfolding covers_def
proof (intro allI impI)
  fix i assume i: "i < length G" "length pre + i < m + n"
  show "G ! i \<in> set (all @ take n (drop m (pre @ G)))"
  proof (cases "length pre + i < m")
    case True
    with assms i(1) show ?thesis by (simp add: covers_def)
  next
    case False
    let ?j = "length pre + i - m"
    have j: "?j < n" "m + ?j = length pre + i" using i False by simp_all
    then have "take n (drop m (pre @ G)) ! ?j = (pre @ G) ! (length pre + i)"
      using i(1) by (simp del: drop_append nth_append_length_plus)
    then have "take n (drop m (pre @ G)) ! ?j = G ! i" by simp
    moreover have "?j < length (take n (drop m (pre @ G)))" using i False by simp
    ultimately show ?thesis by (metis Un_iff nth_mem set_append)
  qed
qed

lemma covers_mono: "covers pre m G all \<Longrightarrow> m' - pre' \<le> m - pre \<Longrightarrow> covers pre' m' G all"
  unfolding covers_def by (metis add.commute less_diff_conv order.strict_trans2)

lemma covers_end: "covers pre m G all \<Longrightarrow> pre + length G \<le> m \<Longrightarrow> set G \<subseteq> set all"
  by (auto simp: covers_def in_set_conv_nth)

lemma fetch_pages_no_skip:
  assumes serves: "serves_feed dec rpc net d per (unat per) F"
    and F: "\<And>k. F k = pre k @ G" and mono: "\<And>k. length (pre k) \<le> length (pre (Suc k))"
    and bound: "\<And>k. k \<le> n0 \<Longrightarrow> length (F k) \<le> n0 * unat per" and small: "n0 \<le> 2 ^ 32"
  shows "n + k = n0 \<Longrightarrow> unat offset = k * unat per \<Longrightarrow> covers (length (pre k)) (k * unat per) G all
    \<Longrightarrow> set G \<subseteq> set (fetch_pages dec rpc net d per n k offset all)"
proof (induction n arbitrary: k offset all)
  case 0
  then show ?case using bound [of k] F [of k] by (simp add: covers_end)
next
  case (Suc n)
  let ?p = "unat per" and ?page = "take (unat per) (drop (k * unat per) (F k))"
  let ?all = "all @ ?page"
  have cov: "covers (length (pre k)) (k * ?p + ?p) G ?all"
    unfolding F by (rule covers_page) (rule Suc.prems(3))
  have per: "?p < 2 ^ 32" using unsigned_less [of per] by simp
  have "n0 * ?p \<le> 2 ^ 32 * (2 ^ 32 - 1)" using per small by (intro mult_le_mono) auto
  then have b: "n0 * ?p < 2 ^ 64" by simp
  have kp: "k * ?p + ?p \<le> n0 * ?p" using Suc.prems(1) mult_le_mono1 [of "Suc k" n0 ?p] by simp
  have lenF: "length (F k) < 2 ^ 64" using bound [of k] Suc.prems(1) b by simp
  have page: "length ?page < 2 ^ 64" "unat (of_nat (length ?page) :: u64) = length ?page"
    using lenF by (simp_all add: unat_of_nat_u64)
  have u: "unat (ucast per :: u64) = ?p"
    using per by (simp add: unsigned_ucast_eq take_bit_nat_eq_self)
  show ?case
  proof (cases "length ?page < ?p")
    case True
    then have "(of_nat (length ?page) :: u64) < ucast per"
      using page u by (simp add: word_less_nat_alt)
    moreover have "set G \<subseteq> set ?all"
      using True F [of k] by (intro covers_end [OF cov]) auto
    ultimately show ?thesis
      using serves Suc.prems(2) by (simp add: serves_feed_def Let_def)
  next
    case False
    then have full: "length ?page = ?p" by simp
    then have got: "(of_nat (length ?page) :: u64) = ucast per"
      using page u by (simp add: word_unat_eq_iff)
    have off: "unat (offset + ucast per) = k * ?p + ?p"
      using kp b u Suc.prems(2) by (simp add: unat_word_ariths)
    show ?thesis
    proof (cases "length (F k) \<le> k * ?p + ?p")
      case True
      then have "(of_nat (length (F k)) :: u64) \<le> offset + ucast per"
        using lenF off by (simp add: word_le_nat_alt unat_of_nat_u64)
      moreover have "set G \<subseteq> set ?all" using True F [of k] by (intro covers_end [OF cov]) simp
      ultimately show ?thesis
        using serves Suc.prems(2) got by (simp add: serves_feed_def Let_def)
    next
      case False
      then have "\<not> (of_nat (length (F k)) :: u64) \<le> offset + ucast per"
        using lenF off by (simp add: word_le_nat_alt unat_of_nat_u64)
      moreover have "covers (length (pre (Suc k))) (Suc k * ?p) G ?all"
        by (rule covers_mono [OF cov]) (use mono [of k] in \<open>simp add: diff_le_mono2 add.commute\<close>)
      then have "set G \<subseteq> set (fetch_pages dec rpc net d per n (Suc k) (offset + ucast per) ?all)"
        using Suc.prems(1) off by (intro Suc.IH) simp_all
      ultimately show ?thesis
        using serves Suc.prems(2) got by (simp add: serves_feed_def Let_def)
    qed
  qed
qed

end
