(* ===== verification/Ip_Addr.thy ===== *)
theory Ip_Addr
  imports Std_Text
begin

unbundle bit_operations_syntax

text \<open>
  \<open>std::net\<close> as far as acquire.rs uses it: the address types, their classification methods, and
  \<open>IpAddr::from_str\<close>, written after the recursive-descent parser of the standard library. A reader takes
  the remaining text and returns a value with what is left of it; \<open>None\<close> consumes nothing.
\<close>

section \<open>Addresses\<close>

datatype ipv4 = Ipv4 u8 u8 u8 u8
datatype ipv6 = Ipv6 u16 u16 u16 u16 u16 u16 u16 u16
datatype ip_addr = V4 ipv4 | V6 ipv6

fun octets :: "ipv4 \<Rightarrow> u8 list" where
  "octets (Ipv4 a b c d) = [a, b, c, d]"

fun v4_is_private :: "ipv4 \<Rightarrow> bool" where
  "v4_is_private (Ipv4 a b c d) \<longleftrightarrow>
     a = 10 \<or> (a = 172 \<and> 16 \<le> b \<and> b \<le> 31) \<or> (a = 192 \<and> b = 168)"

fun v4_is_loopback :: "ipv4 \<Rightarrow> bool" where
  "v4_is_loopback (Ipv4 a b c d) \<longleftrightarrow> a = 127"

fun v4_is_link_local :: "ipv4 \<Rightarrow> bool" where
  "v4_is_link_local (Ipv4 a b c d) \<longleftrightarrow> a = 169 \<and> b = 254"

fun v4_is_unspecified :: "ipv4 \<Rightarrow> bool" where
  "v4_is_unspecified (Ipv4 a b c d) \<longleftrightarrow> a = 0 \<and> b = 0 \<and> c = 0 \<and> d = 0"

fun v4_is_multicast :: "ipv4 \<Rightarrow> bool" where
  "v4_is_multicast (Ipv4 a b c d) \<longleftrightarrow> 224 \<le> a \<and> a \<le> 239"

fun v4_is_broadcast :: "ipv4 \<Rightarrow> bool" where
  "v4_is_broadcast (Ipv4 a b c d) \<longleftrightarrow> a = 255 \<and> b = 255 \<and> c = 255 \<and> d = 255"

fun v6_is_loopback :: "ipv6 \<Rightarrow> bool" where
  "v6_is_loopback (Ipv6 a b c d e f g h) \<longleftrightarrow>
     a = 0 \<and> b = 0 \<and> c = 0 \<and> d = 0 \<and> e = 0 \<and> f = 0 \<and> g = 0 \<and> h = 1"

fun v6_is_unspecified :: "ipv6 \<Rightarrow> bool" where
  "v6_is_unspecified (Ipv6 a b c d e f g h) \<longleftrightarrow>
     a = 0 \<and> b = 0 \<and> c = 0 \<and> d = 0 \<and> e = 0 \<and> f = 0 \<and> g = 0 \<and> h = 0"

fun v6_is_multicast :: "ipv6 \<Rightarrow> bool" where
  "v6_is_multicast (Ipv6 a b c d e f g h) \<longleftrightarrow> a AND 0xff00 = 0xff00"

text \<open>The IPv4 address in two segments, most significant octet first.\<close>

definition v4_of_segments :: "u16 \<Rightarrow> u16 \<Rightarrow> ipv4" where
  "v4_of_segments g h =
     Ipv4 (ucast (drop_bit 8 g)) (ucast (g AND 0xff)) (ucast (drop_bit 8 h)) (ucast (h AND 0xff))"

fun to_ipv4_mapped :: "ipv6 \<Rightarrow> ipv4 option" where
  "to_ipv4_mapped (Ipv6 a b c d e f g h) =
     (if a = 0 \<and> b = 0 \<and> c = 0 \<and> d = 0 \<and> e = 0 \<and> f = 0xffff then Some (v4_of_segments g h) else None)"

section \<open>Parsing\<close>

definition to_digit :: "nat \<Rightarrow> char \<Rightarrow> nat option" where
  "to_digit radix c =
     (let v = (if 48 \<le> code c \<and> code c \<le> 57 then code c - 48
               else if 97 \<le> code c \<and> code c \<le> 122 then code c - 87
               else if 65 \<le> code c \<and> code c \<le> 90 then code c - 55 else 36)
      in if v < radix then Some v else None)"

text \<open>
  \<open>read_number\<close> with a maximal number of digits: all digits that follow are read, too many or none fail, and
  so does a leading zero where it is not allowed and a value above the type's maximum.
\<close>

definition read_number :: "nat \<Rightarrow> nat \<Rightarrow> bool \<Rightarrow> nat \<Rightarrow> string \<Rightarrow> (nat \<times> string) option" where
  "read_number radix max_digits zero_prefix max_val s =
     (let ds = takeWhile (\<lambda>c. to_digit radix c \<noteq> None) s;
          v = foldl (\<lambda>n c. radix * n + the (to_digit radix c)) 0 ds
      in if max_digits < length ds \<or> ds = [] then None
         else if \<not> zero_prefix \<and> hd ds = CHR ''0'' \<and> 1 < length ds then None
         else if max_val < v then None
         else Some (v, drop (length ds) s))"

definition read_given_char :: "char \<Rightarrow> string \<Rightarrow> string option" where
  "read_given_char c s = (case s of d # t \<Rightarrow> (if d = c then Some t else None) | [] \<Rightarrow> None)"

definition read_octet :: "string \<Rightarrow> (u8 \<times> string) option" where
  "read_octet s = map_option (\<lambda>(n, t). (of_nat n, t)) (read_number 10 3 False 255 s)"

definition read_segment :: "string \<Rightarrow> (u16 \<times> string) option" where
  "read_segment s = map_option (\<lambda>(n, t). (of_nat n, t)) (read_number 16 4 True 65535 s)"

definition read_ipv4 :: "string \<Rightarrow> (ipv4 \<times> string) option" where
  "read_ipv4 s =
     Option.bind (read_octet s) (\<lambda>(a, s). Option.bind (read_given_char (CHR ''.'') s) (\<lambda>s.
     Option.bind (read_octet s) (\<lambda>(b, s). Option.bind (read_given_char (CHR ''.'') s) (\<lambda>s.
     Option.bind (read_octet s) (\<lambda>(c, s). Option.bind (read_given_char (CHR ''.'') s) (\<lambda>s.
     Option.bind (read_octet s) (\<lambda>(d, s). Some (Ipv4 a b c d, s))))))))"

definition read_separated :: "bool \<Rightarrow> (string \<Rightarrow> ('a \<times> string) option) \<Rightarrow> string \<Rightarrow> ('a \<times> string) option" where
  "read_separated first r s = (if first then r s else Option.bind (read_given_char (CHR '':'') s) r)"

fun segments_of_v4 :: "ipv4 \<Rightarrow> u16 list" where
  "segments_of_v4 (Ipv4 a b c d) =
     [push_bit 8 (ucast a) OR ucast b, push_bit 8 (ucast c) OR ucast d]"

text \<open>
  Up to \<open>n\<close> colon-separated segments, with an embedded IPv4 address allowed while two slots are left; the
  flag says whether one was read.
\<close>

fun read_groups :: "nat \<Rightarrow> bool \<Rightarrow> string \<Rightarrow> u16 list \<times> bool \<times> string" where
  "read_groups 0 first s = ([], False, s)"
| "read_groups (Suc k) first s =
     (case (if 0 < k then read_separated first read_ipv4 s else None) of
        Some (a, t) \<Rightarrow> (segments_of_v4 a, True, t)
      | None \<Rightarrow>
          (case read_separated first read_segment s of
             Some (g, t) \<Rightarrow> (case read_groups k False t of (gs, e, u) \<Rightarrow> (g # gs, e, u))
           | None \<Rightarrow> ([], False, s)))"

fun ipv6_of_list :: "u16 list \<Rightarrow> ipv6 option" where
  "ipv6_of_list [a, b, c, d, e, f, g, h] = Some (Ipv6 a b c d e f g h)"
| "ipv6_of_list _ = None"

definition read_ipv6 :: "string \<Rightarrow> (ipv6 \<times> string) option" where
  "read_ipv6 s =
     (case read_groups 8 True s of (hd_gs, hd_v4, s1) \<Rightarrow>
        if length hd_gs = 8 then map_option (\<lambda>a. (a, s1)) (ipv6_of_list hd_gs)
        else if hd_v4 then None
        else Option.bind (read_given_char (CHR '':'') s1) (\<lambda>s2.
             Option.bind (read_given_char (CHR '':'') s2) (\<lambda>s3.
             case read_groups (8 - (length hd_gs + 1)) True s3 of (tl_gs, _, s4) \<Rightarrow>
               map_option (\<lambda>a. (a, s4))
                 (ipv6_of_list (hd_gs @ replicate (8 - length hd_gs - length tl_gs) 0 @ tl_gs)))))"

text \<open>The whole text must be an address; IPv4 is tried first.\<close>

definition parse_ip :: "string \<Rightarrow> ip_addr option" where
  "parse_ip s =
     (case read_ipv4 s of
        Some (a, t) \<Rightarrow> if t = [] then Some (V4 a) else None
      | None \<Rightarrow>
          (case read_ipv6 s of
             Some (a, t) \<Rightarrow> if t = [] then Some (V6 a) else None
           | None \<Rightarrow> None))"

section \<open>A printed IPv4 address parses back\<close>

definition v4_str :: "ipv4 \<Rightarrow> string" where
  "v4_str a = join_str ''.'' (map (\<lambda>x. dec_str (unat x)) (octets a))"

lemma to_digit_10: "to_digit 10 c = (if is_digit c then Some (digit_val c) else None)"
  by (auto simp: to_digit_def is_digit_def digit_val_def Let_def)

lemma foldl_digits:
  "list_all is_digit ds \<Longrightarrow> foldl (\<lambda>n c. 10 * n + the (to_digit 10 c)) k ds = foldl (\<lambda>n c. 10 * n + digit_val c) k ds"
  by (induction ds arbitrary: k) (simp_all add: to_digit_10)

lemma dec_str_octet: "n < 256 \<Longrightarrow> length (dec_str n) \<le> 3 \<and> (1 < length (dec_str n) \<longrightarrow> hd (dec_str n) \<noteq> CHR ''0'')"
proof -
  assume n: "n < 256"
  consider "n < 10" | "10 \<le> n" "n < 100" | "100 \<le> n" by linarith
  then show ?thesis
  proof cases
    case 1
    then show ?thesis by (simp add: dec_str.simps)
  next
    case 2
    then have "dec_str n = [char_of (48 + n div 10), char_of (48 + n mod 10)]"
      by (simp add: dec_str.simps [of n] dec_str.simps [of "n div 10"])
    moreover have "char_of (48 + n div 10) \<noteq> CHR ''0''"
      using 2 by (simp add: char_of_eq_iff take_bit_eq_mod)
    ultimately show ?thesis by simp
  next
    case 3
    have "n div 10 div 10 < 10" "\<not> n div 10 < 10" using 3 n by simp_all
    then have "dec_str n = [char_of (48 + n div 10 div 10), char_of (48 + n div 10 mod 10), char_of (48 + n mod 10)]"
      using 3 by (simp add: dec_str.simps [of n] dec_str.simps [of "n div 10"] dec_str.simps [of "n div 10 div 10"])
    moreover have "char_of (48 + n div 10 div 10) \<noteq> CHR ''0''"
      using 3 n by (simp add: char_of_eq_iff take_bit_eq_mod)
    ultimately show ?thesis by simp
  qed
qed

lemma read_octet_dec_str:
  assumes "t = [] \<or> \<not> is_digit (hd t)"
  shows "read_octet (dec_str (unat x) @ t) = Some (x, t)"
proof -
  let ?d = "dec_str (unat x)"
  have x: "unat x < 256" using unsigned_less [of x] by simp
  have d: "?d \<noteq> []" "list_all is_digit ?d" "digits_val ?d = unat x"
    using dec_str_digits [of "unat x"] by simp_all
  have "takeWhile (\<lambda>c. to_digit 10 c \<noteq> None) (?d @ t) = ?d"
    using d(2) assms by (cases t) (auto simp: to_digit_10 list_all_iff takeWhile_append)
  moreover have "foldl (\<lambda>n c. 10 * n + the (to_digit 10 c)) 0 ?d = unat x"
    using d(2,3) by (simp add: foldl_digits digits_val_def)
  ultimately show ?thesis
    using d(1) dec_str_octet [OF x] x by (auto simp: read_octet_def read_number_def Let_def)
qed

lemma not_digit_dot: "\<not> is_digit (CHR ''.'')"
  by (simp add: is_digit_def)

lemma read_ipv4_v4_str: "read_ipv4 (v4_str a) = Some (a, [])"
proof (cases a)
  case (Ipv4 p q r s)
  have dot: "read_octet (dec_str (unat x) @ CHR ''.'' # t) = Some (x, CHR ''.'' # t)" for x t
    using read_octet_dec_str [of "CHR ''.'' # t" x] not_digit_dot by simp
  have last: "read_octet (dec_str (unat x)) = Some (x, [])" for x
    using read_octet_dec_str [of "[]" x] by simp
  show ?thesis
    by (simp add: Ipv4 v4_str_def read_ipv4_def dot last read_given_char_def)
qed

lemma parse_ip_v4_str: "parse_ip (v4_str a) = Some (V4 a)"
  by (simp add: parse_ip_def read_ipv4_v4_str)

end
