(* ===== verification/Acquire.thy ===== *)
theory Acquire
  imports Content_Hash Ip_Addr Http
begin

unbundle bit_operations_syntax

text \<open>
  Fetching and verifying content (src/acquire.rs): the SSRF guard on untrusted URLs, the size-capped
  streaming download, the loop over candidate URLs, and the list of candidates. \<open>reqwest\<close> is a parameter:
  its URL parser as a function \<open>url_parse\<close>, and the answers it gets as the function \<open>net\<close> from the number
  of the request and its URL to a response (\<open>None\<close> when sending failed).
\<close>

section \<open>The SSRF guard\<close>

record url_parts =
  scheme :: string
  host_str :: "string option"

function ip_is_public :: "ip_addr \<Rightarrow> bool" where
  "ip_is_public (V4 a) =
     (let ov = octets a
      in \<not> (v4_is_private a \<or> v4_is_loopback a \<or> v4_is_link_local a \<or> v4_is_unspecified a \<or>
            v4_is_multicast a \<or> v4_is_broadcast a \<or> ov ! 0 = 0 \<or>
            (ov ! 0 = 100 \<and> 64 \<le> ov ! 1 \<and> ov ! 1 \<le> 127) \<or>
            (ov ! 0 = 192 \<and> ov ! 1 = 0 \<and> ov ! 2 = 0)))"
| "ip_is_public (V6 (Ipv6 s0 s1 s2 s3 s4 s5 s6 s7)) =
     (let a = Ipv6 s0 s1 s2 s3 s4 s5 s6 s7;
          embedded_ok =
            (if s0 = 0x0064 \<and> s1 = 0xff9b \<and> s2 = 0 \<and> s3 = 0 \<and> s4 = 0 \<and> s5 = 0
             then ip_is_public (V4 (Ipv4 (ucast (drop_bit 8 s6)) (ucast (s6 AND 0xff))
                    (ucast (drop_bit 8 s7)) (ucast (s7 AND 0xff))))
             else if s0 = 0x2002
             then ip_is_public (V4 (Ipv4 (ucast (drop_bit 8 s1)) (ucast (s1 AND 0xff))
                    (ucast (drop_bit 8 s2)) (ucast (s2 AND 0xff))))
             else True)
      in embedded_ok \<and>
         \<not> (v6_is_loopback a \<or> v6_is_unspecified a \<or> v6_is_multicast a \<or>
            s0 AND 0xfe00 = 0xfc00 \<or> s0 AND 0xffc0 = 0xfe80 \<or>
            (case to_ipv4_mapped a of Some v4 \<Rightarrow> \<not> ip_is_public (V4 v4) | None \<Rightarrow> False)))"
  by pat_completeness auto
termination
  by (relation "measure (\<lambda>a. case a of V4 _ \<Rightarrow> 0 | V6 _ \<Rightarrow> 1)") simp_all

definition host_is_public :: "(string \<Rightarrow> url_parts option) \<Rightarrow> string \<Rightarrow> bool" where
  "host_is_public url_parse url =
     (case url_parse url of
        None \<Rightarrow> False
      | Some u \<Rightarrow>
          if scheme u \<noteq> ''http'' \<and> scheme u \<noteq> ''https'' then False
          else case host_str u of
            None \<Rightarrow> False
          | Some host \<Rightarrow>
              let h = trim_end_char (CHR '']'') (trim_start_char (CHR ''['') host)
              in case parse_ip h of
                   Some ip \<Rightarrow> ip_is_public ip
                 | None \<Rightarrow>
                     let hl = to_lowercase host
                     in \<not> (hl = ''localhost'' \<or> ends_with hl ''.localhost'' \<or> ends_with hl ''.local'' \<or>
                           ends_with hl ''.internal'' \<or> hl = ''metadata.google.internal''))"

section \<open>Downloading with a size cap\<close>

datatype fetch_error =
  SendFailed | HttpStatus nat | ContentLengthOver u64 usize | ChunkFailed | BodyOver usize

fun read_body :: "usize \<Rightarrow> chunk list \<Rightarrow> bytes \<Rightarrow> fetch_error + bytes" where
  "read_body m [] out = Inr out"
| "read_body m (ChunkErr # cs) out = Inl ChunkFailed"
| "read_body m (Chunk c # cs) out =
     (if unat m < length out + length c then Inl (BodyOver m) else read_body m cs (out @ c))"

definition fetch_capped :: "usize \<Rightarrow> response option \<Rightarrow> fetch_error + bytes" where
  "fetch_capped max_bytes resp =
     (case resp of
        None \<Rightarrow> Inl SendFailed
      | Some r \<Rightarrow>
          if \<not> is_success (status r) then Inl (HttpStatus (status r))
          else case content_length r of
            Some len \<Rightarrow> (if max_bytes < len then Inl (ContentLengthOver len max_bytes)
                         else read_body max_bytes (body_chunks r) [])
          | None \<Rightarrow> read_body max_bytes (body_chunks r) [])"

section \<open>The acquire loop\<close>

datatype acquire_error = NoCandidates | HashMismatch string string | FetchFailed string fetch_error

fun acquire_loop ::
  "crypto \<Rightarrow> net \<Rightarrow> nat \<Rightarrow> string \<Rightarrow> usize \<Rightarrow> string list \<Rightarrow> acquire_error \<Rightarrow> acquire_error + bytes" where
  "acquire_loop c net k want m [] last_err = Inl last_err"
| "acquire_loop c net k want m (url # urls) last_err =
     (case fetch_capped m (net k url) of
        Inr b \<Rightarrow>
          (let got = sha256_hex c b
           in if got = want then Inr b
              else acquire_loop c net (Suc k) want m urls (HashMismatch url got))
      | Inl e \<Rightarrow> acquire_loop c net (Suc k) want m urls (FetchFailed url e))"

definition acquire :: "crypto \<Rightarrow> net \<Rightarrow> string \<Rightarrow> string list \<Rightarrow> usize \<Rightarrow> acquire_error + bytes" where
  "acquire c net hash urls max_bytes = acquire_loop c net 0 (acq_norm hash) max_bytes urls NoCandidates"

definition candidate_urls ::
  "(string \<Rightarrow> url_parts option) \<Rightarrow> string \<Rightarrow> string \<Rightarrow> string \<Rightarrow> bool \<Rightarrow> string list" where
  "candidate_urls url_parse origin hash uri follow_uri_hints =
     [trim_end_char (CHR ''/'') origin @ ''/content/'' @ hash] @
     (if follow_uri_hints \<and> (starts_with uri ''http://'' \<or> starts_with uri ''https://'') \<and>
         host_is_public url_parse uri
      then [uri] else [])"

section \<open>What a download returns\<close>

lemma read_body_Inr_iff:
  "length out \<le> unat m \<Longrightarrow>
    read_body m cs out = Inr b \<longleftrightarrow> (\<exists>t. sent_body cs = Some t \<and> b = out @ t \<and> length b \<le> unat m)"
proof (induction m cs out rule: read_body.induct)
  case (3 m c cs out)
  then show ?case by (cases "sent_body cs") auto
qed auto

lemma fetch_capped_Inr_iff:
  "fetch_capped m resp = Inr b \<longleftrightarrow>
     (\<exists>r. resp = Some r \<and> is_success (status r) \<and> sent_body (body_chunks r) = Some b \<and>
        length b \<le> unat m \<and> (\<forall>n. content_length r = Some n \<longrightarrow> n \<le> m))"
  by (auto simp: fetch_capped_def read_body_Inr_iff not_less split: option.splits)

text \<open>The loop stops at the first chunk past the cap, whatever comes after it.\<close>

lemma read_body_abort:
  "length out \<le> unat m \<Longrightarrow> sent_body cs = Some t \<Longrightarrow> unat m < length out + length t
    \<Longrightarrow> read_body m (cs @ rest) out = Inl (BodyOver m)"
proof (induction m cs out arbitrary: t rule: read_body.induct)
  case (3 m c cs out)
  then show ?case by (cases "sent_body cs") auto
qed auto

section \<open>Verified sources\<close>

text \<open>
  A source of content bytes for a request: whatever it delivers hashes to what was asked for and fits the
  size cap. Falling back from one such source to another is such a source again.
\<close>

locale verified_source =
  fixes c :: crypto
    and want :: "'q \<Rightarrow> string"
    and cap :: "'q \<Rightarrow> nat"
    and fetch :: "'q \<Rightarrow> bytes option"
  assumes fetch_verified: "fetch q = Some b \<Longrightarrow> sha256_hex c b = want q"
    and fetch_capped: "fetch q = Some b \<Longrightarrow> length b \<le> cap q"

locale fallback_source =
  first: verified_source c want cap f + second: verified_source c want cap g
  for c :: crypto and want :: "'q \<Rightarrow> string" and cap :: "'q \<Rightarrow> nat"
    and f :: "'q \<Rightarrow> bytes option" and g :: "'q \<Rightarrow> bytes option"
begin

lemma either_sound:
  "(case f q of Some b \<Rightarrow> Some b | None \<Rightarrow> g q) = Some b \<Longrightarrow> sha256_hex c b = want q \<and> length b \<le> cap q"
  by (auto split: option.splits dest: first.fetch_verified first.fetch_capped
      second.fetch_verified second.fetch_capped)

end

text \<open>\<open>verifies\<close>: the answer to one request is acceptable for the wanted hash.\<close>

definition verifies :: "crypto \<Rightarrow> string \<Rightarrow> usize \<Rightarrow> response option \<Rightarrow> bytes \<Rightarrow> bool" where
  "verifies c want m resp b \<longleftrightarrow> fetch_capped m resp = Inr b \<and> sha256_hex c b = want"

lemma ex_first_Suc:
  "(\<exists>j < Suc n. P j \<and> (\<forall>i < j. Q i)) \<longleftrightarrow> P 0 \<or> Q 0 \<and> (\<exists>j < n. P (Suc j) \<and> (\<forall>i < j. Q (Suc i)))"
  unfolding Ex_less_Suc2 All_less_Suc2 by auto

lemma acquire_loop_Inr_iff:
  "acquire_loop c net k want m urls e = Inr b \<longleftrightarrow>
     (\<exists>j < length urls. verifies c want m (net (k + j) (urls ! j)) b \<and>
        (\<forall>i < j. \<forall>b'. \<not> verifies c want m (net (k + i) (urls ! i)) b'))"
proof (induction urls arbitrary: k e)
  case Nil
  then show ?case by simp
next
  case (Cons url urls)
  let ?v = "verifies c want m"
  have shift: "(\<exists>j < length (url # urls). ?v (net (k + j) ((url # urls) ! j)) b \<and>
        (\<forall>i < j. \<forall>b'. \<not> ?v (net (k + i) ((url # urls) ! i)) b'))
      \<longleftrightarrow> ?v (net k url) b \<or> (\<forall>b'. \<not> ?v (net k url) b') \<and>
        (\<exists>j < length urls. ?v (net (Suc k + j) (urls ! j)) b \<and>
          (\<forall>i < j. \<forall>b'. \<not> ?v (net (Suc k + i) (urls ! i)) b'))"
    using ex_first_Suc [of "length urls" "\<lambda>j. ?v (net (k + j) ((url # urls) ! j)) b"
        "\<lambda>i. \<forall>b'. \<not> ?v (net (k + i) ((url # urls) ! i)) b'"] by simp
  show ?case
    unfolding shift using Cons.IH
    by (auto simp: verifies_def Let_def split: sum.splits)
qed

lemma acquire_Inr_iff:
  "acquire c net hash urls m = Inr b \<longleftrightarrow>
     (\<exists>j < length urls. verifies c (norm hash) m (net j (urls ! j)) b \<and>
        (\<forall>i < j. \<forall>b'. \<not> verifies c (norm hash) m (net i (urls ! i)) b'))"
  by (simp add: acquire_def acquire_loop_Inr_iff)

definition ok_bytes :: "'e + 'a \<Rightarrow> 'a option" where
  "ok_bytes r = (case r of Inr b \<Rightarrow> Some b | Inl _ \<Rightarrow> None)"

lemma ok_bytes_Some [simp]: "ok_bytes r = Some b \<longleftrightarrow> r = Inr b"
  by (simp add: ok_bytes_def split: sum.splits)

lemma ok_bytes_simps [simp]: "ok_bytes (Inr b) = Some b" "ok_bytes (Inl e) = None"
  by (simp_all add: ok_bytes_def)

text \<open>A request to \<open>acquire\<close>: the network, the hash, the candidate URLs and the size cap.\<close>

interpretation acquire_source: verified_source c
    "\<lambda>(net :: net, hash, urls :: string list, m :: usize). norm hash"
    "\<lambda>(net, hash, urls, m). unat m"
    "\<lambda>(net, hash, urls, m). ok_bytes (acquire c net hash urls m)"
  for c :: crypto
  by unfold_locales (auto simp: acquire_Inr_iff verifies_def fetch_capped_Inr_iff)

end
