(* ===== verification/Discovery.thy ===== *)
theory Discovery
  imports Acquire
begin

text \<open>
  The two registries an L2 indexer resolves: content gateways (src/gateways.rs, URL templates that are
  expanded per payload) and swarm entry peers (src/peers.rs, multiaddresses to dial). The JSON decoders and
  libp2p's multiaddress parser are parameters; \<open>answer\<close> is the network's answer to a URL.
\<close>

section \<open>Gateways\<close>

record ranked_gateway =
  gw_url :: string

text \<open>\<open>r.json().await.unwrap_or_default()\<close>, on the answer of a request.\<close>

definition json_or_default :: "(bytes \<Rightarrow> 'a list option) \<Rightarrow> response \<Rightarrow> 'a list" where
  "json_or_default decode r = (case json_body decode r of Some xs \<Rightarrow> xs | None \<Rightarrow> [])"

definition gateways_discover ::
  "(bytes \<Rightarrow> ranked_gateway list option) \<Rightarrow> (string \<Rightarrow> response option) \<Rightarrow> string \<Rightarrow> string list" where
  "gateways_discover decode answer indexer_base =
     (let u = trim_end_char (CHR ''/'') indexer_base @ ''/registry/gateways''
      in case answer u of
           Some r \<Rightarrow>
             if is_success (status r) then
               filter (\<lambda>u. contains_str u ''{hash}'' \<and> (starts_with u ''http://'' \<or> starts_with u ''https://''))
                 (map gw_url (json_or_default decode r))
             else []
         | None \<Rightarrow> [])"

definition expand :: "(string \<Rightarrow> url_parts option) \<Rightarrow> string list \<Rightarrow> string \<Rightarrow> string list" where
  "expand url_parse templates hash =
     (let bare = trim_start_str ''0x'' hash
      in filter (host_is_public url_parse) (map (replace_str ''{hash}'' bare) templates))"

section \<open>Peers\<close>

record ranked_peer =
  peer_id :: string
  multiaddrs :: "string list"

definition dial_addr :: "string \<Rightarrow> string \<Rightarrow> string" where
  "dial_addr pid ma =
     (if contains_str ma ''/p2p/'' then ma else trim_end_char (CHR ''/'') ma @ ''/p2p/'' @ pid)"

fun dial_addrs :: "(string \<Rightarrow> 'm option) \<Rightarrow> string \<Rightarrow> ranked_peer list \<Rightarrow> 'm list" where
  "dial_addrs parse self [] = []"
| "dial_addrs parse self (p # ps) =
     (if peer_id p = self \<or> peer_id p = [] then dial_addrs parse self ps
      else List.map_filter (\<lambda>ma. parse (dial_addr (peer_id p) ma)) (multiaddrs p) @ dial_addrs parse self ps)"

definition peers_discover ::
  "(string \<Rightarrow> 'm option) \<Rightarrow> (bytes \<Rightarrow> ranked_peer list option) \<Rightarrow> (string \<Rightarrow> response option)
     \<Rightarrow> string \<Rightarrow> string \<Rightarrow> 'm list" where
  "peers_discover parse decode answer indexer_base self_peer_id =
     (if indexer_base = [] then []
      else
        let u = trim_end_char (CHR ''/'') indexer_base @ ''/registry/peers''
        in case answer u of
             Some r \<Rightarrow>
               if is_success (status r) then dial_addrs parse self_peer_id (json_or_default decode r) else []
           | None \<Rightarrow> [])"

section \<open>Templates\<close>

text \<open>The text a template gives contains the bare hash, and nothing of the template's own is lost.\<close>

lemma replace_str_contains:
  "p \<noteq> [] \<Longrightarrow> contains_str s p \<Longrightarrow> contains_str (replace_str p r s) r"
proof (induction p r s rule: replace_str.induct)
  case (1 p r s)
  show ?case
  proof (cases "starts_with s p")
    case True
    then obtain t where "s = p @ t" by (auto simp: starts_with_iff)
    with 1 show ?thesis by (auto simp: replace_str_match contains_str_iff intro: exI [of _ "[]"])
  next
    case False
    with 1 obtain c t where s: "s = c # t" and "contains_str t p"
      by (cases s) (auto simp: starts_with_def)
    with 1 False have "contains_str (replace_str p r t) r" by simp
    then show ?thesis using False
      by (auto simp: s replace_str_skip contains_str_iff) (metis append_Cons)
  qed
qed

lemma replace_str_once:
  assumes "p \<noteq> []" and "\<not> contains_str (a @ butlast p) p" and "\<not> contains_str b p"
  shows "replace_str p r (a @ p @ b) = a @ r @ b"
  using assms(2)
proof (induction a)
  case Nil
  with assms show ?case by (simp add: replace_str_match replace_str_absent)
next
  case (Cons c a)
  have "\<not> starts_with (c # a @ p @ b) p"
  proof
    assume "starts_with (c # a @ p @ b) p"
    then have "take (length p) (c # a @ p @ b) = p" by (simp add: starts_with_def)
    moreover have "take (length p) (c # a @ p @ b) = take (length p) (c # a @ butlast p)"
      using assms(1) by (cases p rule: rev_cases) auto
    ultimately have "starts_with (c # a @ butlast p) p" by (simp add: starts_with_def)
    with Cons.prems show False by simp
  qed
  with Cons show ?case by (simp add: replace_str_skip)
qed

lemma trim_start_0x: "\<not> starts_with h ''0x'' \<Longrightarrow> trim_start_str ''0x'' (''0x'' @ h) = h"
  by (subst trim_start_str.simps) (simp add: starts_with_def trim_start_str_stop)

lemma gateways_discover_template:
  "u \<in> set (gateways_discover decode answer base) \<Longrightarrow>
    contains_str u ''{hash}'' \<and> (starts_with u ''http://'' \<or> starts_with u ''https://'')"
  by (auto simp: gateways_discover_def Let_def split: option.splits if_splits)

lemma expand_public: "u \<in> set (expand url_parse ts hash) \<Longrightarrow> host_is_public url_parse u"
  by (simp add: expand_def Let_def)

lemma expand_names_hash:
  assumes "u \<in> set (expand url_parse (gateways_discover decode answer base) hash)"
  shows "contains_str u (trim_start_str ''0x'' hash)"
proof -
  from assms obtain t where t: "t \<in> set (gateways_discover decode answer base)"
    "u = replace_str ''{hash}'' (trim_start_str ''0x'' hash) t"
    by (auto simp: expand_def Let_def)
  with gateways_discover_template [OF t(1)] show ?thesis by (simp add: replace_str_contains)
qed

section \<open>Dialled addresses\<close>

lemma dial_addrs_origin:
  "a \<in> set (dial_addrs parse self ps) \<longleftrightarrow>
     (\<exists>p \<in> set ps. peer_id p \<noteq> self \<and> peer_id p \<noteq> [] \<and>
        (\<exists>ma \<in> set (multiaddrs p). parse (dial_addr (peer_id p) ma) = Some a))"
  by (induction ps) (auto simp: set_map_filter_iff)

lemma dial_addr_p2p: "contains_str (dial_addr pid ma) ''/p2p/''"
  by (auto simp: dial_addr_def contains_str_iff)

end
