(* ===== verification/P2p.thy ===== *)
theory P2p
  imports Store_Spec Discovery
begin

text \<open>
  The peer-to-peer task (src/p2p.rs): the gate on what peers send, the size ceilings of the codec, the
  persisted identity, and the event loop of \<open>run\<close> as a step function: one event (a branch of the \<open>select!\<close>,
  a serve task that got its turn, or another task's operation on the shared store) takes the state to the next
  state and a list of outputs. libp2p and the cbor codec are parameters. A \<open>PeerId\<close> is its text; the ids of
  response channels and of oneshot senders are numbers.
\<close>

section \<open>Messages and limits\<close>

datatype req = ReqHave string | ReqGet string
datatype resp = RespHave bool u64 | RespGet "bytes option"

definition MAX_TRACKED_HASHES :: nat where "MAX_TRACKED_HASHES = 100000"
definition MAX_PEERS_PER_HASH :: nat where "MAX_PEERS_PER_HASH = 64"
definition MAX_CONCURRENT_SERVES :: nat where "MAX_CONCURRENT_SERVES = 16"
definition P2P_MAX_REQUEST :: u64 where "P2P_MAX_REQUEST = 64 * 1024"
definition P2P_RESPONSE_SLACK :: u64 where "P2P_RESPONSE_SLACK = 64 * 1024"

text \<open>The anti-poisoning gate.\<close>

fun accept_get :: "crypto \<Rightarrow> string \<Rightarrow> resp \<Rightarrow> usize \<Rightarrow> bytes option" where
  "accept_get c want_hash (RespGet (Some b)) m =
     (if length b \<le> unat m \<and> sha256_hex c b = p2p_norm want_hash then Some b else None)"
| "accept_get c want_hash _ m = None"

section \<open>The codec\<close>

text \<open>
  A stream is what the peer sends before it closes, or a prefix of it and a transport error. \<open>read_to_end\<close>
  on \<open>io.take(n)\<close> stops after \<open>n\<close> bytes.
\<close>

datatype stream = Closed bytes | Broken bytes

fun read_take :: "u64 \<Rightarrow> stream \<Rightarrow> bytes option" where
  "read_take n (Closed b) = Some (take (unat n) b)"
| "read_take n (Broken b) = (if unat n \<le> length b then Some (take (unat n) b) else None)"

record 'a codec =
  to_vec :: "'a \<Rightarrow> bytes option"
  from_slice :: "bytes \<Rightarrow> 'a option"

definition max_response :: "usize \<Rightarrow> u64" where
  "max_response m = m + P2P_RESPONSE_SLACK"

definition read_request :: "req codec \<Rightarrow> stream \<Rightarrow> req option" where
  "read_request cd io = Option.bind (read_take P2P_MAX_REQUEST io) (from_slice cd)"

definition read_response :: "resp codec \<Rightarrow> u64 \<Rightarrow> stream \<Rightarrow> resp option" where
  "read_response cd ceiling io = Option.bind (read_take ceiling io) (from_slice cd)"

definition write_request :: "req codec \<Rightarrow> req \<Rightarrow> bytes option" where
  "write_request cd r = to_vec cd r"

definition write_response :: "resp codec \<Rightarrow> resp \<Rightarrow> bytes option" where
  "write_response cd r = to_vec cd r"

section \<open>The persisted identity\<close>

record 'k key_api =
  generate :: "'k"
  encode_key :: "'k \<Rightarrow> bytes option"
  decode_key :: "bytes \<Rightarrow> 'k option"
  peer_id_of :: "'k \<Rightarrow> string"

text \<open>\<open>create_new\<close> fails on an existing file; \<open>key_write\<close> is what \<open>write_all\<close> does to the new, empty one.\<close>

record id_io =
  key_read_ok :: bool
  mkdir_ok :: bool
  create_ok :: bool
  key_write :: write_outcome

datatype id_error = EncodeKey | MakeDir | CreateNew | WriteKey

definition save_identity :: "'k key_api \<Rightarrow> id_io \<Rightarrow> string \<Rightarrow> disk \<Rightarrow> (id_error + 'k) \<times> disk" where
  "save_identity k i path d =
     (let kp = generate k
      in case encode_key k kp of
           None \<Rightarrow> (Inl EncodeKey, d)
         | Some enc \<Rightarrow>
             if \<not> mkdir_ok i then (Inl MakeDir, d)
             else if path \<in> dom d \<or> \<not> create_ok i then (Inl CreateNew, d)
             else case fs_write (key_write i) path enc (d(path \<mapsto> [])) of
               (False, d') \<Rightarrow> (Inl WriteKey, d')
             | (True, d') \<Rightarrow> (Inr kp, d'))"

definition load_or_create_identity ::
  "'k key_api \<Rightarrow> id_io \<Rightarrow> string option \<Rightarrow> disk \<Rightarrow> (id_error + 'k) \<times> disk" where
  "load_or_create_identity k i path d =
     (case path of
        None \<Rightarrow> (Inr (generate k), d)
      | Some p \<Rightarrow>
          (case fs_read (key_read_ok i) p d of
             Some b \<Rightarrow> (case decode_key k b of Some kp \<Rightarrow> (Inr kp, d) | None \<Rightarrow> save_identity k i p d)
           | None \<Rightarrow> save_identity k i p d))"

definition peer_id_at :: "'k key_api \<Rightarrow> bool \<Rightarrow> string \<Rightarrow> disk \<Rightarrow> string option" where
  "peer_id_at k read_ok path d =
     Option.bind (fs_read read_ok path d) (\<lambda>b.
     Option.bind (decode_key k b) (\<lambda>kp. Some (peer_id_of k kp)))"

section \<open>Announcements\<close>

definition held_body :: "(string \<times> u64) list \<Rightarrow> string" where
  "held_body hs = join_str [CHR 0x0A] (map (\<lambda>(h, _). p2p_norm h) hs)"

definition learn_line ::
  "string \<Rightarrow> string \<Rightarrow> (string \<rightharpoonup> string set) \<Rightarrow> (string \<rightharpoonup> string set)" where
  "learn_line src line providers =
     (let h = p2p_norm line
      in if \<not> (length h = 64 \<and> list_all is_ascii_hexdigit h) then providers
         else if h \<in> dom providers \<or> card (dom providers) < MAX_TRACKED_HASHES then
           (let S = (case providers h of Some S \<Rightarrow> S | None \<Rightarrow> {})
            in providers(h \<mapsto> (if card S < MAX_PEERS_PER_HASH then insert src S else S)))
         else providers)"

definition learn_message ::
  "string option \<Rightarrow> bytes \<Rightarrow> (string \<rightharpoonup> string set) \<Rightarrow> (string \<rightharpoonup> string set)" where
  "learn_message source data providers =
     (case source of
        None \<Rightarrow> providers
      | Some src \<Rightarrow> fold (learn_line src) (str_lines (utf8_lossy data)) providers)"

end
