(* ===== verification/Gateway.thy ===== *)
theory Gateway
  imports Store_Spec "HOL-Library.Char_ord" "HOL-Library.List_Lexorder" "HOL-Library.Product_Lexorder"
begin

unbundle bit_operations_syntax

text \<open>
  The HTTP gateway (src/gateway.rs): the handlers of the router as functions of the gateway state, the
  request and the I/O outcomes, with replies as values. A reply that the code would not reach because it
  panics (an \<open>unwrap\<close> on a header value, a slice out of range) is \<open>None\<close>. What axum adds to a reply (the
  content type of a text or JSON body) is not part of the model.
\<close>

section \<open>Requests, replies, state\<close>

type_synonym header_map = "(string \<times> string) list"

datatype json =
    JBool bool | JNum nat | JStr string | JArr "json list" | JObj "(string \<times> json) list"

text \<open>\<open>ErrorText e\<close> is the message of the store error \<open>e\<close> as text.\<close>

datatype body = NoBody | TextBody string | ErrorText store_error | JsonBody json | Content bytes

record reply =
  reply_status :: nat
  reply_headers :: header_map
  reply_body :: body

text \<open>\<open>conns\<close> is the number of free permits of the semaphore; \<open>gw_peers\<close> maps peer ids to addresses.\<close>

record gw_state =
  gw_store :: store
  gw_max_bytes :: usize
  admin_token :: "string option"
  conns :: nat
  gw_peers :: "string \<rightharpoonup> string"

definition plain :: "nat \<Rightarrow> reply" where
  "plain st = \<lparr>reply_status = st, reply_headers = [], reply_body = NoBody\<rparr>"

definition text_reply :: "nat \<Rightarrow> string \<Rightarrow> reply" where
  "text_reply st t = \<lparr>reply_status = st, reply_headers = [], reply_body = TextBody t\<rparr>"

definition error_reply :: "store_error \<Rightarrow> reply" where
  "error_reply e = \<lparr>reply_status = 400, reply_headers = [], reply_body = ErrorText e\<rparr>"

definition json_reply :: "json \<Rightarrow> reply" where
  "json_reply j = \<lparr>reply_status = 200, reply_headers = [], reply_body = JsonBody j\<rparr>"

text \<open>
  \<open>HeaderMap::get\<close> gives the first value of a name; \<open>HeaderValue::to_str\<close> accepts printable ASCII and the
  tab, \<open>str::parse::<HeaderValue>\<close> every byte but the control characters.
\<close>

definition header_get :: "header_map \<Rightarrow> string \<Rightarrow> string option" where
  "header_get hs name = map_of hs name"

definition to_str :: "string \<Rightarrow> string option" where
  "to_str v = (if list_all (\<lambda>c. (32 \<le> code c \<and> code c < 127) \<or> code c = 9) v then Some v else None)"

definition header_value_ok :: "string \<Rightarrow> bool" where
  "header_value_ok v \<longleftrightarrow> list_all (\<lambda>c. (32 \<le> code c \<and> code c \<noteq> 127) \<or> code c = 9) v"

definition parse_headers :: "header_map \<Rightarrow> header_map option" where
  "parse_headers hs = (if list_all (\<lambda>(_, v). header_value_ok v) hs then Some hs else None)"

section \<open>The admin token\<close>

definition ct_eq :: "bytes \<Rightarrow> bytes \<Rightarrow> bool" where
  "ct_eq a b =
     (if length a \<noteq> length b then False
      else foldl (\<lambda>d (x, y). d OR (x XOR y)) 0 (zip a b) = 0)"

definition admin_ok :: "gw_state \<Rightarrow> header_map \<Rightarrow> bool" where
  "admin_ok st headers =
     (case admin_token st of
        None \<Rightarrow> False
      | Some want \<Rightarrow>
          let bearer = Option.bind (Option.bind (header_get headers ''authorization'') to_str)
                         (strip_prefix ''Bearer '');
              got = (case bearer of
                       Some g \<Rightarrow> Some g
                     | None \<Rightarrow> Option.bind (header_get headers ''x-admin-token'') to_str)
          in case got of Some g \<Rightarrow> ct_eq (str_bytes g) (str_bytes want) | None \<Rightarrow> False)"

section \<open>Takedown handlers\<close>

definition purge_content :: "io \<Rightarrow> gw_state \<Rightarrow> header_map \<Rightarrow> string \<Rightarrow> reply \<times> gw_state" where
  "purge_content i st headers hash =
     (if \<not> admin_ok st headers then (text_reply 403 ''admin token required'', st)
      else case gw_norm hash of
        None \<Rightarrow> (plain 400, st)
      | Some h \<Rightarrow>
          (case store_deny i (gw_store st) h of
             (Inr purged, s) \<Rightarrow>
               (json_reply (JObj [(''ok'', JBool True), (''denied'', JBool True), (''purged'', JBool purged)]),
                st\<lparr>gw_store := s\<rparr>)
           | (Inl e, s) \<Rightarrow> (error_reply e, st\<lparr>gw_store := s\<rparr>)))"

definition deny_content :: "io \<Rightarrow> gw_state \<Rightarrow> header_map \<Rightarrow> string \<Rightarrow> reply \<times> gw_state" where
  "deny_content i st headers hash =
     (if \<not> admin_ok st headers then (text_reply 403 ''admin token required'', st)
      else case gw_norm hash of
        None \<Rightarrow> (plain 400, st)
      | Some h \<Rightarrow>
          (case store_deny i (gw_store st) h of
             (Inr purged, s) \<Rightarrow>
               (json_reply (JObj [(''ok'', JBool True), (''denied'', JBool True), (''purged'', JBool purged)]),
                st\<lparr>gw_store := s\<rparr>)
           | (Inl e, s) \<Rightarrow> (error_reply e, st\<lparr>gw_store := s\<rparr>)))"

definition allow_content :: "io \<Rightarrow> gw_state \<Rightarrow> header_map \<Rightarrow> string \<Rightarrow> reply \<times> gw_state" where
  "allow_content i st headers hash =
     (if \<not> admin_ok st headers then (text_reply 403 ''admin token required'', st)
      else case gw_norm hash of
        None \<Rightarrow> (plain 400, st)
      | Some h \<Rightarrow>
          (case store_allow i (gw_store st) h of
             (Inr removed, s) \<Rightarrow>
               (json_reply (JObj [(''ok'', JBool True), (''removed'', JBool removed)]), st\<lparr>gw_store := s\<rparr>)
           | (Inl e, s) \<Rightarrow> (error_reply e, st\<lparr>gw_store := s\<rparr>)))"

section \<open>Ranges\<close>

definition parse_range :: "string \<Rightarrow> (u64 option \<times> u64 option) option" where
  "parse_range s =
     Option.bind (strip_prefix ''bytes='' s) (\<lambda>s.
     Option.bind (split_once (CHR ''-'') s) (\<lambda>(a, b).
     Some (parse_u64 a, parse_u64 b)))"

fun clamp_range :: "u64 option \<times> u64 option \<Rightarrow> u64 \<Rightarrow> u64 \<times> u64" where
  "clamp_range (Some s, Some e) len = (s, min e (sat_sub len 1))"
| "clamp_range (Some s, None) len = (s, sat_sub len 1)"
| "clamp_range (None, Some n) len = (sat_sub len n, sat_sub len 1)"
| "clamp_range (None, None) len = (0, sat_sub len 1)"

text \<open>The slice \<open>bytes[s..=e]\<close>: a panic when \<open>e + 1\<close> overflows, is past the end, or is before \<open>s\<close>.\<close>

definition slice_incl :: "bytes \<Rightarrow> u64 \<Rightarrow> u64 \<Rightarrow> bytes option" where
  "slice_incl b s e =
     (if e = - 1 \<or> unat e + 1 < unat s \<or> length b < unat e + 1 then None
      else Some (take (unat e + 1 - unat s) (drop (unat s) b)))"

section \<open>Content handlers\<close>

definition content_headers :: "string \<Rightarrow> u64 \<Rightarrow> header_map option" where
  "content_headers h len =
     parse_headers
       [(''content-type'', ''application/json; charset=utf-8''),
        (''etag'', ''\"0x'' @ h @ ''\"''),
        (''cache-control'', ''public, max-age=31536000, immutable''),
        (''accept-ranges'', ''bytes''),
        (''access-control-allow-origin'', ''*''),
        (''x-content-type-options'', ''nosniff''),
        (''content-disposition'', ''attachment''),
        (''content-security-policy'', ''default-src '' @ [CHR 0x27] @ ''none'' @ [CHR 0x27] @ ''; sandbox''),
        (''content-length'', dec_str (unat len)),
        (''x-csd-payload-hash'', ''0x'' @ h)]"

definition head_finish :: "string \<Rightarrow> u64 option \<Rightarrow> reply option" where
  "head_finish h found =
     (case found of
        Some len \<Rightarrow>
          map_option (\<lambda>hm. \<lparr>reply_status = 200, reply_headers = hm, reply_body = NoBody\<rparr>)
            (content_headers h len)
      | None \<Rightarrow> Some (plain 404))"

definition head_content :: "gw_state \<Rightarrow> string \<Rightarrow> reply option" where
  "head_content st hash =
     (case gw_norm hash of
        None \<Rightarrow> Some (plain 400)
      | Some h \<Rightarrow>
          if store_is_denied (gw_store st) h then Some (text_reply 410 ''content removed by the operator'')
          else head_finish h (store_has (gw_store st) h))"

text \<open>
  \<open>get_content\<close> in parts: up to the semaphore (\<open>get_admit\<close>, which answers at once or lets the request read), the
  range reply, the reply to the bytes that were read (\<open>get_finish\<close>), and the read with its reply (\<open>get_serve\<close>),
  after which the permit is dropped.
\<close>

definition get_admit :: "gw_state \<Rightarrow> string \<Rightarrow> reply + string" where
  "get_admit st hash =
     (case gw_norm hash of
        None \<Rightarrow> Inl (text_reply 400 ''want /content/0x<64-hex payload_hash>'')
      | Some h \<Rightarrow>
          if store_is_denied (gw_store st) h then Inl (text_reply 410 ''content removed by the operator'')
          else if conns st = 0 then Inl (text_reply 503 ''gateway busy'')
          else Inr h)"

definition range_reply :: "string \<Rightarrow> bytes \<Rightarrow> u64 option \<times> u64 option \<Rightarrow> reply option" where
  "range_reply h b rng =
     (let len = len64 b; (start, end') = clamp_range rng len
      in if end' < start \<or> len \<le> start then
           map_option (\<lambda>hm. \<lparr>reply_status = 416, reply_headers = hm, reply_body = NoBody\<rparr>)
             (parse_headers [(''content-range'', ''bytes */'' @ dec_str (unat len))])
         else
           Option.bind (slice_incl b start end') (\<lambda>slice.
           Option.bind (content_headers h (len64 slice)) (\<lambda>hm.
           map_option (\<lambda>cr. \<lparr>reply_status = 206, reply_headers = hm @ cr, reply_body = Content slice\<rparr>)
             (parse_headers [(''content-range'',
                ''bytes '' @ dec_str (unat start) @ ''-'' @ dec_str (unat end') @ ''/'' @ dec_str (unat len))]))))"

definition get_finish :: "crypto \<Rightarrow> header_map \<Rightarrow> string \<Rightarrow> bytes option \<Rightarrow> reply option" where
  "get_finish c headers h body =
     (case body of
        None \<Rightarrow> Some (text_reply 404 ''not held by this gateway'')
      | Some b \<Rightarrow>
          if sha256_hex c b \<noteq> h then Some (text_reply 500 ''stored bytes failed self-verification'')
          else case Option.bind (Option.bind (header_get headers ''range'') to_str) parse_range of
            Some rng \<Rightarrow> range_reply h b rng
          | None \<Rightarrow>
              map_option (\<lambda>hm. \<lparr>reply_status = 200, reply_headers = hm, reply_body = Content b\<rparr>)
                (content_headers h (len64 b)))"

definition get_serve :: "crypto \<Rightarrow> bool \<Rightarrow> gw_state \<Rightarrow> header_map \<Rightarrow> string \<Rightarrow> reply option" where
  "get_serve c read_ok st headers h = get_finish c headers h (store_get read_ok (gw_store st) h)"

definition get_content :: "crypto \<Rightarrow> bool \<Rightarrow> gw_state \<Rightarrow> header_map \<Rightarrow> string \<Rightarrow> reply option" where
  "get_content c read_ok st headers hash =
     (case get_admit st hash of
        Inl r \<Rightarrow> Some r
      | Inr h \<Rightarrow> get_serve c read_ok (st\<lparr>conns := conns st - 1\<rparr>) headers h)"

section \<open>Monitoring\<close>

definition pins :: "(string set \<Rightarrow> string list) \<Rightarrow> gw_state \<Rightarrow> reply" where
  "pins ord st =
     (let list = sort (store_list ord (gw_store st));
          ps = map (\<lambda>(h, len). JObj [(''hash'', JStr h), (''status'', JStr ''pinned''), (''bytes'', JNum (unat len))])
                 list
      in json_reply (JObj [(''ok'', JBool True), (''count'', JNum (length ps)), (''pins'', JArr ps)]))"

definition health :: "gw_state \<Rightarrow> reply" where
  "health st =
     json_reply (JObj
       [(''ok'', JBool True),
        (''pinned'', JNum (store_count (gw_store st))),
        (''bytes'', JNum (unat (store_total_bytes (gw_store st)))),
        (''max_object_bytes'', JNum (unat (gw_max_bytes st))),
        (''max_store_bytes'', JNum (unat (max_bytes (gw_store st)))),
        (''denied'', JNum (store_denied_count (gw_store st))),
        (''admin_api'', JBool (admin_token st \<noteq> None)),
        (''p2p_peers'', JNum (card (dom (gw_peers st))))])"

definition p2p_peers :: "(string set \<Rightarrow> string list) \<Rightarrow> gw_state \<Rightarrow> reply" where
  "p2p_peers ord st =
     (let ps = map (\<lambda>p. JObj [(''peer_id'', JStr p), (''addr'', JStr (the (gw_peers st p)))])
                 (ord (dom (gw_peers st)))
      in json_reply (JObj [(''ok'', JBool True), (''count'', JNum (length ps)), (''peers'', JArr ps)]))"

section \<open>The router\<close>

datatype request =
    GetContent header_map string | HeadContent string | DeleteContent header_map string
  | PostDeny header_map string | PostAllow header_map string | GetPins | GetHealth | GetP2p

record gw_env =
  env_io :: io
  env_read :: bool

fun gw_handle :: "crypto \<Rightarrow> gw_env \<Rightarrow> gw_state \<Rightarrow> request \<Rightarrow> reply option \<times> gw_state" where
  "gw_handle c e st (GetContent hs hash) = (get_content c (env_read e) st hs hash, st)"
| "gw_handle c e st (HeadContent hash) = (head_content st hash, st)"
| "gw_handle c e st (DeleteContent hs hash) = apfst Some (purge_content (env_io e) st hs hash)"
| "gw_handle c e st (PostDeny hs hash) = apfst Some (deny_content (env_io e) st hs hash)"
| "gw_handle c e st (PostAllow hs hash) = apfst Some (allow_content (env_io e) st hs hash)"
| "gw_handle c e st GetPins = (Some (pins (set_order (env_io e)) st), st)"
| "gw_handle c e st GetHealth = (Some (health st), st)"
| "gw_handle c e st GetP2p = (Some (p2p_peers (set_order (env_io e)) st), st)"

end
