(* ===== verification/Node.thy ===== *)
theory Node
  imports Chain P2p Gateway Discovery
begin

text \<open>
  The binary (src/main.rs): the configuration read from the environment, the redirect policy of the HTTP
  client, the ingest loop that pins every confirmed payload, and the initial state of the gateway.
\<close>

section \<open>Configuration\<close>

definition env_or :: "(string \<Rightarrow> string option) \<Rightarrow> string \<Rightarrow> string \<Rightarrow> string" where
  "env_or vars k d = (case vars k of Some v \<Rightarrow> v | None \<Rightarrow> d)"

definition parse_u32 :: "string \<Rightarrow> u32 option" where
  "parse_u32 s =
     (let d = (case s of CHR ''+'' # t \<Rightarrow> t | _ \<Rightarrow> s)
      in if d \<noteq> [] \<and> list_all is_digit d \<and> digits_val d < 2 ^ 32
         then Some (of_nat (digits_val d)) else None)"

definition unwrap_or :: "'a option \<Rightarrow> 'a \<Rightarrow> 'a" where
  "unwrap_or r d = (case r of Some x \<Rightarrow> x | None \<Rightarrow> d)"

fun split_char :: "char \<Rightarrow> string \<Rightarrow> string list" where
  "split_char d [] = [[]]"
| "split_char d (c # s) =
     (if c = d then [] # split_char d s
      else case split_char d s of [] \<Rightarrow> [[c]] | w # ws \<Rightarrow> (c # w) # ws)"

text \<open>\<open>PathBuf::join\<close> with a file name.\<close>

definition path_join :: "string \<Rightarrow> string \<Rightarrow> string" where
  "path_join dir f = (if dir = [] \<or> ends_with dir ''/'' then dir @ f else dir @ ''/'' @ f)"

record config =
  rpc :: string
  origin :: string
  indexer :: string
  listen :: string
  store_dir :: string
  max_object :: usize
  confirmations :: u64
  per_domain :: u32
  poll_secs :: u64
  store_cap :: u64
  config_token :: "string option"
  follow_uri_hints :: bool
  gw_max_conns :: usize
  p2p_listen :: string
  identity_path :: "string option"
  bootstrap :: "string list"

definition read_config :: "(string \<Rightarrow> string option) \<Rightarrow> config" where
  "read_config vars =
     (let env = env_or vars; dir = env ''CSD_SWARM_STORE'' ''./swarm-store'' in
      \<lparr>rpc = env ''CSD_RPC'' ''http://127.0.0.1:8790'',
       origin = env ''CSD_ORIGIN'' ''http://127.0.0.1:7777'',
       indexer = env ''CSD_INDEXER'' '''',
       listen = env ''CSD_SWARM_LISTEN'' ''127.0.0.1:8791'',
       store_dir = dir,
       max_object = unwrap_or (parse_u64 (env ''CSD_MAX_OBJECT'' ''2097152'')) (2 * 1024 * 1024),
       confirmations = unwrap_or (parse_u64 (env ''CSD_CONFIRMATIONS'' ''3'')) 3,
       per_domain = unwrap_or (parse_u32 (env ''CSD_PER_DOMAIN'' ''500'')) 500,
       poll_secs = unwrap_or (parse_u64 (env ''CSD_POLL_SECS'' ''30'')) 30,
       store_cap = unwrap_or (parse_u64 (env ''CSD_MAX_STORE_BYTES'' ''10737418240'')) (10 * 1024 * 1024 * 1024),
       config_token = (let s = env ''CSD_ADMIN_TOKEN'' '''' in if s = [] then None else Some s),
       follow_uri_hints = (env ''CSD_FOLLOW_URI_HINTS'' ''0'' \<in> {''1'', ''true'', ''yes''}),
       gw_max_conns = unwrap_or (parse_u64 (env ''CSD_GATEWAY_MAX_CONNS'' ''64'')) 64,
       p2p_listen = env ''CSD_P2P_LISTEN'' ''/ip4/0.0.0.0/tcp/0'',
       identity_path =
         (let s = env ''CSD_P2P_IDENTITY'' ''''
          in if s = ''-'' then None else if s = [] then Some (path_join dir ''p2p-identity.key'') else Some s),
       bootstrap = filter (\<lambda>s. s \<noteq> []) (map str_trim (split_char (CHR '','') (env ''CSD_P2P_BOOTSTRAP'' '''')))\<rparr>)"

text \<open>The self-excluded peer id, and the first peers to dial.\<close>

definition self_peer_id :: "'k key_api \<Rightarrow> bool \<Rightarrow> config \<Rightarrow> disk \<Rightarrow> string" where
  "self_peer_id k read_ok cfg d =
     unwrap_or (Option.bind (identity_path cfg) (\<lambda>p. peer_id_at k read_ok p d)) []"

definition boot_peers :: "(string \<Rightarrow> 'm option) \<Rightarrow> config \<Rightarrow> 'm list \<Rightarrow> 'm list" where
  "boot_peers parse cfg discovered = List.map_filter parse (bootstrap cfg) @ discovered"

section \<open>Redirects\<close>

datatype redirect = TooMany | Follow | Stop

definition redirect_policy :: "(string \<Rightarrow> url_parts option) \<Rightarrow> string list \<Rightarrow> string \<Rightarrow> redirect" where
  "redirect_policy url_parse previous u =
     (if 3 \<le> length previous then TooMany
      else if host_is_public url_parse u then Follow else Stop)"

section \<open>The ingest loop\<close>

record counts =
  n_fetched :: u64
  n_from_peer :: u64
  n_failed :: u64
  n_held :: u64

text \<open>
  What happens around one pin: the answers of the network, the response a peer gave to the \<open>Want\<close> (\<open>None\<close>: no
  provider, a failure, or the p2p task is gone), the operations other tasks do on the store between the checks
  and the put, and the I/O outcomes of the put.
\<close>

record pin_env =
  pin_net :: net
  pin_peer :: "resp option"
  pin_during :: "(io \<times> store_op) list"
  pin_io :: io

record node =
  n_crypto :: crypto
  n_url_parse :: "string \<Rightarrow> url_parts option"
  n_config :: config

definition pin_urls :: "node \<Rightarrow> string list \<Rightarrow> pin_item \<Rightarrow> string list" where
  "pin_urls n templates p =
     candidate_urls (n_url_parse n) (origin (n_config n)) (payload_hash p) (uri p) (follow_uri_hints (n_config n)) @
     expand (n_url_parse n) templates (payload_hash p)"

definition want_from_peers :: "node \<Rightarrow> string \<Rightarrow> resp option \<Rightarrow> bytes option" where
  "want_from_peers n hash r =
     (case r of None \<Rightarrow> None
      | Some r \<Rightarrow> accept_get (n_crypto n) (p2p_norm hash) r (max_object (n_config n)))"

text \<open>The bytes for one pin, and whether they came from a peer.\<close>

definition fetch_pin :: "node \<Rightarrow> string list \<Rightarrow> pin_env \<Rightarrow> pin_item \<Rightarrow> (bytes \<times> bool) option" where
  "fetch_pin n templates e p =
     (case ok_bytes (acquire (n_crypto n) (pin_net e) (payload_hash p) (pin_urls n templates p)
              (max_object (n_config n))) of
        Some b \<Rightarrow> Some (b, False)
      | None \<Rightarrow> map_option (\<lambda>b. (b, True)) (want_from_peers n (payload_hash p) (pin_peer e)))"

definition ingest_pin ::
  "node \<Rightarrow> string list \<Rightarrow> pin_env \<times> pin_item \<Rightarrow> store \<times> counts \<Rightarrow> store \<times> counts" where
  "ingest_pin n templates ep sc =
     (let (e, p) = ep; (s, c) = sc in
      if store_is_denied s (payload_hash p) then (s, c)
      else if store_has s (payload_hash p) \<noteq> None then (s, c\<lparr>n_held := n_held c + 1\<rparr>)
      else
        let s1 = foldl store_step s (pin_during e)
        in case fetch_pin n templates e p of
             None \<Rightarrow> (s1, c\<lparr>n_failed := n_failed c + 1\<rparr>)
           | Some (b, via_peer) \<Rightarrow>
               (case store_put (pin_io e) s1 (payload_hash p) b of
                  (Inr _, s2) \<Rightarrow>
                    (s2, if via_peer then c\<lparr>n_from_peer := n_from_peer c + 1\<rparr>
                         else c\<lparr>n_fetched := n_fetched c + 1\<rparr>)
                | (Inl _, s2) \<Rightarrow> (s2, c\<lparr>n_failed := n_failed c + 1\<rparr>)))"

definition zero_counts :: counts where
  "zero_counts = \<lparr>n_fetched = 0, n_from_peer = 0, n_failed = 0, n_held = 0\<rparr>"

definition ingest_pins ::
  "node \<Rightarrow> string list \<Rightarrow> (nat \<Rightarrow> pin_env) \<Rightarrow> pin_item list \<Rightarrow> store \<Rightarrow> store \<times> counts" where
  "ingest_pins n templates env ps s =
     fold (ingest_pin n templates) (map (\<lambda>(i, p). (env i, p)) (List.enumerate 0 ps)) (s, zero_counts)"

text \<open>One pass of the loop: the gateway templates, the peers to dial, the pins.\<close>

record 'm pass_inputs =
  in_decoders :: decoders
  in_gateways :: "bytes \<Rightarrow> ranked_gateway list option"
  in_peers :: "bytes \<Rightarrow> ranked_peer list option"
  in_multiaddr :: "string \<Rightarrow> 'm option"
  in_indexer :: "string \<Rightarrow> response option"
  in_chain :: pass_env
  in_pins :: "nat \<Rightarrow> pin_env"

definition gw_templates :: "node \<Rightarrow> 'm pass_inputs \<Rightarrow> string list" where
  "gw_templates n x =
     (if indexer (n_config n) = [] then []
      else gateways_discover (in_gateways x) (in_indexer x) (indexer (n_config n)))"

definition pass_dials :: "node \<Rightarrow> 'm pass_inputs \<Rightarrow> string \<Rightarrow> 'm list" where
  "pass_dials n x self = peers_discover (in_multiaddr x) (in_peers x) (in_indexer x) (indexer (n_config n)) self"

definition ingest_pass :: "node \<Rightarrow> 'm pass_inputs \<Rightarrow> store \<Rightarrow> store \<times> (rpc_error + counts)" where
  "ingest_pass n x s =
     (case confirmed_pins (in_decoders x) (chain_new (rpc (n_config n))) (in_chain x)
              (confirmations (n_config n)) (per_domain (n_config n)) of
        Inl err \<Rightarrow> (s, Inl err)
      | Inr ps \<Rightarrow> (case ingest_pins n (gw_templates n x) (in_pins x) ps s of (s', c) \<Rightarrow> (s', Inr c)))"

section \<open>The gateway's initial state\<close>

definition gw_start :: "config \<Rightarrow> store \<Rightarrow> gw_state" where
  "gw_start cfg s =
     \<lparr>gw_store = s, gw_max_bytes = max_object cfg, admin_token = config_token cfg,
      conns = unat (gw_max_conns cfg), gw_peers = Map.empty\<rparr>"

definition node_start :: "open_io \<Rightarrow> config \<Rightarrow> disk \<Rightarrow> (store_error + store) \<times> disk" where
  "node_start i cfg d =
     (case store_open i d of
        (Inl e, d') \<Rightarrow> (Inl e, d')
      | (Inr s, d') \<Rightarrow> (Inr (with_max_bytes s (store_cap cfg)), d'))"

end
