(* ===== verification/P2p_Spec.thy ===== *)
theory P2p_Spec
  imports P2p Acquire
begin

text \<open>
  The pieces of the p2p task on their own: the gate is a verified source, the provider table stays within its
  bounds, what one node announces another one learns, and the persisted identity is stable.
\<close>

section \<open>The gate\<close>

lemma accept_get_iff:
  "accept_get c want r m = Some b \<longleftrightarrow> r = RespGet (Some b) \<and> length b \<le> unat m \<and> sha256_hex c b = norm want"
  by (cases "(c, want, r, m)" rule: accept_get.cases) auto

interpretation peer_source: verified_source c
    "\<lambda>(want :: string, r :: resp, m :: usize). norm want" "\<lambda>(want, r, m). unat m"
    "\<lambda>(want, r, m). accept_get c want r m"
  for c :: crypto
  by unfold_locales (auto simp: accept_get_iff)

section \<open>The provider table\<close>

definition table_ok :: "(string \<rightharpoonup> string set) \<Rightarrow> bool" where
  "table_ok pv \<longleftrightarrow>
     finite (dom pv) \<and> card (dom pv) \<le> MAX_TRACKED_HASHES \<and>
     (\<forall>h S. pv h = Some S \<longrightarrow> lower_hex64 h \<and> finite S \<and> S \<noteq> {} \<and> card S \<le> MAX_PEERS_PER_HASH)"

lemma learn_line_eq:
  "learn_line src line pv =
     (let h = norm line
      in if is_valid_hash h \<and> (h \<in> dom pv \<or> card (dom pv) < MAX_TRACKED_HASHES) then
           (let S = (case pv h of Some S \<Rightarrow> S | None \<Rightarrow> {})
            in pv(h \<mapsto> (if card S < MAX_PEERS_PER_HASH then insert src S else S)))
         else pv)"
  by (auto simp: learn_line_def is_valid_hash_def Let_def)

lemma table_ok_learn_line:
  assumes "table_ok pv"
  shows "table_ok (learn_line src line pv)"
proof (cases "is_valid_hash (norm line) \<and> (norm line \<in> dom pv \<or> card (dom pv) < MAX_TRACKED_HASHES)")
  case False
  then have "learn_line src line pv = pv" by (auto simp: learn_line_eq Let_def)
  with assms show ?thesis by simp
next
  case True
  let ?h = "norm line"
  let ?S = "case pv ?h of Some S \<Rightarrow> S | None \<Rightarrow> {}"
  define T where "T = (if card ?S < MAX_PEERS_PER_HASH then insert src ?S else ?S)"
  have eq: "learn_line src line pv = pv(?h \<mapsto> T)" using True by (simp add: learn_line_eq T_def Let_def)
  have hex: "lower_hex64 ?h" using True by (simp add: norm_valid_lower_hex64)
  have S: "finite ?S" "card ?S \<le> MAX_PEERS_PER_HASH"
    using assms by (auto simp: table_ok_def split: option.splits)
  then have "finite T" "card T \<le> MAX_PEERS_PER_HASH" by (auto simp: T_def card_insert_if)
  moreover have "T \<noteq> {}"
    using assms by (auto simp: T_def table_ok_def MAX_PEERS_PER_HASH_def split: option.splits)
  moreover have "card (insert ?h (dom pv)) \<le> MAX_TRACKED_HASHES"
    using True assms by (auto simp: table_ok_def card_insert_if)
  ultimately show ?thesis
    using assms hex unfolding eq by (simp add: table_ok_def)
qed

lemma table_ok_learn_message: "table_ok pv \<Longrightarrow> table_ok (learn_message src data pv)"
proof -
  have "table_ok pv \<Longrightarrow> table_ok (fold (learn_line src) ls pv)" for src ls
    by (induction ls arbitrary: pv) (auto intro: table_ok_learn_line)
  then show "table_ok pv \<Longrightarrow> ?thesis" by (simp add: learn_message_def split: option.split)
qed

section \<open>Announcements are learned\<close>

lemma str_lines_last: "CHR 0x0A \<notin> set l \<Longrightarrow> l \<noteq> [] \<Longrightarrow> str_lines l = [l]"
proof -
  have "CHR 0x0A \<notin> set l \<Longrightarrow> lines_acc acc l = (if rev acc @ l = [] then [] else [rev acc @ l])" for acc
    by (induction l arbitrary: acc) auto
  then show "CHR 0x0A \<notin> set l \<Longrightarrow> l \<noteq> [] \<Longrightarrow> ?thesis" by (simp add: str_lines_def)
qed

lemma lines_join:
  "list_all lower_hex64 hs \<Longrightarrow> str_lines (join_str [CHR 0x0A] hs) = hs"
proof (induction "[CHR 0x0A]" hs rule: join_str.induct)
  case 1
  then show ?case by (simp add: str_lines_Nil)
next
  case (2 x)
  then show ?case by (simp add: str_lines_last lower_hex64_text)
next
  case (3 x y xs)
  then have "CHR 0x0A \<notin> set x" "CHR 0x0D \<notin> set x" by (simp_all add: lower_hex64_text)
  with 3 show ?case by (simp add: str_lines_line strip_cr_id)
qed

lemma join_ascii: "list_all lower_hex64 hs \<Longrightarrow> is_ascii (join_str [CHR 0x0A] hs)"
proof (induction "[CHR 0x0A]" hs rule: join_str.induct)
  case (3 x y xs)
  then have "is_ascii x" by (simp add: lower_hex64_text)
  with 3 show ?case by (simp add: is_ascii_def)
next
  case (2 x)
  then show ?case by (simp add: lower_hex64_text)
qed (simp add: is_ascii_def)

lemma learn_announcement:
  assumes "list_all lower_hex64 hs"
  shows "learn_message (Some src) (str_bytes (join_str [CHR 0x0A] hs)) pv = fold (learn_line src) hs pv"
  using assms by (simp add: learn_message_def utf8_lossy_ascii join_ascii lines_join)

text \<open>There is room for the announced hashes: in the table, and in the set of every hash already known.\<close>

definition has_room :: "(string \<rightharpoonup> string set) \<Rightarrow> string list \<Rightarrow> bool" where
  "has_room pv hs \<longleftrightarrow>
     card (dom pv \<union> set hs) \<le> MAX_TRACKED_HASHES \<and>
     (\<forall>h \<in> set hs. \<forall>S. pv h = Some S \<longrightarrow> card S < MAX_PEERS_PER_HASH)"

lemma learn_line_room:
  assumes "lower_hex64 h" and "has_room pv (h # hs)" and "finite (dom pv)"
  shows "learn_line src h pv = pv(h \<mapsto> insert src (case pv h of Some S \<Rightarrow> S | None \<Rightarrow> {}))"
proof -
  have "h \<in> dom pv \<or> card (dom pv) < MAX_TRACKED_HASHES"
  proof (rule ccontr)
    assume n: "\<not> (h \<in> dom pv \<or> card (dom pv) < MAX_TRACKED_HASHES)"
    then have "card (insert h (dom pv)) \<le> card (dom pv \<union> set (h # hs))"
      using assms(3) by (intro card_mono) auto
    with n assms(2,3) show False by (simp add: has_room_def)
  qed
  moreover have "card (case pv h of Some S \<Rightarrow> S | None \<Rightarrow> {}) < MAX_PEERS_PER_HASH"
    using assms(2) by (auto simp: has_room_def MAX_PEERS_PER_HASH_def split: option.splits)
  ultimately show ?thesis
    using assms(1) by (simp add: learn_line_eq norm_lower_hex64 lower_hex64_valid)
qed

lemma fold_learn_room:
  "list_all lower_hex64 hs \<Longrightarrow> distinct hs \<Longrightarrow> has_room pv hs \<Longrightarrow> finite (dom pv) \<Longrightarrow>
    fold (learn_line src) hs pv k =
      (if k \<in> set hs then Some (insert src (case pv k of Some S \<Rightarrow> S | None \<Rightarrow> {})) else pv k)"
proof (induction hs arbitrary: pv)
  case (Cons h hs)
  let ?S = "insert src (case pv h of Some S \<Rightarrow> S | None \<Rightarrow> {})"
  have eq: "learn_line src h pv = pv(h \<mapsto> ?S)" using Cons.prems by (intro learn_line_room) auto
  have "has_room (pv(h \<mapsto> ?S)) hs"
    using Cons.prems(2,3) by (auto simp: has_room_def)
  moreover have "finite (dom (pv(h \<mapsto> ?S)))" using Cons.prems(4) by simp
  ultimately show ?case using Cons eq by auto
qed simp

section \<open>The identity\<close>

lemma save_identity_existing:
  "path \<in> dom d \<Longrightarrow> \<exists>e. save_identity k i path d = (Inl e, d)"
  by (auto simp: save_identity_def Let_def split: option.split)

lemma save_identity_Inr:
  assumes "save_identity k i path d = (Inr kp, d')"
  shows "kp = generate k \<and> path \<notin> dom d \<and> (\<exists>enc. encode_key k kp = Some enc \<and> d' = d(path \<mapsto> enc))"
  using assms
  by (auto simp: save_identity_def Let_def fs_write_def split: option.splits if_splits write_outcome.splits)

end
