(* ===== verification/Node_Spec.thy ===== *)
theory Node_Spec
  imports Node P2p_Spec Store_Budget
begin

text \<open>
  What an ingest pass does to the store: it keeps the invariant and self-certification whatever the network,
  the peers and the other tasks do; it adds nothing but pinned hashes; it pins whatever is reachable; its
  counters count. And what the configuration means for the other components.
\<close>

section \<open>Fetching a pin\<close>

text \<open>A request: network, hash, candidate URLs, size cap, and a peer's response to the \<open>Want\<close>.\<close>

type_synonym pin_request = "net \<times> string \<times> string list \<times> usize \<times> resp option"

definition peer_fetch :: "crypto \<Rightarrow> pin_request \<Rightarrow> bytes option" where
  "peer_fetch c q =
     (let (net, hash, urls, m, r) = q in
      if is_valid_hash (norm hash) then Option.bind r (\<lambda>r. accept_get c (norm hash) r m) else None)"

interpretation node_source: fallback_source c
    "\<lambda>(net, hash, urls, m, r). norm hash" "\<lambda>(net, hash, urls, m, r). unat m"
    "\<lambda>(net, hash, urls, m, r). ok_bytes (acquire c net hash urls m)" "peer_fetch c"
  for c :: crypto
proof (unfold_locales, goal_cases)
  case (1 q b)
  then show ?case using acquire_source.fetch_verified by (fastforce split: prod.splits)
next
  case (2 q b)
  then show ?case using acquire_source.fetch_capped by (fastforce split: prod.splits)
next
  case (3 q b)
  then show ?case
    by (auto simp: peer_fetch_def accept_get_iff bind_eq_Some_conv norm_norm_valid split: prod.splits if_splits)
next
  case (4 q b)
  then show ?case
    by (auto simp: peer_fetch_def accept_get_iff bind_eq_Some_conv split: prod.splits if_splits)
qed

lemma fetch_pin_verified:
  assumes "fetch_pin n ts e p = Some (b, v)" and "is_valid_hash (norm (payload_hash p))"
  shows "sha256_hex (n_crypto n) b = norm (payload_hash p) \<and> length b \<le> unat (max_object (n_config n))"
proof -
  let ?q = "(pin_net e, payload_hash p, pin_urls n ts p, max_object (n_config n), pin_peer e)"
  have "(case ok_bytes (acquire (n_crypto n) (pin_net e) (payload_hash p) (pin_urls n ts p) (max_object (n_config n))) of
      Some b \<Rightarrow> Some b | None \<Rightarrow> peer_fetch (n_crypto n) ?q) = Some b"
    using assms by (auto simp: fetch_pin_def want_from_peers_def peer_fetch_def ok_bytes_def split: option.splits sum.splits)
  then show ?thesis using node_source.either_sound [of "n_crypto n" ?q b] by simp
qed

section \<open>One pin\<close>

definition pin_env_ok :: "crypto \<Rightarrow> pin_env \<Rightarrow> bool" where
  "pin_env_ok c e \<longleftrightarrow> list_all io_legal (pin_during e) \<and> list_all (verified_put c) (pin_during e)"

lemma ingest_pin_cases:
  obtains (skipped) "ingest_pin n ts (e, p) (s, c) = (s, c)" "store_is_denied s (payload_hash p)"
  | (already) "ingest_pin n ts (e, p) (s, c) = (s, c\<lparr>n_held := n_held c + 1\<rparr>)" "store_has s (payload_hash p) \<noteq> None"
  | (unavailable) "fetch_pin n ts e p = None"
      "ingest_pin n ts (e, p) (s, c) = (foldl store_step s (pin_during e), c\<lparr>n_failed := n_failed c + 1\<rparr>)"
  | (stored) b v s2 where "fetch_pin n ts e p = Some (b, v)"
      "store_put (pin_io e) (foldl store_step s (pin_during e)) (payload_hash p) b = (Inr (), s2)"
      "ingest_pin n ts (e, p) (s, c) = (s2, if v then c\<lparr>n_from_peer := n_from_peer c + 1\<rparr>
          else c\<lparr>n_fetched := n_fetched c + 1\<rparr>)" "store_has s (payload_hash p) = None"
  | (refused) b v er s2 where "fetch_pin n ts e p = Some (b, v)"
      "store_put (pin_io e) (foldl store_step s (pin_during e)) (payload_hash p) b = (Inl er, s2)"
      "ingest_pin n ts (e, p) (s, c) = (s2, c\<lparr>n_failed := n_failed c + 1\<rparr>)"
proof -
  let ?s1 = "foldl store_step s (pin_during e)"
  consider "store_is_denied s (payload_hash p)"
    | "\<not> store_is_denied s (payload_hash p)" "store_has s (payload_hash p) \<noteq> None"
    | "\<not> store_is_denied s (payload_hash p)" "store_has s (payload_hash p) = None" by blast
  then show thesis
  proof cases
    case 1
    then show thesis by (intro skipped) (simp_all add: ingest_pin_def)
  next
    case 2
    then show thesis by (intro already) (auto simp: ingest_pin_def)
  next
    case 3
    show thesis
    proof (cases "fetch_pin n ts e p")
      case None
      with 3 show thesis by (intro unavailable) (simp_all add: ingest_pin_def Let_def)
    next
      case (Some bv)
      obtain b v where bv: "bv = (b, v)" by fastforce
      obtain r s2 where p: "store_put (pin_io e) ?s1 (payload_hash p) b = (r, s2)" by fastforce
      with 3 Some bv show thesis
        by (cases r) (auto simp: ingest_pin_def Let_def intro: stored refused)
    qed
  qed
qed

lemma ingest_pin_inv:
  assumes "store_ok s" and "certified (n_crypto n) s" and "pin_env_ok (n_crypto n) e"
  shows "store_ok (fst (ingest_pin n ts (e, p) (s, c))) \<and> certified (n_crypto n) (fst (ingest_pin n ts (e, p) (s, c)))"
proof -
  let ?s1 = "foldl store_step s (pin_during e)" and ?c = "n_crypto n"
  have ok: "store_ok ?s1" "certified ?c ?s1"
    using assms(1-3) by (auto simp: pin_env_ok_def intro: store_run.run_inv certified_run.run_inv)
  have put: "store_ok (snd (store_put (pin_io e) ?s1 (payload_hash p) b))"
    "certified ?c (snd (store_put (pin_io e) ?s1 (payload_hash p) b))"
    if f: "fetch_pin n ts e p = Some (b, v)" for b v
  proof -
    show "store_ok (snd (store_put (pin_io e) ?s1 (payload_hash p) b))" using ok(1) by (rule store_ok_put)
    show "certified ?c (snd (store_put (pin_io e) ?s1 (payload_hash p) b))"
    proof (cases "is_valid_hash (norm (payload_hash p))")
      case True
      with fetch_pin_verified [OF f] ok(2) show ?thesis by (simp add: certified_put)
    next
      case False
      with ok(2) show ?thesis by (simp add: store_put_def Let_def)
    qed
  qed
  show ?thesis
  proof (cases rule: ingest_pin_cases [of n ts e p s c])
    case (stored b v s2)
    with put [OF stored(1)] show ?thesis by simp
  next
    case (refused b v er s2)
    with put [OF refused(1)] show ?thesis by simp
  qed (use assms(1,2) ok in simp_all)
qed

section \<open>All pins\<close>

text \<open>Laws of one pin lift to the list: \<open>I\<close> holds of the store and the counters after every pin.\<close>

lemma ingest_pins_induct:
  assumes "I (s, zero_counts)"
    and "\<And>i t c. i < length ps \<Longrightarrow> I (t, c) \<Longrightarrow> I (ingest_pin n ts (env i, ps ! i) (t, c))"
  shows "I (ingest_pins n ts env ps s)"
proof -
  have "I (fold (ingest_pin n ts) xs sc)"
    if "I sc" "\<And>x sc. x \<in> set xs \<Longrightarrow> I sc \<Longrightarrow> I (ingest_pin n ts x sc)" for xs sc
    using that by (induction xs arbitrary: sc) simp_all
  moreover have "\<exists>i < length ps. x = (env i, ps ! i)"
    if "x \<in> set (map (\<lambda>(i, p). (env i, p)) (List.enumerate 0 ps))" for x
    using that by (auto simp: enumerate_eq_zip set_zip)
  then have "I (ingest_pin n ts x sc)"
    if "x \<in> set (map (\<lambda>(i, p). (env i, p)) (List.enumerate 0 ps))" "I sc" for x sc
    using that assms(2) by (metis surj_pair)
  ultimately show ?thesis
    unfolding ingest_pins_def using assms(1) by blast
qed

text \<open>What one pin achieves, and no later pin undoes, holds at the end.\<close>

lemma fold_reaches:
  assumes "J sc" and "\<And>y sc. y \<in> set xs \<Longrightarrow> J sc \<Longrightarrow> J (f y sc)"
    and "x \<in> set xs" and "\<And>sc. J sc \<Longrightarrow> K (f x sc)"
    and "\<And>y sc. y \<in> set xs \<Longrightarrow> J sc \<Longrightarrow> K sc \<Longrightarrow> K (f y sc)"
  shows "K (fold f xs sc)"
proof -
  have keep: "J sc \<and> K sc \<Longrightarrow> set ys \<subseteq> set xs \<Longrightarrow> J (fold f ys sc) \<and> K (fold f ys sc)" for ys sc
    using assms(2,5) by (induction ys arbitrary: sc) simp_all
  obtain as bs where xs: "xs = as @ x # bs" using assms(3) by (auto simp: in_set_conv_decomp)
  have pre: "J sc \<Longrightarrow> set ys \<subseteq> set xs \<Longrightarrow> J (fold f ys sc)" for ys sc
    using assms(2) by (induction ys arbitrary: sc) simp_all
  have "set as \<subseteq> set xs" by (auto simp: xs)
  with assms(1) have "J (fold f as sc)" by (rule pre)
  then have "J (f x (fold f as sc)) \<and> K (f x (fold f as sc))" using assms(2,3,4) by simp
  then show ?thesis using keep [of "f x (fold f as sc)" bs] by (auto simp: xs)
qed

lemma ingest_pins_inv:
  assumes "store_ok s" and "certified (n_crypto n) s"
    and "\<And>i. i < length ps \<Longrightarrow> pin_env_ok (n_crypto n) (env i)"
  shows "store_ok (fst (ingest_pins n ts env ps s)) \<and> certified (n_crypto n) (fst (ingest_pins n ts env ps s))"
  using assms by (intro ingest_pins_induct [where I = "\<lambda>sc. store_ok (fst sc) \<and> certified (n_crypto n) (fst sc)"])
    (auto simp: ingest_pin_inv)

text \<open>A pass on its own: no other task touches the store meanwhile.\<close>

definition quiet :: "pin_env \<Rightarrow> bool" where
  "quiet e \<longleftrightarrow> pin_during e = []"

lemma ingest_pin_quiet:
  assumes "quiet e" and "ingest_pin n ts (e, p) (s, c) = (s', c')"
  shows "index s' = index s \<or> norm (payload_hash p) \<notin> dom (index s) \<and> is_valid_hash (norm (payload_hash p)) \<and>
      (\<exists>b. index s' = (index s)(norm (payload_hash p) \<mapsto> len64 b))"
    and "denied s' = denied s" and "max_bytes s' = max_bytes s"
  using assms(1)
proof -
  show "index s' = index s \<or> norm (payload_hash p) \<notin> dom (index s) \<and> is_valid_hash (norm (payload_hash p)) \<and>
      (\<exists>b. index s' = (index s)(norm (payload_hash p) \<mapsto> len64 b))"
  proof (cases rule: ingest_pin_cases [of n ts e p s c])
    case (stored b v s2)
    with assms show ?thesis
      by (auto simp: quiet_def store_put_Ok_iff put_blob_def store_has_def)
  next
    case (refused b v er s2)
    then obtain d where "s2 = s\<lparr>files := d\<rparr>" using assms(1) by (auto simp: quiet_def elim: store_put_Err)
    with refused assms show ?thesis by simp
  qed (use assms in \<open>simp_all add: quiet_def\<close>)
  show "denied s' = denied s" "max_bytes s' = max_bytes s"
    by (cases rule: ingest_pin_cases [of n ts e p s c];
        use assms in \<open>auto simp: quiet_def store_put_Ok_iff put_blob_def elim: store_put_Err\<close>)+
qed

text \<open>
  A pin can be obtained: some candidate URL serves bytes that verify, or a peer answered with such bytes; and
  the disk takes them.
\<close>

definition obtainable :: "node \<Rightarrow> string list \<Rightarrow> pin_env \<Rightarrow> pin_item \<Rightarrow> bool" where
  "obtainable n ts e p \<longleftrightarrow>
     is_valid_hash (norm (payload_hash p)) \<and> write_out (pin_io e) = WOk \<and> rename_ok (pin_io e) \<and>
     ((\<exists>j < length (pin_urls n ts p). \<exists>b. verifies (n_crypto n) (norm (payload_hash p)) (max_object (n_config n))
         (pin_net e j (pin_urls n ts p ! j)) b) \<or>
      (\<exists>b. pin_peer e = Some (RespGet (Some b)) \<and> length b \<le> unat (max_object (n_config n)) \<and>
         sha256_hex (n_crypto n) b = norm (payload_hash p)))"

lemma some_candidate_verifies:
  assumes "j < length urls" and "verifies c (norm hash) m (net j (urls ! j)) b"
  shows "\<exists>b. acquire c net hash urls m = Inr b"
proof -
  let ?P = "\<lambda>j. j < length urls \<and> (\<exists>b. verifies c (norm hash) m (net j (urls ! j)) b)"
  have "?P j" using assms by blast
  then have l: "?P (LEAST j. ?P j)" by (rule LeastI)
  have "\<not> ?P i" if "i < (LEAST j. ?P j)" for i using that by (rule not_less_Least)
  with l show ?thesis unfolding acquire_Inr_iff by (meson less_trans)
qed

lemma obtainable_fetch:
  assumes "obtainable n ts e p"
  obtains b v where "fetch_pin n ts e p = Some (b, v)"
proof (cases "ok_bytes (acquire (n_crypto n) (pin_net e) (payload_hash p) (pin_urls n ts p) (max_object (n_config n)))")
  case (Some b)
  then have "fetch_pin n ts e p = Some (b, False)" by (simp add: fetch_pin_def)
  then show thesis by (rule that)
next
  case None
  then have "\<nexists>b. acquire (n_crypto n) (pin_net e) (payload_hash p) (pin_urls n ts p) (max_object (n_config n)) = Inr b"
    by (auto simp: ok_bytes_def)
  with assms obtain b where b: "pin_peer e = Some (RespGet (Some b))" "length b \<le> unat (max_object (n_config n))"
    "sha256_hex (n_crypto n) b = norm (payload_hash p)" "is_valid_hash (norm (payload_hash p))"
    unfolding obtainable_def using some_candidate_verifies by metis
  then have "want_from_peers n (payload_hash p) (pin_peer e) = Some b"
    by (simp add: want_from_peers_def norm_norm_valid)
  with None have "fetch_pin n ts e p = Some (b, True)" by (simp add: fetch_pin_def)
  then show thesis by (rule that)
qed

text \<open>A store whose budget may not have room for an object of the maximal size.\<close>

definition no_room :: "u64 \<Rightarrow> store \<Rightarrow> bool" where
  "no_room m s \<longleftrightarrow> max_bytes s \<noteq> 0 \<and> unat (max_bytes s) < unat (tot s) + unat m"

lemma over_budget:
  assumes "\<not> within_budget s h b" and "length b \<le> unat m"
  shows "no_room m s"
proof -
  have "unat m < 2 ^ LENGTH(64)" by (rule unsigned_less)
  then have "length b < 2 ^ 64" using assms(2) by simp
  with assms show ?thesis by (auto simp: no_room_def within_budget_def word_le_nat_alt unat_sat_add unat_len64)
qed

lemma ingest_pin_obtains:
  assumes "obtainable n ts e p" and "quiet e" and "norm (payload_hash p) \<notin> denied s"
  shows "norm (payload_hash p) \<in> dom (index (fst (ingest_pin n ts (e, p) (s, c)))) \<or>
    no_room (max_object (n_config n)) (fst (ingest_pin n ts (e, p) (s, c)))"
proof -
  obtain b v where f: "fetch_pin n ts e p = Some (b, v)" using assms(1) by (rule obtainable_fetch)
  have valid: "is_valid_hash (norm (payload_hash p))" using assms(1) by (simp add: obtainable_def)
  show ?thesis
  proof (cases "within_budget s (norm (payload_hash p)) b")
    case True
    then have put: "store_put (pin_io e) s (payload_hash p) b = (Inr (), put_blob s (norm (payload_hash p)) b)"
      using assms(1,3) by (simp add: store_put_Ok_iff obtainable_def)
    show ?thesis
      using assms(2,3) f put
      by (auto simp: ingest_pin_def Let_def quiet_def store_is_denied_def store_has_def put_blob_def)
  next
    case False
    from over_budget [OF this] fetch_pin_verified [OF f valid] have "no_room (max_object (n_config n)) s" by blast
    moreover have "store_put (pin_io e) s (payload_hash p) b = (Inl (OverBudget (max_bytes s) (tot s) (length b)), s)"
      using False valid assms(3) by (simp add: store_put_eq Let_def)
    ultimately show ?thesis
      using assms(2,3) f by (auto simp: ingest_pin_def Let_def quiet_def store_is_denied_def)
  qed
qed

text \<open>The total only grows, so that what has no room stays without.\<close>

lemma ingest_pin_total:
  assumes "quiet e"
  shows "unat (tot s) \<le> unat (tot (fst (ingest_pin n ts (e, p) (s, c))))"
proof (cases rule: ingest_pin_cases [of n ts e p s c])
  case (stored b v s2)
  then have "s2 = put_blob s (norm (payload_hash p)) b" "held_len s (norm (payload_hash p)) = 0"
    using assms by (auto simp: quiet_def store_put_Ok_iff held_len_def store_has_def)
  moreover have "unat (tot s) < 2 ^ LENGTH(64)" by (rule unsigned_less)
  ultimately show ?thesis using stored by (simp add: put_blob_def unat_sat_add unat_sat_sub)
next
  case (refused b v er s2)
  then obtain d where "s2 = s\<lparr>files := d\<rparr>" using assms by (auto simp: quiet_def elim: store_put_Err)
  with refused show ?thesis by simp
qed (use assms in \<open>simp_all add: quiet_def\<close>)

lemma quiet_fst:
  assumes "quiet e"
  shows "denied (fst (ingest_pin n ts (e, p) sc)) = denied (fst sc) \<and>
    max_bytes (fst (ingest_pin n ts (e, p) sc)) = max_bytes (fst sc) \<and>
    dom (index (fst sc)) \<subseteq> dom (index (fst (ingest_pin n ts (e, p) sc))) \<and>
    dom (index (fst (ingest_pin n ts (e, p) sc))) \<subseteq> insert (norm (payload_hash p)) (dom (index (fst sc)))"
proof -
  obtain s c where sc: "sc = (s, c)" by fastforce
  obtain s' c' where i: "ingest_pin n ts (e, p) (s, c) = (s', c')" by fastforce
  show ?thesis unfolding sc i using ingest_pin_quiet [OF assms i] by auto
qed

lemma ingest_pins_obtains:
  assumes "\<And>i. i < length ps \<Longrightarrow> quiet (env i)"
    and "i < length ps" and "obtainable n ts (env i) (ps ! i)" and "norm (payload_hash (ps ! i)) \<notin> denied s"
  shows "norm (payload_hash (ps ! i)) \<in> dom (index (fst (ingest_pins n ts env ps s))) \<or>
    no_room (max_object (n_config n)) (fst (ingest_pins n ts env ps s))"
proof -
  let ?xs = "map (\<lambda>(i, p). (env i, p)) (List.enumerate 0 ps)" and ?h = "norm (payload_hash (ps ! i))"
  let ?J = "\<lambda>sc. denied (fst sc) = denied s"
  let ?K = "\<lambda>sc. ?h \<in> dom (index (fst sc)) \<or> no_room (max_object (n_config n)) (fst sc)"
  have q: "\<exists>k < length ps. x = (env k, ps ! k)" if "x \<in> set ?xs" for x
    using that by (auto simp: enumerate_eq_zip set_zip)
  have J: "?J (ingest_pin n ts x sc)" if x: "x \<in> set ?xs" and sc: "?J sc" for x sc
  proof -
    obtain k where k: "k < length ps" "x = (env k, ps ! k)" using q [OF x] by blast
    show ?thesis using quiet_fst [OF assms(1) [OF k(1)], of n ts "ps ! k" sc] sc by (simp add: k(2))
  qed
  have "(env i, ps ! i) \<in> set ?xs" using assms(2) by (force simp: enumerate_eq_zip set_zip)
  then show ?thesis
    unfolding ingest_pins_def
  proof (rule fold_reaches [where J = ?J and K = ?K, rotated 2])
    fix sc :: "store \<times> counts" assume "?J sc"
    then show "?K (ingest_pin n ts (env i, ps ! i) sc)"
      using assms ingest_pin_obtains [of n ts "env i" "ps ! i" "fst sc" "snd sc"] by simp
  next
    fix x and sc :: "store \<times> counts" assume x: "x \<in> set ?xs" and K: "?K sc"
    obtain k where k: "k < length ps" "x = (env k, ps ! k)" using q [OF x] by blast
    show "?K (ingest_pin n ts x sc)"
      using K quiet_fst [OF assms(1) [OF k(1)], of n ts "ps ! k" sc]
        ingest_pin_total [OF assms(1) [OF k(1)], of "fst sc" n ts "ps ! k" "snd sc"]
      by (auto simp: k(2) no_room_def)
  qed (use J in simp_all)
qed

lemma ingest_pins_max_bytes:
  assumes "\<And>i. i < length ps \<Longrightarrow> quiet (env i)"
  shows "max_bytes (fst (ingest_pins n ts env ps s)) = max_bytes s"
  using assms quiet_fst [of "env i" n ts "ps ! i" sc for i sc]
  by (intro ingest_pins_induct [where I = "\<lambda>sc. max_bytes (fst sc) = max_bytes s"]) (simp, metis fst_conv)

text \<open>Without a budget there is always room.\<close>

lemma ingest_pins_unbounded:
  assumes "\<And>i. i < length ps \<Longrightarrow> quiet (env i)" and "max_bytes s = 0"
    and "i < length ps" and "obtainable n ts (env i) (ps ! i)" and "norm (payload_hash (ps ! i)) \<notin> denied s"
  shows "norm (payload_hash (ps ! i)) \<in> dom (index (fst (ingest_pins n ts env ps s)))"
  using ingest_pins_obtains [of ps env i n ts s] ingest_pins_max_bytes [of ps env n ts s] assms
  by (auto simp: no_room_def)

lemma ingest_pins_only_pins:
  assumes "\<And>i. i < length ps \<Longrightarrow> quiet (env i)"
  shows "dom (index (fst (ingest_pins n ts env ps s))) \<subseteq> dom (index s) \<union> (\<lambda>p. norm (payload_hash p)) ` set ps"
proof (rule ingest_pins_induct)
  fix i and t :: store and c :: counts
  assume i: "i < length ps" "dom (index (fst (t, c))) \<subseteq> dom (index s) \<union> (\<lambda>p. norm (payload_hash p)) ` set ps"
  then have "norm (payload_hash (ps ! i)) \<in> (\<lambda>p. norm (payload_hash p)) ` set ps" by simp
  with i quiet_fst [OF assms [OF i(1)], of n ts "ps ! i" "(t, c)"]
  show "dom (index (fst (ingest_pin n ts (env i, ps ! i) (t, c)))) \<subseteq> dom (index s) \<union> (\<lambda>p. norm (payload_hash p)) ` set ps"
    by blast
qed simp

section \<open>The counters\<close>

definition count_all :: "counts \<Rightarrow> u64" where
  "count_all c = n_fetched c + n_from_peer c + n_failed c + n_held c"

lemma ingest_pin_counted:
  assumes "\<not> store_is_denied s (payload_hash p)"
  shows "count_all (snd (ingest_pin n ts (e, p) (s, c))) = count_all c + 1"
  by (cases rule: ingest_pin_cases [of n ts e p s c]) (use assms in \<open>simp_all add: count_all_def\<close>)

lemma ingest_pins_counted:
  assumes "\<And>i. i < length ps \<Longrightarrow> quiet (env i)" and "\<And>p. p \<in> set ps \<Longrightarrow> norm (payload_hash p) \<notin> denied s"
  shows "count_all (snd (ingest_pins n ts env ps s)) = of_nat (length ps)"
proof -
  let ?xs = "map (\<lambda>(i, p). (env i, p)) (List.enumerate 0 ps)"
  have x: "quiet (fst x) \<and> norm (payload_hash (snd x)) \<notin> denied s" if "x \<in> set ?xs" for x
    using that assms by (auto simp: enumerate_eq_zip set_zip)
  have "denied (fst sc) = denied s \<Longrightarrow> set ys \<subseteq> set ?xs \<Longrightarrow>
      count_all (snd (fold (ingest_pin n ts) ys sc)) = count_all (snd sc) + of_nat (length ys)" for ys sc
  proof (induction ys arbitrary: sc)
    case (Cons y ys)
    obtain e p where y: "y = (e, p)" by fastforce
    obtain t c where sc: "sc = (t, c)" by fastforce
    have yx: "y \<in> set ?xs" using Cons.prems(2) by simp
    then have "\<not> store_is_denied t (payload_hash p)"
      using x [OF yx] Cons.prems(1) y sc by (simp add: store_is_denied_def)
    then have "count_all (snd (ingest_pin n ts y sc)) = count_all (snd sc) + 1"
      unfolding y sc by (simp add: ingest_pin_counted)
    moreover have "denied (fst (ingest_pin n ts y sc)) = denied s"
      using quiet_fst [of e n ts p sc] x [OF yx] Cons.prems(1) y by simp
    ultimately show ?case using Cons by simp
  qed simp
  from this [of "(s, zero_counts)" ?xs] show ?thesis
    by (simp add: ingest_pins_def count_all_def zero_counts_def)
qed

lemma ingest_pin_new_blobs:
  assumes "quiet e" and "finite (dom (index s))"
  shows "of_nat (card (dom (index (fst (ingest_pin n ts (e, p) (s, c))))))
      - (n_fetched (snd (ingest_pin n ts (e, p) (s, c))) + n_from_peer (snd (ingest_pin n ts (e, p) (s, c))))
    = (of_nat (card (dom (index s))) - (n_fetched c + n_from_peer c) :: u64)"
proof (cases rule: ingest_pin_cases [of n ts e p s c])
  case (stored b v s2)
  with assms have "norm (payload_hash p) \<notin> dom (index s)"
    "index s2 = (index s)(norm (payload_hash p) \<mapsto> len64 b)"
    by (auto simp: quiet_def store_put_Ok_iff put_blob_def store_has_def)
  with assms(2) have "card (dom (index s2)) = Suc (card (dom (index s)))" by simp
  with stored show ?thesis by simp
next
  case (refused b v er s2)
  then obtain d where "s2 = s\<lparr>files := d\<rparr>" using assms(1) by (auto simp: quiet_def elim: store_put_Err)
  with refused show ?thesis by simp
qed (use assms(1) in \<open>simp_all add: quiet_def\<close>)

lemma ingest_pins_new_blobs:
  assumes "\<And>i. i < length ps \<Longrightarrow> quiet (env i)" and "finite (dom (index s))"
  shows "of_nat (card (dom (index (fst (ingest_pins n ts env ps s))))) = of_nat (card (dom (index s)))
    + n_fetched (snd (ingest_pins n ts env ps s)) + n_from_peer (snd (ingest_pins n ts env ps s))"
proof -
  let ?I = "\<lambda>sc :: store \<times> counts. finite (dom (index (fst sc))) \<and>
      of_nat (card (dom (index (fst sc)))) - (n_fetched (snd sc) + n_from_peer (snd sc)) = (of_nat (card (dom (index s))) :: u64)"
  have "?I (ingest_pins n ts env ps s)"
  proof (rule ingest_pins_induct)
    show "?I (s, zero_counts)" using assms(2) by (simp add: zero_counts_def)
  next
    fix i t c assume i: "i < length ps" "?I (t, c)"
    have "finite (dom (index (fst (ingest_pin n ts (env i, ps ! i) (t, c)))))"
      using quiet_fst [OF assms(1) [OF i(1)], of n ts "ps ! i" "(t, c)"] i(2) by (auto intro: finite_subset)
    with i assms(1) show "?I (ingest_pin n ts (env i, ps ! i) (t, c))"
      by (simp only: ingest_pin_new_blobs fst_conv snd_conv simp_thms)
  qed
  then show ?thesis by (simp add: algebra_simps)
qed

section \<open>Configuration\<close>

lemma split_char_join: "join_str [d] (split_char d s) = s \<and> split_char d s \<noteq> []"
proof (induction s)
  case (Cons c s)
  then obtain w ws where w: "split_char d s = w # ws" by (cases "split_char d s") auto
  with Cons show ?case by (cases ws) auto
qed simp

lemma config_token: "config_token (read_config vars) = Some t \<longleftrightarrow> vars ''CSD_ADMIN_TOKEN'' = Some t \<and> t \<noteq> []"
  by (auto simp: read_config_def Let_def env_or_def split: option.splits)

inductive redirect_chain :: "(string \<Rightarrow> url_parts option) \<Rightarrow> string list \<Rightarrow> bool" for up where
  first: "redirect_chain up [u]"
| hop: "redirect_chain up us \<Longrightarrow> redirect_policy up us u = Follow \<Longrightarrow> redirect_chain up (us @ [u])"

inductive_cases redirect_hopE: "redirect_chain up (us @ [u])"

lemma redirect_chain_public:
  "redirect_chain up us \<Longrightarrow> us \<noteq> [] \<and> length us \<le> 3 \<and> (\<forall>u \<in> set (tl us). host_is_public up u)"
proof (induction rule: redirect_chain.induct)
  case (hop us u)
  then show ?case by (cases us) (auto simp: redirect_policy_def split: if_splits)
qed simp

end
