(* ===== verification/Gateway_Spec.thy ===== *)
theory Gateway_Spec
  imports Gateway
begin

unbundle bit_operations_syntax

text \<open>
  What the gateway promises: the token comparison is equality, no request makes a handler panic, ranges are
  those of the HTTP specification, a body is a slice of bytes that hash to the requested address, HEAD and GET
  agree, only authorised requests change the store, and at most as many reads run at once as there are
  permits.
\<close>

section \<open>The admin token\<close>

lemma xor_eq_0_u8: "(x :: u8) XOR y = 0 \<longleftrightarrow> x = y"
  by (auto simp: bit_eq_iff bit_xor_iff)

lemma foldl_or_zero:
  "foldl (\<lambda>d (x, y). d OR (x XOR y)) (d :: u8) xs = 0 \<longleftrightarrow> d = 0 \<and> (\<forall>(x, y) \<in> set xs. x = y)"
  by (induction xs arbitrary: d) (auto simp: or_eq_0_iff xor_eq_0_u8)

lemma ct_eq_iff: "ct_eq a b \<longleftrightarrow> a = b"
proof -
  have "length a = length b \<Longrightarrow> (\<forall>(x, y) \<in> set (zip a b). x = y) \<longleftrightarrow> a = b"
    by (auto simp: set_zip list_eq_iff_nth_eq)
  then show ?thesis by (auto simp: ct_eq_def foldl_or_zero)
qed

lemma str_bytes_inject: "str_bytes s = str_bytes t \<longleftrightarrow> s = t"
  by (metis bytes_str_str_bytes)

text \<open>The token a request presents: a bearer token, or else the custom header.\<close>

definition presented :: "header_map \<Rightarrow> string option" where
  "presented headers =
     (case Option.bind (Option.bind (header_get headers ''authorization'') to_str) (strip_prefix ''Bearer '') of
        Some g \<Rightarrow> Some g
      | None \<Rightarrow> Option.bind (header_get headers ''x-admin-token'') to_str)"

lemma admin_ok_iff: "admin_ok st headers \<longleftrightarrow> (\<exists>t. admin_token st = Some t \<and> presented headers = Some t)"
  by (auto simp: admin_ok_def presented_def Let_def ct_eq_iff str_bytes_inject split: option.splits)

section \<open>Header values\<close>

lemma header_value_append [simp]: "header_value_ok (s @ t) \<longleftrightarrow> header_value_ok s \<and> header_value_ok t"
  by (simp add: header_value_ok_def)

lemma header_value_hex: "lower_hex64 h \<Longrightarrow> header_value_ok h"
  by (auto simp: lower_hex64_def header_value_ok_def is_lower_hexdigit_def list_all_iff)

lemma header_value_dec [simp]: "header_value_ok (dec_str n)"
proof -
  have "is_digit c \<Longrightarrow> 32 \<le> code c \<and> code c \<noteq> 127" for c by (auto simp: is_digit_def)
  with dec_str_digits [of n] show ?thesis by (auto simp: header_value_ok_def list_all_iff)
qed

text \<open>The headers of a content reply, for an address in normal form.\<close>

definition content_header_list :: "string \<Rightarrow> nat \<Rightarrow> header_map" where
  "content_header_list h n =
     [(''content-type'', ''application/json; charset=utf-8''), (''etag'', ''\"0x'' @ h @ ''\"''),
      (''cache-control'', ''public, max-age=31536000, immutable''), (''accept-ranges'', ''bytes''),
      (''access-control-allow-origin'', ''*''), (''x-content-type-options'', ''nosniff''),
      (''content-disposition'', ''attachment''),
      (''content-security-policy'', ''default-src '' @ [CHR 0x27] @ ''none'' @ [CHR 0x27] @ ''; sandbox''),
      (''content-length'', dec_str n), (''x-csd-payload-hash'', ''0x'' @ h)]"

lemma content_headers_Some: "lower_hex64 h \<Longrightarrow> content_headers h len = Some (content_header_list h (unat len))"
proof -
  assume "lower_hex64 h"
  then have "header_value_ok (''\"0x'' @ h @ ''\"'')" "header_value_ok (''0x'' @ h)"
    by (simp_all only: header_value_append header_value_hex) (simp_all add: header_value_ok_def)
  moreover have "header_value_ok ''application/json; charset=utf-8''"
    "header_value_ok ''public, max-age=31536000, immutable''" "header_value_ok ''bytes''"
    "header_value_ok ''*''" "header_value_ok ''nosniff''" "header_value_ok ''attachment''"
    "header_value_ok (''default-src '' @ [CHR 0x27] @ ''none'' @ [CHR 0x27] @ ''; sandbox'')"
    by (simp_all add: header_value_ok_def)
  ultimately show ?thesis
    unfolding content_headers_def parse_headers_def content_header_list_def list.pred_inject prod.case
    by (simp only: list.pred_inject header_value_dec simp_thms if_True)
qed

section \<open>Ranges\<close>

text \<open>
  The byte range a parsed \<open>Range\<close> header selects of \<open>n\<close> bytes, as first and last position; \<open>None\<close> when it is
  not satisfiable. A last position past the end is cut, a suffix longer than the content is the content.
\<close>

fun range_spec :: "nat \<Rightarrow> u64 option \<times> u64 option \<Rightarrow> (nat \<times> nat) option" where
  "range_spec n (Some s, Some e) =
     (if unat s < n \<and> unat s \<le> unat e then Some (unat s, min (unat e) (n - 1)) else None)"
| "range_spec n (Some s, None) = (if unat s < n then Some (unat s, n - 1) else None)"
| "range_spec n (None, Some k) = (if 0 < n \<and> 0 < unat k then Some (n - unat k, n - 1) else None)"
| "range_spec n (None, None) = (if 0 < n then Some (0, n - 1) else None)"

lemma range_spec_bounds: "range_spec n rng = Some (s, e) \<Longrightarrow> s \<le> e \<and> e < n"
  by (induction n rng rule: range_spec.induct) (auto split: if_splits)

lemma unat_min: "unat (min a (b :: u64)) = min (unat a) (unat b)"
  by (simp add: min_def word_le_nat_alt)

lemma clamp_range_spec:
  "clamp_range rng len = (s, e) \<Longrightarrow>
    (if e < s \<or> len \<le> s then None else Some (unat s, unat e)) = range_spec (unat len) rng"
  by (induction rng len rule: clamp_range.induct)
     (auto simp: word_less_nat_alt word_le_nat_alt unat_sat_sub unat_min min_def)

lemma slice_incl_Some:
  "unat s \<le> unat e \<Longrightarrow> unat e < length b \<Longrightarrow> unat e < 2 ^ 64 - 1 \<Longrightarrow>
    slice_incl b s e = Some (take (unat e + 1 - unat s) (drop (unat s) b))"
  by (auto simp: slice_incl_def)

definition range_result :: "string \<Rightarrow> bytes \<Rightarrow> u64 option \<times> u64 option \<Rightarrow> reply" where
  "range_result h b rng =
     (let n = unat (len64 b)
      in case range_spec n rng of
           None \<Rightarrow> \<lparr>reply_status = 416, reply_headers = [(''content-range'', ''bytes */'' @ dec_str n)],
                    reply_body = NoBody\<rparr>
         | Some (s, e) \<Rightarrow>
             \<lparr>reply_status = 206,
              reply_headers = content_header_list h (e + 1 - s) @
                [(''content-range'', ''bytes '' @ dec_str s @ ''-'' @ dec_str e @ ''/'' @ dec_str n)],
              reply_body = Content (take (e + 1 - s) (drop s b))\<rparr>)"

lemma unat_len64_le: "unat (len64 b) \<le> length b"
  by (simp add: len64_def unat_of_nat take_bit_eq_mod)

lemma range_reply_Some:
  assumes "lower_hex64 h"
  shows "range_reply h b rng = Some (range_result h b rng)"
proof -
  obtain s e where se: "clamp_range rng (len64 b) = (s, e)" by fastforce
  note spec = clamp_range_spec [OF se]
  have cr: "parse_headers [(''content-range'', ''bytes */'' @ dec_str n)]
      = Some [(''content-range'', ''bytes */'' @ dec_str n)]"
    "parse_headers [(''content-range'', ''bytes '' @ dec_str k @ ''-'' @ dec_str l @ ''/'' @ dec_str n)]
      = Some [(''content-range'', ''bytes '' @ dec_str k @ ''-'' @ dec_str l @ ''/'' @ dec_str n)]" for k l n
    unfolding parse_headers_def list.pred_inject prod.case header_value_append
    by (simp_all add: header_value_ok_def [of "_ # _"])
  show ?thesis
  proof (cases "e < s \<or> len64 b \<le> s")
    case True
    with spec have "range_spec (unat (len64 b)) rng = None" by simp
    with True se show ?thesis
      by (simp add: range_reply_def range_result_def Let_def cr [simplified])
  next
    case False
    with spec have r: "range_spec (unat (len64 b)) rng = Some (unat s, unat e)" by simp
    then have b: "unat s \<le> unat e" "unat e < unat (len64 b)" by (auto dest: range_spec_bounds)
    have len: "unat (len64 b) < 2 ^ 64" using unsigned_less [of "len64 b"] by simp
    let ?slice = "take (unat e + 1 - unat s) (drop (unat s) b)"
    have "slice_incl b s e = Some ?slice"
      using b len unat_len64_le [of b] by (intro slice_incl_Some) simp_all
    moreover have "length ?slice = unat e + 1 - unat s" using b unat_len64_le [of b] by simp
    then have "unat (len64 ?slice) = unat e + 1 - unat s" using b len by (simp add: unat_len64)
    ultimately show ?thesis
      using False se r assms
      by (simp add: range_reply_def range_result_def Let_def cr [simplified] content_headers_Some)
  qed
qed

section \<open>Content replies\<close>

definition range_of :: "header_map \<Rightarrow> (u64 option \<times> u64 option) option" where
  "range_of headers = Option.bind (Option.bind (header_get headers ''range'') to_str) parse_range"

definition full_result :: "string \<Rightarrow> bytes \<Rightarrow> reply" where
  "full_result h b =
     \<lparr>reply_status = 200, reply_headers = content_header_list h (unat (len64 b)), reply_body = Content b\<rparr>"

definition serve_result :: "crypto \<Rightarrow> bool \<Rightarrow> store \<Rightarrow> header_map \<Rightarrow> string \<Rightarrow> reply" where
  "serve_result c read_ok s headers h =
     (case store_get read_ok s h of
        None \<Rightarrow> text_reply 404 ''not held by this gateway''
      | Some b \<Rightarrow>
          if sha256_hex c b \<noteq> h then text_reply 500 ''stored bytes failed self-verification''
          else case range_of headers of Some rng \<Rightarrow> range_result h b rng | None \<Rightarrow> full_result h b)"

lemma get_serve_Some:
  "lower_hex64 h \<Longrightarrow> get_serve c ok st headers h = Some (serve_result c ok (gw_store st) headers h)"
  by (simp add: get_serve_def get_finish_def serve_result_def range_of_def full_result_def range_reply_Some
      content_headers_Some split: option.split)

lemma get_admit_Inr:
  "get_admit st hash = Inr h \<longleftrightarrow> gw_norm hash = Some h \<and> h \<notin> denied (gw_store st) \<and> conns st \<noteq> 0"
  by (auto simp: get_admit_def store_is_denied_def dest: gw_norm_Some split: option.splits)

lemma get_content_eq:
  "get_content c ok st headers hash = Some
     (case gw_norm hash of
        None \<Rightarrow> text_reply 400 ''want /content/0x<64-hex payload_hash>''
      | Some h \<Rightarrow>
          if h \<in> denied (gw_store st) then text_reply 410 ''content removed by the operator''
          else if conns st = 0 then text_reply 503 ''gateway busy''
          else serve_result c ok (gw_store st) headers h)"
  by (auto simp: get_content_def get_admit_def store_is_denied_def get_serve_Some
      dest: gw_norm_Some split: option.splits)

text \<open>The bodies a content reply can carry: whole blobs and slices of blobs.\<close>

lemma serve_result_Content:
  assumes "reply_body (serve_result c ok s headers h) = Content x"
  obtains b where "store_get ok s h = Some b" "sha256_hex c b = h"
    and "reply_status (serve_result c ok s headers h) = 200 \<and> x = b \<or>
      reply_status (serve_result c ok s headers h) = 206 \<and>
        (\<exists>i j. i \<le> j \<and> j < length b \<and> x = take (j + 1 - i) (drop i b))"
proof -
  obtain b where b: "store_get ok s h = Some b" "sha256_hex c b = h"
    using assms by (auto simp: serve_result_def text_reply_def split: option.splits if_splits)
  show thesis
  proof (cases "range_of headers")
    case None
    with b assms have "x = b" "reply_status (serve_result c ok s headers h) = 200"
      by (simp_all add: serve_result_def full_result_def)
    with b that show thesis by blast
  next
    case (Some rng)
    with b assms obtain i j where ij: "range_spec (unat (len64 b)) rng = Some (i, j)"
      "x = take (j + 1 - i) (drop i b)" "reply_status (serve_result c ok s headers h) = 206"
      by (auto simp: serve_result_def range_result_def Let_def split: option.splits prod.splits)
    with range_spec_bounds [OF ij(1)] unat_len64_le [of b] that b show thesis
      by (metis le_trans less_le_trans)
  qed
qed

lemma store_get_hex:
  "lower_hex64 h \<Longrightarrow>
    store_get ok s h = (if h \<in> dom (index s) then fs_read ok (blob_path h) (files s) else None)"
  by (simp add: store_get_def norm_lower_hex64 lower_hex64_valid)

lemma store_get_held:
  "store_get ok s hash = Some b \<Longrightarrow> norm hash \<in> dom (index s) \<and> files s (blob_path (norm hash)) = Some b"
  by (auto simp: store_get_def fs_read_def Let_def split: if_splits)

lemma head_content_eq:
  "head_content st hash = Some
     (case gw_norm hash of
        None \<Rightarrow> plain 400
      | Some h \<Rightarrow>
          if h \<in> denied (gw_store st) then text_reply 410 ''content removed by the operator''
          else case index (gw_store st) h of
            Some len \<Rightarrow> \<lparr>reply_status = 200, reply_headers = content_header_list h (unat len), reply_body = NoBody\<rparr>
          | None \<Rightarrow> plain 404)"
  by (auto simp: head_content_def head_finish_def store_is_denied_def store_has_def content_headers_Some
      dest: gw_norm_Some split: option.splits)

text \<open>What a content body is.\<close>

lemma content_reply_verified:
  assumes "get_content c ok st headers hash = Some r" and "reply_body r = Content x"
  shows "is_valid_hash (norm hash) \<and> norm hash \<notin> denied (gw_store st) \<and>
    (\<exists>b. files (gw_store st) (blob_path (norm hash)) = Some b \<and> sha256_hex c b = norm hash \<and>
      (reply_status r = 200 \<and> x = b \<or>
       reply_status r = 206 \<and> (\<exists>i j. i \<le> j \<and> j < length b \<and> x = take (j + 1 - i) (drop i b))))"
proof -
  from assms obtain h where h: "gw_norm hash = Some h" "h \<notin> denied (gw_store st)"
    "r = serve_result c ok (gw_store st) headers h"
    by (auto simp: get_content_eq text_reply_def split: option.splits if_splits)
  then have n: "h = norm hash" "norm h = h" "is_valid_hash (norm hash)"
    using gw_norm_Some [OF h(1)] lower_hex64_valid by auto
  from assms(2) [unfolded h(3)] obtain b where b: "store_get ok (gw_store st) h = Some b" "sha256_hex c b = h"
    "reply_status (serve_result c ok (gw_store st) headers h) = 200 \<and> x = b \<or>
      reply_status (serve_result c ok (gw_store st) headers h) = 206 \<and>
        (\<exists>i j. i \<le> j \<and> j < length b \<and> x = take (j + 1 - i) (drop i b))"
    by (rule serve_result_Content)
  then have "files (gw_store st) (blob_path h) = Some b" using store_get_held n(2) by metis
  with b h(2,3) n show ?thesis by auto
qed

section \<open>Takedowns\<close>

lemma purge_deny_content [simp]: "purge_content = deny_content"
  by (simp add: fun_eq_iff purge_content_def deny_content_def)

lemma deny_content_store:
  "snd (deny_content i st headers hash) =
     (if admin_ok st headers \<and> gw_norm hash \<noteq> None
      then st\<lparr>gw_store := snd (store_deny i (gw_store st) (norm hash))\<rparr> else st)"
  by (auto simp: deny_content_def dest: gw_norm_Some split: option.splits prod.splits sum.splits)

lemma allow_content_store:
  "snd (allow_content i st headers hash) =
     (if admin_ok st headers \<and> gw_norm hash \<noteq> None
      then st\<lparr>gw_store := snd (store_allow i (gw_store st) (norm hash))\<rparr> else st)"
  by (auto simp: allow_content_def dest: gw_norm_Some split: option.splits prod.splits sum.splits)

lemma deny_content_200:
  assumes "deny_content i st headers hash = (r, st')" and "reply_status r = 200"
  obtains h p s where "gw_norm hash = Some h" "store_deny i (gw_store st) h = (Inr p, s)" "st' = st\<lparr>gw_store := s\<rparr>"
proof -
  have adm: "admin_ok st headers"
    using assms by (cases "admin_ok st headers") (auto simp: deny_content_def text_reply_def)
  with assms obtain h where h: "gw_norm hash = Some h"
    by (cases "gw_norm hash") (auto simp: deny_content_def plain_def)
  obtain x s where x: "store_deny i (gw_store st) h = (x, s)" by fastforce
  show thesis
  proof (cases x)
    case (Inl e)
    with assms adm h x show thesis by (auto simp: deny_content_def error_reply_def)
  next
    case (Inr p)
    with assms(1) adm h x have "st' = st\<lparr>gw_store := s\<rparr>" by (simp add: deny_content_def)
    with h x Inr show thesis by (intro that) simp_all
  qed
qed

text \<open>The headers of a request that asks for a change, and the requests that only read.\<close>

fun admin_headers :: "request \<Rightarrow> header_map option" where
  "admin_headers (DeleteContent hs _) = Some hs"
| "admin_headers (PostDeny hs _) = Some hs"
| "admin_headers (PostAllow hs _) = Some hs"
| "admin_headers _ = None"

lemma gw_handle_no_change:
  "(\<And>hs. admin_headers rq = Some hs \<Longrightarrow> \<not> admin_ok st hs) \<Longrightarrow> snd (gw_handle c e st rq) = st"
  by (cases rq) (auto simp: deny_content_store allow_content_store)

lemma gw_handle_forbidden:
  "admin_headers rq = Some hs \<Longrightarrow> \<not> admin_ok st hs \<Longrightarrow>
    fst (gw_handle c e st rq) = Some (text_reply 403 ''admin token required'')"
  by (cases rq) (auto simp: deny_content_def allow_content_def)

lemma gw_handle_never_panics: "fst (gw_handle c e st rq) \<noteq> None"
  by (cases rq) (simp_all add: get_content_eq head_content_eq)

text \<open>What runs beside the requests: the ingest loop stores content.\<close>

datatype gw_event = Serve gw_env request | Ingest io string bytes

fun gw_step :: "crypto \<Rightarrow> gw_state \<Rightarrow> gw_event \<Rightarrow> gw_state" where
  "gw_step c st (Serve e rq) = snd (gw_handle c e st rq)"
| "gw_step c st (Ingest i hash b) = st\<lparr>gw_store := snd (store_put i (gw_store st) hash b)\<rparr>"

fun gw_legal :: "gw_event \<Rightarrow> bool" where
  "gw_legal (Serve e rq) = order_ok (env_io e)"
| "gw_legal (Ingest i hash b) = order_ok i"

text \<open>An event that lifts the ban of \<open>h\<close>: an allow request that presents the configured token.\<close>

fun authorised_allow :: "string option \<Rightarrow> gw_event \<Rightarrow> string \<Rightarrow> bool" where
  "authorised_allow tok (Serve e (PostAllow hs hash)) h = (tok \<noteq> None \<and> presented hs = tok \<and> norm hash = h)"
| "authorised_allow tok _ h = False"

definition gw_inv :: "string option \<Rightarrow> gw_state \<Rightarrow> bool" where
  "gw_inv tok st \<longleftrightarrow> store_ok (gw_store st) \<and> admin_token st = tok"

lemma gw_step_token: "admin_token (gw_step c st e) = admin_token st"
  by (cases "(c, st, e)" rule: gw_step.cases; cases "case e of Serve _ rq \<Rightarrow> rq | _ \<Rightarrow> GetPins")
     (auto simp: deny_content_store allow_content_store)

lemma gw_step_store:
  assumes "store_ok (gw_store st)" and "gw_legal e"
  shows "store_ok (gw_store (gw_step c st e))"
proof (cases "(c, st, e)" rule: gw_step.cases)
  case (1 c' st' e' rq)
  with assms show ?thesis
    by (cases rq) (auto simp: deny_content_store allow_content_store store_ok_deny store_ok_allow)
qed (use assms in \<open>auto simp: store_ok_put\<close>)

lemma gw_step_ban:
  assumes "gw_inv tok st" and "h \<in> denied (gw_store st)" and "\<not> authorised_allow tok e h"
  shows "h \<in> denied (gw_store (gw_step c st e))"
proof (cases "(c, st, e)" rule: gw_step.cases)
  case (1 c' st' e' rq)
  show ?thesis
  proof (cases rq)
    case (PostAllow hs hash)
    have "gw_norm hash \<noteq> None \<Longrightarrow> norm (norm hash) = norm hash" by (auto dest: gw_norm_Some)
    with 1 PostAllow assms show ?thesis
      by (auto simp: allow_content_store gw_inv_def admin_ok_iff intro!: allow_denied)
  qed (use 1 assms in \<open>auto simp: deny_content_store deny_denied\<close>)
qed (use assms in auto)

interpretation gw_run: banning_machine "gw_step c" gw_legal "gw_inv tok"
    "\<lambda>st h. h \<in> denied (gw_store st)" "\<lambda>st h. h \<in> dom (index (gw_store st))" "authorised_allow tok"
  for c :: crypto and tok :: "string option"
proof unfold_locales
  fix st e assume "gw_inv tok st" "gw_legal e"
  then show "gw_inv tok (gw_step c st e)" by (simp add: gw_inv_def gw_step_store gw_step_token)
next
  fix st h assume "gw_inv tok st" "h \<in> denied (gw_store st)"
  then show "\<not> h \<in> dom (index (gw_store st))" by (simp add: gw_inv_def store_run.banned_not_held)
qed (rule gw_step_ban)

section \<open>Monitoring\<close>

definition pin_entry :: "string \<times> u64 \<Rightarrow> json" where
  "pin_entry e = JObj [(''hash'', JStr (fst e)), (''status'', JStr ''pinned''), (''bytes'', JNum (unat (snd e)))]"

lemma store_list_facts:
  assumes "hash_iter ord" and "finite (dom (index s))"
  shows "set (store_list ord s) = {(''0x'' @ h, n) | h n. index s h = Some n}"
    and "distinct (map fst (store_list ord s))" and "length (store_list ord s) = store_count s"
proof -
  have o: "set (ord (dom (index s))) = dom (index s)" "distinct (ord (dom (index s)))"
    using assms by (simp_all add: set_hash_iter distinct_hash_iter)
  show "set (store_list ord s) = {(''0x'' @ h, n) | h n. index s h = Some n}"
    using o(1) by (force simp: store_list_def)
  show "distinct (map fst (store_list ord s))"
    using o(2) by (simp add: store_list_def distinct_map inj_on_def o_def)
  show "length (store_list ord s) = store_count s"
    using o distinct_card [OF o(2)] by (simp add: store_list_def store_count_def)
qed

lemma pins_eq:
  assumes "hash_iter ord" and "finite (dom (index (gw_store st)))"
  obtains l where "pins ord st = json_reply (JObj
      [(''ok'', JBool True), (''count'', JNum (store_count (gw_store st))), (''pins'', JArr (map pin_entry l))])"
    and "sorted l" and "distinct (map fst l)" and "length l = store_count (gw_store st)" and "set l = {(''0x'' @ h, n) | h n. index (gw_store st) h = Some n}"
proof -
  let ?l = "sort (store_list ord (gw_store st))"
  note f = store_list_facts [OF assms]
  have "distinct (store_list ord (gw_store st))" and "inj_on fst (set (store_list ord (gw_store st)))"
    using f(2) by (simp_all add: distinct_map)
  then have "distinct (map fst ?l)" by (simp only: distinct_map distinct_sort set_sort)
  moreover have "pin_entry = (\<lambda>(h, len). JObj [(''hash'', JStr h), (''status'', JStr ''pinned''), (''bytes'', JNum (unat len))])"
    by (simp add: fun_eq_iff pin_entry_def)
  ultimately show thesis
    using f(1,3) by (intro that [of ?l]) (simp_all add: pins_def Let_def)
qed

end
