(* ===== verification/P2p_Loop.thy ===== *)
theory P2p_Loop
  imports P2p
begin

text \<open>
  The event loop of \<open>p2p::run\<close> (src/p2p.rs): its local state together with the store it shares, one
  function per branch of the \<open>select!\<close>, and \<open>p2p_step\<close> that dispatches on the event.
\<close>

section \<open>State, events, outputs\<close>

text \<open>
  \<open>pending\<close> maps the number of an outbound request to the wanted hash and the oneshot sender; \<open>next_rid\<close> is
  the number libp2p gives to the next request. \<open>serving\<close> are the spawned serve tasks (response channel and
  hash), each with a permit; \<open>serve_queue\<close> is the channel on which they hand back their responses.
\<close>

record p2p_state =
  p_store :: store
  providers :: "string \<rightharpoonup> string set"
  pending :: "nat \<rightharpoonup> string \<times> nat"
  next_rid :: nat
  peer_status :: "string \<rightharpoonup> string"
  listen_report :: "nat option"
  serve_permits :: nat
  serving :: "(nat \<times> string) list"
  serve_queue :: "(nat \<times> resp) list"
  running :: bool

datatype p2p_out =
    SendRequest string nat req | SendResponse nat resp | Publish bytes | DialOut string
  | Deliver nat "bytes option" | ReportListen nat string

datatype p2p_event =
    Want string nat | Dial string | CmdClosed | AnnounceTick | ServeDone
  | NewListenAddr string | ConnEstablished string string | ConnClosed string nat
  | Gossip "string option" bytes | Request req nat | Response nat resp | OutboundFailure nat | OtherEvent
  | ServeTask nat | StoreOp store_op

text \<open>What the runtime chooses for one event: the order of hash iterations, I/O outcomes.\<close>

record p2p_env =
  ev_order :: "string set \<Rightarrow> string list"
  ev_read :: bool
  ev_io :: io

record p2p_cfg =
  cfg_crypto :: crypto
  cfg_max_bytes :: usize

definition p2p_start :: "store \<Rightarrow> nat option \<Rightarrow> p2p_state" where
  "p2p_start s report =
     \<lparr>p_store = s, providers = Map.empty, pending = Map.empty, next_rid = 0, peer_status = Map.empty,
      listen_report = report, serve_permits = MAX_CONCURRENT_SERVES, serving = [], serve_queue = [],
      running = True\<rparr>"

section \<open>The branches\<close>

definition publish_held :: "p2p_env \<Rightarrow> p2p_state \<Rightarrow> p2p_out list" where
  "publish_held e s =
     (let hs = store_list (ev_order e) (p_store s)
      in if hs = [] then [] else [Publish (str_bytes (held_body hs))])"

definition on_want :: "p2p_env \<Rightarrow> p2p_state \<Rightarrow> string \<Rightarrow> nat \<Rightarrow> p2p_state \<times> p2p_out list" where
  "on_want e s hash reply =
     (let h = p2p_norm hash;
          peer = (case providers s h of
                    None \<Rightarrow> None
                  | Some S \<Rightarrow> (case ev_order e S of [] \<Rightarrow> None | p # _ \<Rightarrow> Some p))
      in case peer of
           Some p \<Rightarrow>
             (let rid = next_rid s
              in (s\<lparr>pending := (pending s)(rid \<mapsto> (h, reply)), next_rid := rid + 1\<rparr>,
                  [SendRequest p rid (ReqGet (''0x'' @ h))]))
         | None \<Rightarrow> (s, [Deliver reply None]))"

definition on_serve_done :: "p2p_state \<Rightarrow> p2p_state \<times> p2p_out list" where
  "on_serve_done s =
     (case serve_queue s of
        [] \<Rightarrow> (s, [])
      | (channel, r) # q \<Rightarrow> (s\<lparr>serve_queue := q\<rparr>, [SendResponse channel r]))"

definition on_listen :: "p2p_state \<Rightarrow> string \<Rightarrow> p2p_state \<times> p2p_out list" where
  "on_listen s addr =
     (case listen_report s of
        Some tx \<Rightarrow> (s\<lparr>listen_report := None\<rparr>, [ReportListen tx addr])
      | None \<Rightarrow> (s, []))"

definition on_connected :: "p2p_env \<Rightarrow> p2p_state \<Rightarrow> string \<Rightarrow> string \<Rightarrow> p2p_state \<times> p2p_out list" where
  "on_connected e s peer addr =
     (let s' = s\<lparr>peer_status := (peer_status s)(peer \<mapsto> addr)\<rparr> in (s', publish_held e s'))"

definition on_disconnected :: "p2p_state \<Rightarrow> string \<Rightarrow> nat \<Rightarrow> p2p_state" where
  "on_disconnected s peer num_established =
     (if num_established = 0 then s\<lparr>peer_status := (peer_status s)(peer := None)\<rparr> else s)"

fun on_request :: "p2p_state \<Rightarrow> req \<Rightarrow> nat \<Rightarrow> p2p_state \<times> p2p_out list" where
  "on_request s (ReqHave h) channel =
     (let n = p2p_norm h;
          has = (\<not> store_is_denied (p_store s) n \<and> store_has (p_store s) n \<noteq> None);
          len = (if has then (case store_has (p_store s) n of Some l \<Rightarrow> l | None \<Rightarrow> 0) else 0)
      in (s, [SendResponse channel (RespHave has len)]))"
| "on_request s (ReqGet h) channel =
     (let n = p2p_norm h
      in if 0 < serve_permits s then
           (s\<lparr>serve_permits := serve_permits s - 1, serving := serving s @ [(channel, n)]\<rparr>, [])
         else (s, [SendResponse channel (RespGet None)]))"

text \<open>
  A serve task runs: it reads the blob unless the hash is denied, hands the response to the queue (it waits
  while the queue is full), and drops its permit. \<open>serve_finish\<close> is the end of the task, once it has the body.
\<close>

definition serve_finish :: "p2p_state \<Rightarrow> nat \<Rightarrow> bytes option \<Rightarrow> p2p_state" where
  "serve_finish s k body =
     (if k < length (serving s) \<and> length (serve_queue s) < MAX_CONCURRENT_SERVES then
        s\<lparr>serving := take k (serving s) @ drop (Suc k) (serving s),
          serve_queue := serve_queue s @ [(fst (serving s ! k), RespGet body)],
          serve_permits := serve_permits s + 1\<rparr>
      else s)"

definition on_serve_task :: "p2p_env \<Rightarrow> p2p_state \<Rightarrow> nat \<Rightarrow> p2p_state" where
  "on_serve_task e s k =
     (let n = snd (serving s ! k)
      in serve_finish s k (if store_is_denied (p_store s) n then None else store_get (ev_read e) (p_store s) n))"

definition on_response :: "p2p_cfg \<Rightarrow> p2p_state \<Rightarrow> nat \<Rightarrow> resp \<Rightarrow> p2p_state \<times> p2p_out list" where
  "on_response cfg s rid r =
     (case pending s rid of
        Some (want, reply) \<Rightarrow>
          (s\<lparr>pending := (pending s)(rid := None)\<rparr>,
           [Deliver reply (accept_get (cfg_crypto cfg) want r (cfg_max_bytes cfg))])
      | None \<Rightarrow> (s, []))"

definition on_failure :: "p2p_state \<Rightarrow> nat \<Rightarrow> p2p_state \<times> p2p_out list" where
  "on_failure s rid =
     (case pending s rid of
        Some (_, reply) \<Rightarrow> (s\<lparr>pending := (pending s)(rid := None)\<rparr>, [Deliver reply None])
      | None \<Rightarrow> (s, []))"

section \<open>The loop body\<close>

fun p2p_handle :: "p2p_cfg \<Rightarrow> p2p_state \<Rightarrow> p2p_env \<times> p2p_event \<Rightarrow> p2p_state \<times> p2p_out list" where
  "p2p_handle cfg s (e, Want hash reply) = on_want e s hash reply"
| "p2p_handle cfg s (e, Dial addr) = (s, [DialOut addr])"
| "p2p_handle cfg s (e, CmdClosed) = (s\<lparr>running := False\<rparr>, [])"
| "p2p_handle cfg s (e, AnnounceTick) = (s, publish_held e s)"
| "p2p_handle cfg s (e, ServeDone) = on_serve_done s"
| "p2p_handle cfg s (e, NewListenAddr addr) = on_listen s addr"
| "p2p_handle cfg s (e, ConnEstablished peer addr) = on_connected e s peer addr"
| "p2p_handle cfg s (e, ConnClosed peer n) = (on_disconnected s peer n, [])"
| "p2p_handle cfg s (e, Gossip source data) =
     (s\<lparr>providers := learn_message source data (providers s)\<rparr>, [])"
| "p2p_handle cfg s (e, Request r channel) = on_request s r channel"
| "p2p_handle cfg s (e, Response rid r) = on_response cfg s rid r"
| "p2p_handle cfg s (e, OutboundFailure rid) = on_failure s rid"
| "p2p_handle cfg s (e, OtherEvent) = (s, [])"
| "p2p_handle cfg s (e, ServeTask k) = (on_serve_task e s k, [])"
| "p2p_handle cfg s (e, StoreOp op) = (s\<lparr>p_store := store_step (p_store s) (ev_io e, op)\<rparr>, [])"

definition p2p_step :: "p2p_cfg \<Rightarrow> p2p_state \<Rightarrow> p2p_env \<times> p2p_event \<Rightarrow> p2p_state \<times> p2p_out list" where
  "p2p_step cfg s e = (if running s then p2p_handle cfg s e else (s, []))"

text \<open>A run: the state it ends in and all its outputs, in order.\<close>

fun p2p_run :: "p2p_cfg \<Rightarrow> p2p_state \<Rightarrow> (p2p_env \<times> p2p_event) list \<Rightarrow> p2p_state \<times> p2p_out list" where
  "p2p_run cfg s [] = (s, [])"
| "p2p_run cfg s (e # es) =
     (let (s1, o1) = p2p_step cfg s e; (s2, o2) = p2p_run cfg s1 es in (s2, o1 @ o2))"

end
