(* ===== verification/P2p_Inv.thy ===== *)
theory P2p_Inv
  imports P2p_Loop P2p_Spec Store_Budget "HOL-Library.Multiset"
begin

text \<open>
  Invariants of the event loop and laws about its outputs over whole runs: the tables stay within their
  bounds, every \<open>Want\<close> is answered exactly once and every request gets exactly one response (conservation of
  oneshot senders and of response channels), what is delivered or served hashes to what was asked for.
\<close>

section \<open>State invariant\<close>

definition p2p_inv :: "p2p_state \<Rightarrow> bool" where
  "p2p_inv s \<longleftrightarrow>
     store_ok (p_store s) \<and> table_ok (providers s) \<and>
     finite (dom (pending s)) \<and> (\<forall>rid \<in> dom (pending s). rid < next_rid s) \<and>
     serve_permits s + length (serving s) = MAX_CONCURRENT_SERVES \<and>
     length (serve_queue s) \<le> MAX_CONCURRENT_SERVES"

definition p2p_legal :: "p2p_env \<times> p2p_event \<Rightarrow> bool" where
  "p2p_legal e \<longleftrightarrow> hash_iter (ev_order (fst e)) \<and> order_ok (ev_io (fst e))"

lemma store_ok_step: "store_ok s \<Longrightarrow> order_ok i \<Longrightarrow> store_ok (store_step s (i, op))"
  by (rule store_run.step_inv) (simp_all add: io_legal_def)

text \<open>One lemma per branch that touches the bookkeeping.\<close>

lemma inv_on_want: "p2p_inv s \<Longrightarrow> p2p_inv (fst (on_want e s hash reply))"
  by (auto simp: on_want_def p2p_inv_def Let_def less_Suc_eq split: option.splits list.splits)

lemma inv_on_request: "p2p_inv s \<Longrightarrow> p2p_inv (fst (on_request s r channel))"
  by (cases r) (auto simp: p2p_inv_def Let_def)

lemma inv_serve_finish: "p2p_inv s \<Longrightarrow> p2p_inv (serve_finish s k body)"
  by (auto simp: serve_finish_def p2p_inv_def)

lemma inv_on_serve_task: "p2p_inv s \<Longrightarrow> p2p_inv (on_serve_task e s k)"
  by (simp add: on_serve_task_def Let_def inv_serve_finish)

lemma inv_on_reply: "p2p_inv s \<Longrightarrow> p2p_inv (fst (on_response cfg s rid r)) \<and> p2p_inv (fst (on_failure s rid))"
  by (auto simp: on_response_def on_failure_def p2p_inv_def split: option.splits)

lemma inv_on_serve_done: "p2p_inv s \<Longrightarrow> p2p_inv (fst (on_serve_done s))"
  by (auto simp: on_serve_done_def p2p_inv_def split: list.splits)

lemma p2p_step_inv: "p2p_inv s \<Longrightarrow> p2p_legal e \<Longrightarrow> p2p_inv (fst (p2p_step cfg s e))"
proof (cases "(cfg, s, e)" rule: p2p_handle.cases)
  case (15 cfg' s' e' op)
  assume "p2p_inv s" "p2p_legal e"
  with 15 show ?thesis by (simp add: p2p_step_def p2p_inv_def p2p_legal_def store_ok_step)
qed (auto simp: p2p_step_def inv_on_want inv_on_request inv_on_serve_task inv_on_reply inv_on_serve_done,
     auto simp: p2p_inv_def on_listen_def on_connected_def on_disconnected_def Let_def table_ok_learn_message
       split: option.splits)

interpretation p2p_loop: machine "\<lambda>s e. fst (p2p_step cfg s e)" p2p_legal p2p_inv for cfg :: p2p_cfg
  by unfold_locales (rule p2p_step_inv)

lemma p2p_run_state: "fst (p2p_run cfg s es) = foldl (\<lambda>s e. fst (p2p_step cfg s e)) s es"
  by (induction cfg s es rule: p2p_run.induct) (auto simp: Let_def split: prod.splits)

lemma p2p_start_inv: "store_ok st \<Longrightarrow> p2p_inv (p2p_start st report)"
  by (simp add: p2p_inv_def p2p_start_def table_ok_def)

text \<open>Laws of single steps lift to runs: what is preserved along steps, and what all outputs satisfy.\<close>

lemma p2p_run_induct:
  assumes start: "I s"
    and step: "\<And>s e. I s \<Longrightarrow> e \<in> set es \<Longrightarrow> I (fst (p2p_step cfg s e)) \<and> (\<forall>x \<in> set (snd (p2p_step cfg s e)). P x)"
  shows "I (fst (p2p_run cfg s es)) \<and> (\<forall>x \<in> set (snd (p2p_run cfg s es)). P x)"
  using assms
proof (induction es arbitrary: s)
  case Nil
  then show ?case by simp
next
  case (Cons e es)
  obtain s1 o1 where 1: "p2p_step cfg s e = (s1, o1)" by fastforce
  obtain s2 o2 where 2: "p2p_run cfg s1 es = (s2, o2)" by fastforce
  have a: "I s1 \<and> (\<forall>x \<in> set o1. P x)" using Cons.prems(2) [OF Cons.prems(1), of e] 1 by simp
  then have "I (fst (p2p_run cfg s1 es)) \<and> (\<forall>x \<in> set (snd (p2p_run cfg s1 es)). P x)"
    using Cons.prems(2) by (intro Cons.IH) auto
  with a 1 2 show ?case by auto
qed

section \<open>Senders are conserved\<close>

text \<open>The oneshot senders of the wants in a list of events, those waiting in the state, those answered.\<close>

fun want_reply :: "p2p_env \<times> p2p_event \<Rightarrow> nat multiset" where
  "want_reply (e, Want hash reply) = {#reply#}"
| "want_reply (e, _) = {#}"

fun delivered :: "p2p_out \<Rightarrow> nat multiset" where
  "delivered (Deliver reply b) = {#reply#}"
| "delivered _ = {#}"

definition waiting :: "p2p_state \<Rightarrow> nat multiset" where
  "waiting s = {#snd (the (pending s rid)). rid \<in># mset_set (dom (pending s))#}"

lemma waiting_upd:
  assumes "finite (dom m)" and "m rid = None"
  shows "{#snd (the ((m(rid \<mapsto> x)) k)). k \<in># mset_set (dom m)#} = {#snd (the (m k)). k \<in># mset_set (dom m)#}"
  using assms by (intro image_mset_cong) auto

lemma waiting_insert:
  assumes "finite (dom m)" and "m rid = None"
  shows "{#snd (the ((m(rid \<mapsto> x)) k)). k \<in># mset_set (dom (m(rid \<mapsto> x)))#}
    = add_mset (snd x) {#snd (the (m k)). k \<in># mset_set (dom m)#}"
  using assms waiting_upd [OF assms] by (simp add: domIff)

lemma waiting_remove:
  assumes "finite (dom m)" and "m rid = Some x"
  shows "{#snd (the (m k)). k \<in># mset_set (dom m)#}
    = add_mset (snd x) {#snd (the ((m(rid := None)) k)). k \<in># mset_set (dom (m(rid := None)))#}"
proof -
  have "m = (m(rid := None))(rid \<mapsto> x)" using assms(2) by auto
  then show ?thesis using waiting_insert [of "m(rid := None)" rid x] assms(1) by simp
qed

lemma waiting_same: "pending s' = pending s \<Longrightarrow> waiting s' = waiting s"
  by (simp add: waiting_def)

definition sum_of :: "('a \<Rightarrow> nat multiset) \<Rightarrow> 'a list \<Rightarrow> nat multiset" where
  "sum_of f xs = sum_list (map f xs)"

lemma sum_of_simps [simp]:
  "sum_of f [] = {#}" "sum_of f (x # xs) = f x + sum_of f xs" "sum_of f (xs @ ys) = sum_of f xs + sum_of f ys"
  by (simp_all add: sum_of_def)

lemma deliver_publish [simp]: "sum_of delivered (publish_held e s) = {#}"
  by (simp add: publish_held_def Let_def)

lemma senders_step:
  assumes "p2p_inv s" and "running s"
  shows "want_reply e + waiting s = sum_of delivered (snd (p2p_step cfg s e)) + waiting (fst (p2p_step cfg s e))"
proof -
  have fin: "finite (dom (pending s))" and fresh: "pending s (next_rid s) = None"
    using assms(1) by (auto simp: p2p_inv_def)
  show ?thesis
  proof (cases "(cfg, s, e)" rule: p2p_handle.cases)
    case (1 cfg' s' e' hash reply)
    with assms(2) fin fresh show ?thesis
      by (auto simp: p2p_step_def on_want_def Let_def waiting_def waiting_insert
          simp del: fun_upd_apply dom_fun_upd split: option.splits list.splits)
  next
    case (10 cfg' s' e' r channel)
    with assms(2) show ?thesis
      by (cases r) (auto simp: p2p_step_def Let_def waiting_def)
  next
    case (11 cfg' s' e' rid r)
    with assms(2) fin show ?thesis
      by (auto simp: p2p_step_def on_response_def waiting_def waiting_remove simp del: fun_upd_apply split: option.splits)
  next
    case (12 cfg' s' e' rid)
    with assms(2) fin show ?thesis
      by (auto simp: p2p_step_def on_failure_def waiting_def waiting_remove simp del: fun_upd_apply split: option.splits)
  qed (use assms(2) in \<open>auto simp: p2p_step_def on_serve_done_def on_listen_def on_connected_def on_disconnected_def
         on_serve_task_def serve_finish_def Let_def waiting_def split: option.splits list.splits prod.splits\<close>)
qed

lemma stopped_stays: "\<not> running s \<Longrightarrow> \<not> running (fst (p2p_run cfg s es))"
  by (induction es arbitrary: s) (auto simp: p2p_step_def Let_def split: prod.splits)

lemma senders_run:
  "p2p_inv s \<Longrightarrow> running (fst (p2p_run cfg s es)) \<Longrightarrow> list_all p2p_legal es \<Longrightarrow>
    sum_of want_reply es + waiting s = sum_of delivered (snd (p2p_run cfg s es)) + waiting (fst (p2p_run cfg s es))"
proof (induction es arbitrary: s)
  case Nil
  then show ?case by simp
next
  case (Cons e es)
  obtain s1 o1 where 1: "p2p_step cfg s e = (s1, o1)" by fastforce
  obtain s2 o2 where 2: "p2p_run cfg s1 es = (s2, o2)" by fastforce
  have run: "running s2" using Cons.prems(2) 1 2 by simp
  have "running s" using stopped_stays [of s cfg "e # es"] Cons.prems(2) by blast
  then have step: "want_reply e + waiting s = sum_of delivered o1 + waiting s1"
    using senders_step [of s e cfg] Cons.prems(1) 1 by simp
  have "p2p_inv s1" using p2p_step_inv [of s e cfg] Cons.prems 1 by simp
  then have "sum_of want_reply es + waiting s1 = sum_of delivered o2 + waiting s2"
    using Cons.IH [of s1] Cons.prems(3) run 2 by simp
  with step 1 2 show ?case by (simp add: ac_simps) (metis add.assoc add.commute)
qed

section \<open>Response channels are conserved\<close>

fun request_channel :: "p2p_env \<times> p2p_event \<Rightarrow> nat multiset" where
  "request_channel (e, Request r channel) = {#channel#}"
| "request_channel (e, _) = {#}"

fun responded :: "p2p_out \<Rightarrow> nat multiset" where
  "responded (SendResponse channel r) = {#channel#}"
| "responded _ = {#}"

definition in_service :: "p2p_state \<Rightarrow> nat multiset" where
  "in_service s = mset (map fst (serving s)) + mset (map fst (serve_queue s))"

lemma respond_publish [simp]: "sum_of responded (publish_held e s) = {#}"
  by (simp add: publish_held_def Let_def)

lemma mset_remove_nth: "k < length xs \<Longrightarrow> mset xs = add_mset (xs ! k) (mset (take k xs @ drop (Suc k) xs))"
  by (metis id_take_nth_drop mset_append mset.simps(2) union_mset_add_mset_right)

lemma channels_step:
  assumes "running s"
  shows "request_channel e + in_service s
    = sum_of responded (snd (p2p_step cfg s e)) + in_service (fst (p2p_step cfg s e))"
proof (cases "(cfg, s, e)" rule: p2p_handle.cases)
  case (1 cfg' s' e' hash reply)
  with assms show ?thesis
    by (auto simp: p2p_step_def on_want_def Let_def in_service_def split: option.splits list.splits)
next
  case (10 cfg' s' e' r channel)
  with assms show ?thesis by (cases r) (auto simp: p2p_step_def Let_def in_service_def)
next
  case (14 cfg' s' e' k)
  then have e: "p2p_step cfg s e = (on_serve_task e' s k, [])" and r: "request_channel e = {#}"
    using assms by (simp_all add: p2p_step_def)
  show ?thesis
  proof (cases "k < length (serving s) \<and> length (serve_queue s) < MAX_CONCURRENT_SERVES")
    case True
    then have "mset (map fst (serving s))
        = add_mset (fst (serving s ! k)) (mset (map fst (take k (serving s) @ drop (Suc k) (serving s))))"
      using mset_remove_nth [of k "map fst (serving s)"] by (simp add: take_map drop_map)
    with True e r show ?thesis
      by (simp add: on_serve_task_def serve_finish_def in_service_def Let_def case_prod_beta)
  next
    case False
    then have "on_serve_task e' s k = s" by (auto simp: on_serve_task_def serve_finish_def)
    with e r show ?thesis by simp
  qed
qed (use assms in \<open>auto simp: p2p_step_def on_serve_done_def on_listen_def on_connected_def on_disconnected_def
       on_response_def on_failure_def Let_def in_service_def split: option.splits list.splits prod.splits\<close>)

lemma channels_run:
  "running (fst (p2p_run cfg s es)) \<Longrightarrow>
    sum_of request_channel es + in_service s
      = sum_of responded (snd (p2p_run cfg s es)) + in_service (fst (p2p_run cfg s es))"
proof (induction es arbitrary: s)
  case Nil
  then show ?case by simp
next
  case (Cons e es)
  obtain s1 o1 where 1: "p2p_step cfg s e = (s1, o1)" by fastforce
  obtain s2 o2 where 2: "p2p_run cfg s1 es = (s2, o2)" by fastforce
  have "running s" using stopped_stays [of s cfg "e # es"] Cons.prems by blast
  then have step: "request_channel e + in_service s = sum_of responded o1 + in_service s1"
    using channels_step [of s e cfg] 1 by simp
  have "sum_of request_channel es + in_service s1 = sum_of responded o2 + in_service s2"
    using Cons.IH [of s1] Cons.prems 1 2 by simp
  with step 1 2 show ?case by (simp add: ac_simps) (metis add.assoc add.commute)
qed

section \<open>What is delivered was verified\<close>

text \<open>Every waiting sender belongs to a \<open>Want\<close> of its hash.\<close>

definition wanted :: "(p2p_env \<times> p2p_event) list \<Rightarrow> (string \<times> nat) set" where
  "wanted es = {(norm hash, reply) | e hash reply. (e, Want hash reply) \<in> set es}"

definition pending_wanted :: "(string \<times> nat) set \<Rightarrow> p2p_state \<Rightarrow> bool" where
  "pending_wanted W s \<longleftrightarrow> (\<forall>(h, reply) \<in> ran (pending s). (h, reply) \<in> W \<and> lower_hex64 h)"

fun good_delivery :: "p2p_cfg \<Rightarrow> (string \<times> nat) set \<Rightarrow> p2p_out \<Rightarrow> bool" where
  "good_delivery cfg W (Deliver reply (Some b)) =
     (length b \<le> unat (cfg_max_bytes cfg) \<and> (sha256_hex (cfg_crypto cfg) b, reply) \<in> W)"
| "good_delivery cfg W _ = True"

lemma publish_good: "x \<in> set (publish_held e s) \<Longrightarrow> good_delivery cfg W x"
  by (auto simp: publish_held_def Let_def split: if_splits)

lemma pending_wanted_remove: "pending_wanted W s \<Longrightarrow> pending_wanted W (s\<lparr>pending := (pending s)(rid := None)\<rparr>)"
  by (auto simp: pending_wanted_def ran_def split: if_splits)

lemma pending_wanted_add:
  "pending_wanted W s \<Longrightarrow> (h, reply) \<in> W \<Longrightarrow> lower_hex64 h \<Longrightarrow>
    pending_wanted W (s\<lparr>pending := (pending s)(rid \<mapsto> (h, reply)), next_rid := n\<rparr>)"
  by (auto simp: pending_wanted_def ran_def split: if_splits)

lemma pending_wanted_same: "pending s' = pending s \<Longrightarrow> pending_wanted W s \<Longrightarrow> pending_wanted W s'"
  by (simp add: pending_wanted_def)

lemma delivery_step:
  assumes "pending_wanted W s" and "table_ok (providers s)"
    and "\<And>e' hash reply. e = (e', Want hash reply) \<Longrightarrow> (norm hash, reply) \<in> W"
  shows "pending_wanted W (fst (p2p_step cfg s e)) \<and> (\<forall>x \<in> set (snd (p2p_step cfg s e)). good_delivery cfg W x)"
proof (cases "running s")
  case False
  with assms(1) show ?thesis by (simp add: p2p_step_def)
next
  case run: True
  show ?thesis
  proof (cases "(cfg, s, e)" rule: p2p_handle.cases)
    case (1 cfg' s' e' hash reply)
    have hex: "providers s (norm hash) = Some S \<Longrightarrow> lower_hex64 (norm hash)" for S
      using assms(2) by (auto simp: table_ok_def)
    have w: "(norm hash, reply) \<in> W" using assms(3) 1 by blast
    show ?thesis
    proof (cases "providers s (norm hash)")
      case None
      with run assms(1) 1 show ?thesis by (simp add: p2p_step_def on_want_def Let_def)
    next
      case (Some S)
      with run assms(1) 1 hex [OF Some] w show ?thesis
        by (cases "ev_order e' S") (simp_all add: p2p_step_def on_want_def Let_def pending_wanted_add)
    qed
  next
    case (10 cfg' s' e' r channel)
    with run assms(1) show ?thesis
      by (cases r) (auto simp: p2p_step_def Let_def intro: pending_wanted_same)
  next
    case (11 cfg' s' e' rid r)
    show ?thesis
    proof (cases "pending s rid")
      case None
      with run assms(1) 11 show ?thesis by (simp add: p2p_step_def on_response_def)
    next
      case (Some p)
      obtain h reply where p: "p = (h, reply)" by fastforce
      with Some assms(1) have "(h, reply) \<in> W" "lower_hex64 h" by (auto simp: pending_wanted_def ran_def)
      then have h: "(h, reply) \<in> W" "norm h = h" by (simp_all add: norm_lower_hex64)
      have "good_delivery cfg W (Deliver reply (accept_get (cfg_crypto cfg) h r (cfg_max_bytes cfg)))"
        using h by (cases "accept_get (cfg_crypto cfg) h r (cfg_max_bytes cfg)") (auto simp: accept_get_iff)
      with run assms(1) 11 Some p show ?thesis
        by (simp add: p2p_step_def on_response_def pending_wanted_remove)
    qed
  next
    case (12 cfg' s' e' rid)
    with run assms(1) show ?thesis
      by (auto simp: p2p_step_def on_failure_def intro: pending_wanted_remove split: option.splits)
  qed (use run assms(1) in \<open>auto simp: p2p_step_def on_serve_done_def on_listen_def on_connected_def
         on_disconnected_def on_serve_task_def serve_finish_def Let_def dest: publish_good
         intro: pending_wanted_same split: option.splits list.splits prod.splits\<close>)
qed

lemma deliveries_verified:
  assumes "p2p_inv s" and "pending s = Map.empty" and "list_all p2p_legal es"
    and "Deliver reply (Some b) \<in> set (snd (p2p_run cfg s es))"
  shows "(sha256_hex (cfg_crypto cfg) b, reply) \<in> wanted es \<and> length b \<le> unat (cfg_max_bytes cfg)"
proof -
  let ?I = "\<lambda>s. p2p_inv s \<and> pending_wanted (wanted es) s"
  have "?I (fst (p2p_run cfg s es)) \<and> (\<forall>x \<in> set (snd (p2p_run cfg s es)). good_delivery cfg (wanted es) x)"
  proof (rule p2p_run_induct)
    show "?I s" using assms(1,2) by (simp add: pending_wanted_def)
  next
    fix t e assume t: "?I t" and e: "e \<in> set es"
    have "(norm hash, reply) \<in> wanted es" if "e = (e', Want hash reply)" for e' hash reply
      using e that by (auto simp: wanted_def)
    moreover have "p2p_inv (fst (p2p_step cfg t e))"
      using t e assms(3) by (intro p2p_step_inv) (auto simp: list_all_iff)
    ultimately show "?I (fst (p2p_step cfg t e)) \<and> (\<forall>x \<in> set (snd (p2p_step cfg t e)). good_delivery cfg (wanted es) x)"
      using t delivery_step [of "wanted es" t e cfg] by (auto simp: p2p_inv_def)
  qed
  with assms(4) show ?thesis by fastforce
qed

section \<open>What is served was asked for and verified\<close>

text \<open>
  \<open>Q\<close> are the response channels with the address they asked for: the loop normalises the requested hash and
  the store normalises it again. \<open>D\<close> are hashes that must not be served.
\<close>

definition asked :: "(p2p_env \<times> p2p_event) list \<Rightarrow> (nat \<times> string) set" where
  "asked es = {(channel, norm (norm h)) | e h channel. (e, Request (ReqGet h) channel) \<in> set es}"

definition body_ok :: "crypto \<Rightarrow> (nat \<times> string) set \<Rightarrow> string set \<Rightarrow> nat \<Rightarrow> resp \<Rightarrow> bool" where
  "body_ok c Q D channel r \<longleftrightarrow>
     (\<forall>b. r = RespGet (Some b) \<longrightarrow> (channel, sha256_hex c b) \<in> Q \<and> sha256_hex c b \<notin> D)"

definition serves_ok :: "crypto \<Rightarrow> (nat \<times> string) set \<Rightarrow> string set \<Rightarrow> p2p_state \<Rightarrow> bool" where
  "serves_ok c Q D s \<longleftrightarrow>
     certified c (p_store s) \<and> D \<subseteq> denied (p_store s) \<and>
     (\<forall>(channel, n) \<in> set (serving s). (channel, norm n) \<in> Q) \<and>
     (\<forall>(channel, r) \<in> set (serve_queue s). body_ok c Q D channel r)"

fun good_response :: "crypto \<Rightarrow> (nat \<times> string) set \<Rightarrow> string set \<Rightarrow> p2p_out \<Rightarrow> bool" where
  "good_response c Q D (SendResponse channel r) = body_ok c Q D channel r"
| "good_response c Q D _ = True"

lemma publish_response: "x \<in> set (publish_held e s) \<Longrightarrow> good_response c Q D x"
  by (auto simp: publish_held_def Let_def split: if_splits)

text \<open>Which store operations the other tasks may do: puts of verified bytes, no allow of a hash in \<open>D\<close>.\<close>

fun serve_legal :: "crypto \<Rightarrow> string set \<Rightarrow> p2p_env \<times> p2p_event \<Rightarrow> bool" where
  "serve_legal c D (e, StoreOp op) = (verified_put c (ev_io e, op) \<and> (\<forall>h \<in> D. \<not> lifts_ban (ev_io e, op) h))"
| "serve_legal c D (e, _) = True"

lemma serve_task_body:
  assumes "certified c st" and "D \<subseteq> denied st" and "(channel, norm n) \<in> Q"
  shows "body_ok c Q D channel (RespGet (if store_is_denied st n then None else store_get ok st n))"
  unfolding body_ok_def
proof (intro allI impI)
  fix b assume "RespGet (if store_is_denied st n then None else store_get ok st n) = RespGet (Some b)"
  then have b: "\<not> store_is_denied st n" "store_get ok st n = Some b" by (auto split: if_splits)
  then have "sha256_hex c b = norm n" using assms(1) by (auto dest: certified_get)
  with b(1) assms(2,3) show "(channel, sha256_hex c b) \<in> Q \<and> sha256_hex c b \<notin> D"
    by (auto simp: store_is_denied_def)
qed

lemma serves_ok_same:
  "p_store s' = p_store s \<Longrightarrow> serving s' = serving s \<Longrightarrow> serve_queue s' = serve_queue s \<Longrightarrow>
    serves_ok c Q D s \<Longrightarrow> serves_ok c Q D s'"
  by (simp add: serves_ok_def)

lemma serves_ok_finish:
  assumes "serves_ok c Q D s"
    and "\<And>channel n. k < length (serving s) \<Longrightarrow> serving s ! k = (channel, n) \<Longrightarrow> (channel, norm n) \<in> Q \<Longrightarrow>
      body_ok c Q D channel (RespGet body)"
  shows "serves_ok c Q D (serve_finish s k body)"
proof (cases "k < length (serving s)")
  case True
  obtain channel n where k: "serving s ! k = (channel, n)" by fastforce
  with True assms(1) have "(channel, norm n) \<in> Q"
    using nth_mem [of k "serving s"] by (fastforce simp: serves_ok_def)
  with assms(2) True k have "body_ok c Q D channel (RespGet body)" by simp
  moreover have "set (take k (serving s) @ drop (Suc k) (serving s)) \<subseteq> set (serving s)"
    using set_take_subset [of k "serving s"] set_drop_subset [of "Suc k" "serving s"] by simp
  ultimately show ?thesis
    using True assms(1) k unfolding serves_ok_def serve_finish_def by auto
qed (use assms(1) in \<open>simp add: serve_finish_def\<close>)

lemma serves_ok_task:
  assumes "serves_ok c Q D s"
  shows "serves_ok c Q D (on_serve_task e s k)"
  unfolding on_serve_task_def Let_def
proof (rule serves_ok_finish [OF assms])
  fix channel n assume k: "serving s ! k = (channel, n)" and q: "(channel, norm n) \<in> Q"
  show "body_ok c Q D channel (RespGet (if store_is_denied (p_store s) (snd (serving s ! k)) then None
      else store_get (ev_read e) (p_store s) (snd (serving s ! k))))"
    using assms q unfolding k snd_conv by (intro serve_task_body) (simp_all add: serves_ok_def)
qed

lemma serves_ok_store:
  assumes "serves_ok c Q D s" and "store_ok (p_store s)" and "order_ok (ev_io e)"
    and "serve_legal c D (e, StoreOp op)"
  shows "serves_ok c Q D (s\<lparr>p_store := store_step (p_store s) (ev_io e, op)\<rparr>)"
proof -
  have "h \<in> denied (store_step (p_store s) (ev_io e, op))" if "h \<in> D" for h
    using assms that by (intro store_run.ban_kept) (auto simp: serves_ok_def io_legal_def)
  moreover have "certified c (store_step (p_store s) (ev_io e, op))"
    using assms(1,4) by (intro certified_step) (simp_all add: serves_ok_def)
  ultimately show ?thesis using assms(1) by (auto simp: serves_ok_def)
qed

lemma serve_step:
  assumes "p2p_inv s" and "serves_ok c Q D s" and "p2p_legal e" and "serve_legal c D e"
    and "\<And>e' h channel. e = (e', Request (ReqGet h) channel) \<Longrightarrow> (channel, norm (norm h)) \<in> Q"
  shows "serves_ok c Q D (fst (p2p_step cfg s e)) \<and> (\<forall>x \<in> set (snd (p2p_step cfg s e)). good_response c Q D x)"
proof (cases "running s")
  case False
  with assms(2) show ?thesis by (simp add: p2p_step_def)
next
  case run: True
  show ?thesis
  proof (cases "(cfg, s, e)" rule: p2p_handle.cases)
    case (5 cfg' s' e')
    with run assms(2) show ?thesis
      by (auto simp: p2p_step_def on_serve_done_def serves_ok_def split: list.splits)
  next
    case (10 cfg' s' e' r channel)
    with run assms(2,5) show ?thesis
      by (cases r) (auto simp: p2p_step_def Let_def serves_ok_def body_ok_def)
  next
    case (14 cfg' s' e' k)
    with run assms(2) show ?thesis by (simp add: p2p_step_def serves_ok_task)
  next
    case (15 cfg' s' e' op)
    with run assms show ?thesis
      by (auto simp: p2p_step_def p2p_inv_def p2p_legal_def intro!: serves_ok_store)
  qed (use run assms(2) in \<open>auto simp: p2p_step_def on_want_def on_listen_def on_connected_def on_disconnected_def
         on_response_def on_failure_def Let_def dest: publish_response
         intro: serves_ok_same split: option.splits list.splits\<close>)
qed

lemma responses_verified:
  assumes "p2p_inv s" and "serves_ok c {} D s" and "list_all p2p_legal es" and "list_all (serve_legal c D) es"
    and "SendResponse channel (RespGet (Some b)) \<in> set (snd (p2p_run cfg s es))"
  shows "(channel, sha256_hex c b) \<in> asked es \<and> sha256_hex c b \<notin> D"
proof -
  let ?I = "\<lambda>s. p2p_inv s \<and> serves_ok c (asked es) D s"
  have "?I (fst (p2p_run cfg s es)) \<and> (\<forall>x \<in> set (snd (p2p_run cfg s es)). good_response c (asked es) D x)"
  proof (rule p2p_run_induct)
    show "?I s" using assms(1,2) by (fastforce simp: serves_ok_def body_ok_def)
  next
    fix t e assume t: "?I t" and e: "e \<in> set es"
    then have legal: "p2p_legal e" "serve_legal c D e" using assms(3,4) by (auto simp: list_all_iff)
    have "(channel, norm (norm h)) \<in> asked es" if "e = (e', Request (ReqGet h) channel)" for e' h channel
      using e that by (auto simp: asked_def)
    with t legal show "?I (fst (p2p_step cfg t e)) \<and> (\<forall>x \<in> set (snd (p2p_step cfg t e)). good_response c (asked es) D x)"
      using serve_step [of t c "asked es" D e cfg] p2p_step_inv [of t e cfg] by blast
  qed
  with assms(5) have "good_response c (asked es) D (SendResponse channel (RespGet (Some b)))" by blast
  then show ?thesis by (simp add: body_ok_def)
qed

end
