(* ===== verification/Node_System.thy ===== *)
theory Node_System
  imports Node_Spec Gateway_Spec P2p_Inv
begin

text \<open>
  The running node (src/main.rs): the gateway, the peer-to-peer task and the ingest task on one store, joined
  by the command channel, the oneshot replies and the shared table of connected peers. A step is one HTTP
  request, one iteration of the peer-to-peer loop, or one stretch of the ingest loop between two awaits, in
  any order.
\<close>

section \<open>State\<close>

datatype cmd = WantCmd string nat | DialCmd string

definition CMD_CAP :: nat where
  "CMD_CAP = 64"

text \<open>
  Where the ingest loop is: asleep between passes, dialling, about to list the pins, at the next pin, past its
  denylist check, fetching, about to ask the peers, waiting for the oneshot, or about to put.
\<close>

datatype ingest_pc =
    Sleeping | Dialling "string list" | Listing | AtPin "pin_item list"
  | Checked pin_item "pin_item list" | Acquiring pin_item "pin_item list" | Asking pin_item "pin_item list"
  | Waiting nat pin_item "pin_item list" | Storing pin_item bytes bool "pin_item list"

text \<open>
  The store is shared: the copies inside \<open>s_gw\<close> and \<open>s_p2p\<close> are stale, \<open>gw_view\<close> and \<open>p2p_view\<close> are what the
  two components see. \<open>s_reply\<close> numbers the oneshot channels.
\<close>

record node_sys =
  s_store :: store
  s_gw :: gw_state
  s_p2p :: p2p_state
  s_cmds :: "cmd list"
  s_pc :: ingest_pc
  s_counts :: counts
  s_templates :: "string list"
  s_reply :: nat
  s_self :: string

definition gw_view :: "node_sys \<Rightarrow> gw_state" where
  "gw_view y = (s_gw y)\<lparr>gw_store := s_store y, gw_peers := peer_status (s_p2p y)\<rparr>"

definition p2p_view :: "node_sys \<Rightarrow> p2p_state" where
  "p2p_view y = (s_p2p y)\<lparr>p_store := s_store y\<rparr>"

definition node_cfg :: "node \<Rightarrow> p2p_cfg" where
  "node_cfg n = \<lparr>cfg_crypto = n_crypto n, cfg_max_bytes = max_object (n_config n)\<rparr>"

datatype node_event =
    Http gw_env request | P2pEvent p2p_env p2p_event | P2pCommand p2p_env
  | PassBegin "string pass_inputs" | PassDial | PassList "string pass_inputs"
  | PinDenied | PinHeld | PinAcquire net | PinWant | PinStore io

datatype node_out = HttpReply request "reply option" | P2pOut p2p_out

section \<open>The peer-to-peer task\<close>

fun cmd_event :: "cmd \<Rightarrow> p2p_event" where
  "cmd_event (WantCmd hash reply) = Want hash reply"
| "cmd_event (DialCmd addr) = Dial addr"

text \<open>
  Events that do not come through the command channel. The channel never closes while the node runs: \<open>main\<close>
  keeps a sender.
\<close>

fun loop_event :: "p2p_event \<Rightarrow> bool" where
  "loop_event (Want hash reply) = False"
| "loop_event (Dial addr) = False"
| "loop_event CmdClosed = False"
| "loop_event (StoreOp op) = False"
| "loop_event ev = True"

text \<open>The ingest task takes the reply it waits for.\<close>

fun take_reply :: "p2p_out \<Rightarrow> node_sys \<Rightarrow> node_sys" where
  "take_reply (Deliver reply x) y =
     (case s_pc y of
        Waiting r p ps \<Rightarrow>
          if r = reply then
            (case x of
               Some b \<Rightarrow> y\<lparr>s_pc := Storing p b True ps\<rparr>
             | None \<Rightarrow> y\<lparr>s_pc := AtPin ps, s_counts := (s_counts y)\<lparr>n_failed := n_failed (s_counts y) + 1\<rparr>\<rparr>)
          else y
      | _ \<Rightarrow> y)"
| "take_reply out y = y"

definition run_p2p :: "node \<Rightarrow> node_sys \<Rightarrow> p2p_env \<times> p2p_event \<Rightarrow> node_sys \<times> node_out list" where
  "run_p2p n y e =
     (let (p, outs) = p2p_step (node_cfg n) (p2p_view y) e
      in (fold take_reply outs (y\<lparr>s_p2p := p, s_store := p_store p\<rparr>), map P2pOut outs))"

section \<open>The ingest task\<close>

definition fail_pin :: "node_sys \<Rightarrow> pin_item list \<Rightarrow> node_sys" where
  "fail_pin y ps = y\<lparr>s_pc := AtPin ps, s_counts := (s_counts y)\<lparr>n_failed := n_failed (s_counts y) + 1\<rparr>\<rparr>"

definition pass_begin :: "node \<Rightarrow> node_sys \<Rightarrow> string pass_inputs \<Rightarrow> node_sys" where
  "pass_begin n y x =
     (case s_pc y of
        Sleeping \<Rightarrow> y\<lparr>s_templates := gw_templates n x, s_pc := Dialling (pass_dials n x (s_self y))\<rparr>
      | _ \<Rightarrow> y)"

text \<open>\<open>send\<close> waits while the channel is full, and fails when the peer-to-peer task has ended.\<close>

definition pass_dial :: "node_sys \<Rightarrow> node_sys" where
  "pass_dial y =
     (case s_pc y of
        Dialling [] \<Rightarrow> y\<lparr>s_pc := Listing\<rparr>
      | Dialling (addr # as) \<Rightarrow>
          if \<not> running (s_p2p y) then y\<lparr>s_pc := Dialling as\<rparr>
          else if length (s_cmds y) < CMD_CAP then y\<lparr>s_cmds := s_cmds y @ [DialCmd addr], s_pc := Dialling as\<rparr>
          else y
      | _ \<Rightarrow> y)"

definition pass_list :: "node \<Rightarrow> node_sys \<Rightarrow> string pass_inputs \<Rightarrow> node_sys" where
  "pass_list n y x =
     (case s_pc y of
        Listing \<Rightarrow>
          (case confirmed_pins (in_decoders x) (chain_new (rpc (n_config n))) (in_chain x)
                  (confirmations (n_config n)) (per_domain (n_config n)) of
             Inl err \<Rightarrow> y\<lparr>s_pc := Sleeping\<rparr>
           | Inr ps \<Rightarrow> y\<lparr>s_pc := AtPin ps, s_counts := zero_counts\<rparr>)
      | _ \<Rightarrow> y)"

definition pin_denied :: "node_sys \<Rightarrow> node_sys" where
  "pin_denied y =
     (case s_pc y of
        AtPin [] \<Rightarrow> y\<lparr>s_pc := Sleeping\<rparr>
      | AtPin (p # ps) \<Rightarrow>
          if store_is_denied (s_store y) (payload_hash p) then y\<lparr>s_pc := AtPin ps\<rparr> else y\<lparr>s_pc := Checked p ps\<rparr>
      | _ \<Rightarrow> y)"

definition pin_held :: "node_sys \<Rightarrow> node_sys" where
  "pin_held y =
     (case s_pc y of
        Checked p ps \<Rightarrow>
          if store_has (s_store y) (payload_hash p) \<noteq> None
          then y\<lparr>s_pc := AtPin ps, s_counts := (s_counts y)\<lparr>n_held := n_held (s_counts y) + 1\<rparr>\<rparr>
          else y\<lparr>s_pc := Acquiring p ps\<rparr>
      | _ \<Rightarrow> y)"

definition pin_acquire :: "node \<Rightarrow> node_sys \<Rightarrow> net \<Rightarrow> node_sys" where
  "pin_acquire n y net =
     (case s_pc y of
        Acquiring p ps \<Rightarrow>
          (case ok_bytes (acquire (n_crypto n) net (payload_hash p) (pin_urls n (s_templates y) p)
                  (max_object (n_config n))) of
             Some b \<Rightarrow> y\<lparr>s_pc := Storing p b False ps\<rparr>
           | None \<Rightarrow> y\<lparr>s_pc := Asking p ps\<rparr>)
      | _ \<Rightarrow> y)"

definition pin_want :: "node_sys \<Rightarrow> node_sys" where
  "pin_want y =
     (case s_pc y of
        Asking p ps \<Rightarrow>
          if \<not> running (s_p2p y) then fail_pin y ps
          else if length (s_cmds y) < CMD_CAP then
            y\<lparr>s_cmds := s_cmds y @ [WantCmd (payload_hash p) (s_reply y)], s_pc := Waiting (s_reply y) p ps,
              s_reply := s_reply y + 1\<rparr>
          else y
      | _ \<Rightarrow> y)"

definition pin_stored :: "node_sys \<Rightarrow> (store_error + unit) \<Rightarrow> node_sys" where
  "pin_stored y r =
     (case s_pc y of
        Storing p b via_peer ps \<Rightarrow>
          (case r of
             Inr _ \<Rightarrow>
               y\<lparr>s_pc := AtPin ps,
                 s_counts := (if via_peer then (s_counts y)\<lparr>n_from_peer := n_from_peer (s_counts y) + 1\<rparr>
                   else (s_counts y)\<lparr>n_fetched := n_fetched (s_counts y) + 1\<rparr>)\<rparr>
           | Inl _ \<Rightarrow> fail_pin y ps)
      | _ \<Rightarrow> y)"

definition pin_store :: "node_sys \<Rightarrow> io \<Rightarrow> node_sys" where
  "pin_store y i =
     (case s_pc y of
        Storing p b via_peer ps \<Rightarrow>
          (case store_put i (s_store y) (payload_hash p) b of (r, s) \<Rightarrow> pin_stored (y\<lparr>s_store := s\<rparr>) r)
      | _ \<Rightarrow> y)"

section \<open>The node\<close>

fun node_step :: "node \<Rightarrow> node_sys \<Rightarrow> node_event \<Rightarrow> node_sys \<times> node_out list" where
  "node_step n y (Http e rq) =
     (let (r, g) = gw_handle (n_crypto n) e (gw_view y) rq
      in (y\<lparr>s_store := gw_store g, s_gw := g\<rparr>, [HttpReply rq r]))"
| "node_step n y (P2pEvent e ev) = (if loop_event ev then run_p2p n y (e, ev) else (y, []))"
| "node_step n y (P2pCommand e) =
     (case s_cmds y of
        [] \<Rightarrow> (y, [])
      | c # cs \<Rightarrow> if running (s_p2p y) then run_p2p n (y\<lparr>s_cmds := cs\<rparr>) (e, cmd_event c) else (y, []))"
| "node_step n y (PassBegin x) = (pass_begin n y x, [])"
| "node_step n y PassDial = (pass_dial y, [])"
| "node_step n y (PassList x) = (pass_list n y x, [])"
| "node_step n y PinDenied = (pin_denied y, [])"
| "node_step n y PinHeld = (pin_held y, [])"
| "node_step n y (PinAcquire net) = (pin_acquire n y net, [])"
| "node_step n y PinWant = (pin_want y, [])"
| "node_step n y (PinStore i) = (pin_store y i, [])"

fun node_run :: "node \<Rightarrow> node_sys \<Rightarrow> node_event list \<Rightarrow> node_sys \<times> node_out list" where
  "node_run n y [] = (y, [])"
| "node_run n y (e # es) =
     (let (y1, o1) = node_step n y e; (y2, o2) = node_run n y1 es in (y2, o1 @ o2))"

section \<open>Starting\<close>

text \<open>
  What libp2p and the system do while the node starts: the key functions, the outcomes of the identity file's
  calls, whether the swarm can be built, whether the topic can be subscribed and the address listened on, and
  whether \<open>p2p_listen\<close> is a multiaddr (an \<open>expect\<close>: otherwise the start panics).
\<close>

record 'k boot_env =
  be_keys :: "'k key_api"
  be_id :: id_io
  be_build_ok :: bool
  be_subscribe_ok :: bool
  be_listen_ok :: bool
  be_multiaddr :: "string \<Rightarrow> string option"
  be_peers :: "bytes \<Rightarrow> ranked_peer list option"
  be_indexer :: "string \<Rightarrow> response option"

text \<open>\<open>p2p::run\<close> up to its loop: it ends with an error, or the loop starts and the entry peers were dialled.\<close>

definition p2p_boot ::
  "'k boot_env \<Rightarrow> store \<Rightarrow> string list \<Rightarrow> string option \<Rightarrow> disk \<Rightarrow> (p2p_state \<times> p2p_out list) option \<times> disk" where
  "p2p_boot be st boot path d =
     (case load_or_create_identity (be_keys be) (be_id be) path d of
        (Inl err, d') \<Rightarrow> (None, d')
      | (Inr kp, d') \<Rightarrow>
          if be_build_ok be \<and> be_subscribe_ok be \<and> be_listen_ok be
          then (Some (p2p_start st None, map DialOut boot), d') else (None, d'))"

datatype boot_error = StoreFailed store_error | ListenPanic

text \<open>
  \<open>main\<close> up to the three tasks. \<open>d\<close> holds the identity file under its path. A peer-to-peer task that ended with
  an error has dropped its receiver: its state is a stopped loop.
\<close>

definition node_boot ::
  "'k boot_env \<Rightarrow> open_io \<Rightarrow> node \<Rightarrow> disk \<Rightarrow> disk \<Rightarrow> (boot_error + node_sys \<times> node_out list) \<times> disk" where
  "node_boot be oi n dir d =
     (let cfg = n_config n
      in case fst (node_start oi cfg dir) of
           Inl err \<Rightarrow> (Inl (StoreFailed err), d)
         | Inr s \<Rightarrow>
             (let self = self_peer_id (be_keys be) (key_read_ok (be_id be)) cfg d
              in if be_multiaddr be (p2p_listen cfg) = None then (Inl ListenPanic, d)
                 else
                   (let boot = boot_peers (be_multiaddr be) cfg
                          (peers_discover (be_multiaddr be) (be_peers be) (be_indexer be) (indexer cfg) self);
                        (r, d') = p2p_boot be s boot (identity_path cfg) d;
                        (p, outs) = (case r of Some x \<Rightarrow> x | None \<Rightarrow> ((p2p_start s None)\<lparr>running := False\<rparr>, []))
                    in (Inr (\<lparr>s_store = s, s_gw = gw_start cfg s, s_p2p = p, s_cmds = [], s_pc = Sleeping,
                              s_counts = zero_counts, s_templates = [], s_reply = 0, s_self = self\<rparr>,
                             map P2pOut outs), d'))))"

end
