(* ===== verification/Node_System_Inv.thy ===== *)
theory Node_System_Inv
  imports Node_System
begin

text \<open>
  What every step of the running node keeps: the invariants of the gateway, of the peer-to-peer loop and of the
  store they share; and the bookkeeping of the one outstanding \<open>Want\<close>: while the ingest task waits, its oneshot
  is in the command channel or with an outstanding request, and nowhere twice.
\<close>

section \<open>The outstanding want\<close>

fun cmd_reply :: "cmd \<Rightarrow> nat multiset" where
  "cmd_reply (WantCmd hash reply) = {#reply#}"
| "cmd_reply (DialCmd addr) = {#}"

fun pc_reply :: "ingest_pc \<Rightarrow> nat multiset" where
  "pc_reply (Waiting r p ps) = {#r#}"
| "pc_reply pc = {#}"

fun pc_want :: "ingest_pc \<Rightarrow> (string \<times> nat) set" where
  "pc_want (Waiting r p ps) = {(norm (payload_hash p), r)}"
| "pc_want pc = {}"

fun cmd_want :: "cmd \<Rightarrow> (string \<times> nat) set" where
  "cmd_want (WantCmd hash reply) = {(norm hash, reply)}"
| "cmd_want (DialCmd addr) = {}"

text \<open>What the ingest task is about to store hashes to the pin.\<close>

fun pc_verified :: "crypto \<Rightarrow> ingest_pc \<Rightarrow> bool" where
  "pc_verified c (Storing p b v ps) = (sha256_hex c b = norm (payload_hash p))"
| "pc_verified c pc = True"

definition want_ok :: "node_sys \<Rightarrow> bool" where
  "want_ok y \<longleftrightarrow>
     sum_of cmd_reply (s_cmds y) + waiting (s_p2p y) = pc_reply (s_pc y) \<and>
     (\<Union> (cmd_want ` set (s_cmds y))) \<subseteq> pc_want (s_pc y) \<and> pending_wanted (pc_want (s_pc y)) (s_p2p y) \<and>
     (pc_reply (s_pc y) \<noteq> {#} \<longrightarrow> running (s_p2p y))"

definition sys_ok :: "node \<Rightarrow> string option \<Rightarrow> (nat \<times> string) set \<Rightarrow> string set \<Rightarrow> node_sys \<Rightarrow> bool" where
  "sys_ok n tok Q D y \<longleftrightarrow>
     gw_inv tok (gw_view y) \<and> p2p_inv (p2p_view y) \<and> serves_ok (n_crypto n) Q D (p2p_view y) \<and>
     want_ok y \<and> pc_verified (n_crypto n) (s_pc y)"

lemma sys_ok_store: "sys_ok n tok Q D y \<Longrightarrow> store_ok (s_store y) \<and> certified (n_crypto n) (s_store y) \<and> D \<subseteq> denied (s_store y)"
  by (simp add: sys_ok_def gw_inv_def gw_view_def serves_ok_def p2p_view_def)

text \<open>The views after a change of the store alone.\<close>

lemma views_store [simp]:
  "gw_store (gw_view y) = s_store y" "p_store (p2p_view y) = s_store y"
  "pending (p2p_view y) = pending (s_p2p y)" "running (p2p_view y) = running (s_p2p y)"
  "providers (p2p_view y) = providers (s_p2p y)" "next_rid (p2p_view y) = next_rid (s_p2p y)"
  "serving (p2p_view y) = serving (s_p2p y)" "serve_queue (p2p_view y) = serve_queue (s_p2p y)"
  "serve_permits (p2p_view y) = serve_permits (s_p2p y)" "admin_token (gw_view y) = admin_token (s_gw y)"
  by (simp_all add: gw_view_def p2p_view_def)

lemma waiting_view [simp]: "waiting (p2p_view y) = waiting (s_p2p y)"
  by (rule waiting_same) simp

lemma pending_wanted_view [simp]: "pending_wanted W (p2p_view y) = pending_wanted W (s_p2p y)"
  by (simp add: pending_wanted_def)

lemma sys_ok_change:
  assumes "sys_ok n tok Q D y" and "s_p2p y' = s_p2p y" and "s_cmds y' = s_cmds y"
    and "store_ok (s_store y')" and "certified (n_crypto n) (s_store y')" and "D \<subseteq> denied (s_store y')"
    and "admin_token (s_gw y') = admin_token (s_gw y)"
    and "pc_reply (s_pc y') = pc_reply (s_pc y)" and "pc_want (s_pc y') = pc_want (s_pc y)"
    and "pc_verified (n_crypto n) (s_pc y')"
  shows "sys_ok n tok Q D y'"
  using assms
  by (simp add: sys_ok_def want_ok_def gw_inv_def p2p_inv_def serves_ok_def)

section \<open>HTTP requests\<close>

lemma http_step_ok:
  assumes ok: "sys_ok n tok Q D y" and "order_ok (env_io e)"
    and "\<And>h. h \<in> D \<Longrightarrow> \<not> authorised_allow tok (Serve e rq) h"
  shows "sys_ok n tok Q D (fst (node_step n y (Http e rq)))"
proof -
  let ?c = "n_crypto n"
  obtain r g where h: "gw_handle ?c e (gw_view y) rq = (r, g)" by fastforce
  then have g: "g = gw_step ?c (gw_view y) (Serve e rq)" by simp
  have inv: "gw_inv tok (gw_view y)" using ok by (simp add: sys_ok_def)
  have inv': "gw_inv tok g" unfolding g using inv assms(2) by (intro gw_run.step_inv) simp_all
  have cert: "certified ?c (gw_store g)"
    unfolding g using sys_ok_store [OF ok]
    by (cases rq) (auto simp: deny_content_store allow_content_store certified_deny certified_allow)
  have "d \<in> denied (gw_store g)" if "d \<in> D" for d
    unfolding g using inv assms(3) [OF that] sys_ok_store [OF ok] that by (intro gw_step_ban) auto
  then have "sys_ok n tok Q D (y\<lparr>s_store := gw_store g, s_gw := g\<rparr>)"
    using ok inv inv' cert by (intro sys_ok_change [OF ok]) (auto simp: gw_inv_def sys_ok_def)
  then show ?thesis by (simp add: h)
qed

section \<open>The peer-to-peer task\<close>

lemma take_reply_fields [simp]:
  "s_store (take_reply out y) = s_store y" "s_p2p (take_reply out y) = s_p2p y" "s_cmds (take_reply out y) = s_cmds y"
  "s_gw (take_reply out y) = s_gw y"
  by (cases "(out, y)" rule: take_reply.cases; simp split: ingest_pc.split option.split)+

lemma fold_take_reply_fields [simp]:
  "s_store (fold take_reply outs y) = s_store y" "s_p2p (fold take_reply outs y) = s_p2p y"
  "s_cmds (fold take_reply outs y) = s_cmds y" "s_gw (fold take_reply outs y) = s_gw y"
  by (induction outs arbitrary: y) simp_all

text \<open>Outputs without a delivery leave the ingest task alone; a delivery of the awaited reply wakes it.\<close>

lemma take_replies_none: "sum_of delivered outs = {#} \<Longrightarrow> fold take_reply outs y = y"
proof (induction outs)
  case (Cons out outs)
  then have "take_reply out y = y" by (cases out) simp_all
  with Cons show ?case by simp
qed simp

lemma take_replies_one:
  "sum_of delivered outs = {#r#} \<Longrightarrow> s_pc y = Waiting r p ps \<Longrightarrow>
    (\<exists>b. Deliver r (Some b) \<in> set outs \<and> s_pc (fold take_reply outs y) = Storing p b True ps) \<or>
    (Deliver r None \<in> set outs \<and> s_pc (fold take_reply outs y) = AtPin ps)"
proof (induction outs)
  case (Cons out outs)
  show ?case
  proof (cases "delivered out = {#}")
    case True
    then have "take_reply out y = y" by (cases out) simp_all
    with Cons True show ?thesis by auto
  next
    case False
    then obtain reply x where out: "out = Deliver reply x" by (cases out) auto
    with Cons.prems have "reply = r" "sum_of delivered outs = {#}" by auto
    with out Cons.prems(2) show ?thesis by (cases x) (simp_all add: take_replies_none)
  qed
qed simp

lemma waiting_zero: "finite (dom (pending s)) \<Longrightarrow> waiting s = {#} \<longleftrightarrow> pending s = Map.empty"
  by (auto simp: waiting_def mset_set_empty_iff dom_eq_empty_conv)

lemma p2p_step_shared:
  assumes "snd e \<noteq> CmdClosed" and "\<And>op. snd e \<noteq> StoreOp op"
  shows "p_store (fst (p2p_step cfg s e)) = p_store s" and "running (fst (p2p_step cfg s e)) = running s"
proof -
  obtain i ev where e: "e = (i, ev)" by fastforce
  have "p_store (fst (p2p_step cfg s e)) = p_store s \<and> running (fst (p2p_step cfg s e)) = running s"
  proof (cases ev)
    case (Request r channel)
    with e show ?thesis by (cases r) (simp_all add: p2p_step_def Let_def)
  qed (use assms e in \<open>auto simp: p2p_step_def on_want_def on_serve_done_def on_listen_def on_connected_def
      on_disconnected_def on_response_def on_failure_def on_serve_task_def serve_finish_def Let_def
      split: option.splits list.splits prod.splits\<close>)
  then show "p_store (fst (p2p_step cfg s e)) = p_store s" "running (fst (p2p_step cfg s e)) = running s" by simp_all
qed

fun event_want :: "p2p_event \<Rightarrow> (string \<times> nat) set" where
  "event_want (Want hash reply) = {(norm hash, reply)}"
| "event_want ev = {}"

lemma no_cmd_want: "sum_of cmd_reply cs = {#} \<Longrightarrow> (\<Union> (cmd_want ` set cs)) = {}"
proof (induction cs)
  case (Cons c cs)
  then show ?case by (cases c) simp_all
qed simp

lemma add_eq_single_cases:
  assumes "A + B + C = ({#r#} :: nat multiset)"
  shows "B = {#} \<or> (A = {#} \<and> B = {#r#} \<and> C = {#})"
proof (cases "B = {#}")
  case False
  then obtain x B' where "B = add_mset x B'" by (cases B) auto
  with assms have "add_mset x (A + B' + C) = {#r#}" by simp
  then have "x = r \<and> A + B' + C = {#}" by (simp add: add_mset_eq_single)
  with \<open>B = add_mset x B'\<close> show ?thesis by simp
qed simp

lemma run_p2p_ok:
  assumes gw: "gw_inv tok (gw_view y)" and inv: "p2p_inv (p2p_view y)"
    and serves: "serves_ok (n_crypto n) Q D (p2p_view y)" and pc: "pc_verified (n_crypto n) (s_pc y)"
    and sum: "sum_of cmd_reply (s_cmds y) + (want_reply e + waiting (s_p2p y)) = pc_reply (s_pc y)"
    and wants: "(\<Union> (cmd_want ` set (s_cmds y))) \<union> event_want (snd e) \<subseteq> pc_want (s_pc y)"
      "pending_wanted (pc_want (s_pc y)) (s_p2p y)" "pc_reply (s_pc y) \<noteq> {#} \<longrightarrow> running (s_p2p y)"
    and legal: "p2p_legal e" "snd e \<noteq> CmdClosed" "\<And>op. snd e \<noteq> StoreOp op"
    and asked: "\<And>h channel. snd e = Request (ReqGet h) channel \<Longrightarrow> (channel, norm (norm h)) \<in> Q"
  shows "sys_ok n tok Q D (fst (run_p2p n y e)) \<and>
    (\<forall>out. P2pOut out \<in> set (snd (run_p2p n y e)) \<longrightarrow> good_response (n_crypto n) Q D out)"
proof -
  obtain p outs where step: "p2p_step (node_cfg n) (p2p_view y) e = (p, outs)" by fastforce
  let ?y = "y\<lparr>s_p2p := p, s_store := p_store p\<rparr>" and ?y' = "fold take_reply outs (y\<lparr>s_p2p := p, s_store := p_store p\<rparr>)"
  have run: "run_p2p n y e = (?y', map P2pOut outs)" by (simp add: run_p2p_def step)
  note shared = p2p_step_shared [OF legal(2,3), of "node_cfg n" "p2p_view y", unfolded step]
  have st: "p_store p = s_store y" and running: "running p = running (s_p2p y)" using shared by simp_all
  have table: "table_ok (providers (p2p_view y))" using inv by (simp add: p2p_inv_def)
  have inv': "p2p_inv p" using p2p_step_inv [OF inv legal(1), of "node_cfg n"] step by simp
  have "serve_legal (n_crypto n) D e" using legal(3) by (cases "(n_crypto n, D, e)" rule: serve_legal.cases) auto
  then have serve: "serves_ok (n_crypto n) Q D p \<and> (\<forall>x \<in> set outs. good_response (n_crypto n) Q D x)"
    using serve_step [OF inv serves legal(1), of "node_cfg n"] asked step by (cases e) auto
  have w: "(norm hash, reply) \<in> pc_want (s_pc y)" if "e = (e', Want hash reply)" for e' hash reply
    using wants(1) that by simp
  have deliver: "pending_wanted (pc_want (s_pc y)) p \<and> (\<forall>x \<in> set outs. good_delivery (node_cfg n) (pc_want (s_pc y)) x)"
    using delivery_step [of "pc_want (s_pc y)" "p2p_view y" e "node_cfg n", OF _ table w] wants(2) step by simp
  have view: "p2p_view ?y' = p" "gw_view ?y' = (gw_view y)\<lparr>gw_peers := peer_status p\<rparr>"
    by (simp_all add: p2p_view_def gw_view_def st)
  have conserve: "sum_of cmd_reply (s_cmds y) + (sum_of delivered outs + waiting p) = pc_reply (s_pc y)"
  proof (cases "running (s_p2p y)")
    case True
    with senders_step [OF inv, of e "node_cfg n"] sum step show ?thesis by simp
  next
    case False
    with wants(3) sum have "want_reply e = {#}" by simp
    with False step sum have "p = p2p_view y" "outs = []" by (simp_all add: p2p_step_def)
    with sum \<open>want_reply e = {#}\<close> show ?thesis by simp
  qed
  have "want_ok ?y' \<and> pc_verified (n_crypto n) (s_pc ?y')"
  proof (cases "sum_of delivered outs = {#}")
    case True
    then have "?y' = ?y" by (rule take_replies_none)
    with True conserve wants deliver pc running show ?thesis by (simp add: want_ok_def)
  next
    case False
    with conserve have "pc_reply (s_pc y) \<noteq> {#}" by auto
    then obtain r q ps where at: "s_pc y = Waiting r q ps" by (cases "s_pc y") simp_all
    with conserve False at have one: "sum_of cmd_reply (s_cmds y) = {#}" "sum_of delivered outs = {#r#}" "waiting p = {#}"
      using add_eq_single_cases [of "sum_of cmd_reply (s_cmds y)" "sum_of delivered outs" "waiting p" r]
      by (auto simp: add.assoc)
    have "finite (dom (pending p))" using inv' by (simp add: p2p_inv_def)
    then have "pending p = Map.empty" using one(3) by (simp add: waiting_zero)
    moreover have "s_pc ?y = Waiting r q ps" using at by simp
    note woken = take_replies_one [OF one(2) this]
    moreover have "sha256_hex (n_crypto n) b = norm (payload_hash q)" if "Deliver r (Some b) \<in> set outs" for b
      using deliver that at by (fastforce simp: node_cfg_def)
    ultimately show ?thesis
      using one no_cmd_want [OF one(1)] woken by (auto simp: want_ok_def pending_wanted_def)
  qed
  moreover have "gw_inv tok (gw_view ?y')" using gw by (simp add: gw_inv_def view)
  ultimately show ?thesis using inv' serve by (auto simp: sys_ok_def run view)
qed

section \<open>Every step\<close>

fun node_legal :: "node_event \<Rightarrow> bool" where
  "node_legal (Http e rq) = order_ok (env_io e)"
| "node_legal (P2pEvent e ev) = p2p_legal (e, ev)"
| "node_legal (P2pCommand e) = (hash_iter (ev_order e) \<and> order_ok (ev_io e))"
| "node_legal ev = True"

text \<open>The HTTP requests that lift the ban of \<open>h\<close>.\<close>

fun node_lifts :: "string option \<Rightarrow> node_event \<Rightarrow> string \<Rightarrow> bool" where
  "node_lifts tok (Http e rq) h = authorised_allow tok (Serve e rq) h"
| "node_lifts tok ev h = False"

fun node_asks :: "node_event \<Rightarrow> (nat \<times> string) set" where
  "node_asks (P2pEvent e (Request (ReqGet h) channel)) = {(channel, norm (norm h))}"
| "node_asks ev = {}"

text \<open>The steps of the ingest task that only move its counter.\<close>

lemma ingest_step_ok:
  assumes ok: "sys_ok n tok Q D y"
  shows "sys_ok n tok Q D (pass_begin n y x)" and "sys_ok n tok Q D (pass_list n y x)"
    and "sys_ok n tok Q D (pin_denied y)" and "sys_ok n tok Q D (pin_held y)"
  using sys_ok_store [OF ok] unfolding pass_begin_def pass_list_def pin_denied_def pin_held_def
  by (auto intro!: sys_ok_change [OF ok] split: ingest_pc.split list.split sum.split) (use ok in \<open>simp_all add: sys_ok_def\<close>)

lemma acquire_step_ok:
  assumes ok: "sys_ok n tok Q D y"
  shows "sys_ok n tok Q D (pin_acquire n y net)"
proof (cases "s_pc y")
  case (Acquiring p ps)
  let ?r = "acquire (n_crypto n) net (payload_hash p) (pin_urls n (s_templates y) p) (max_object (n_config n))"
  have "sha256_hex (n_crypto n) b = norm (payload_hash p)" if "ok_bytes ?r = Some b" for b
    using acquire_source.fetch_verified [of "n_crypto n"
        "(net, payload_hash p, pin_urls n (s_templates y) p, max_object (n_config n))" b] that by simp
  with Acquiring ok sys_ok_store [OF ok] show ?thesis
    by (auto simp: pin_acquire_def intro!: sys_ok_change [OF ok] split: option.split)
qed (use ok in \<open>simp_all add: pin_acquire_def\<close>)

lemma store_step_ok:
  assumes ok: "sys_ok n tok Q D y"
  shows "sys_ok n tok Q D (pin_store y i)"
proof (cases "s_pc y")
  case (Storing p b v ps)
  obtain r s where put: "store_put i (s_store y) (payload_hash p) b = (r, s)" by fastforce
  have v: "sha256_hex (n_crypto n) b = norm (payload_hash p)" using ok Storing by (simp add: sys_ok_def)
  have "store_ok s" "certified (n_crypto n) s" "D \<subseteq> denied s"
    using sys_ok_store [OF ok] store_ok_put [of "s_store y" i "payload_hash p" b] certified_put [OF _ v, of "s_store y" i]
      put_denied [of i "s_store y" "payload_hash p" b] put by auto
  with Storing put show ?thesis
    by (cases r) (auto simp: pin_store_def pin_stored_def fail_pin_def intro!: sys_ok_change [OF ok])
qed (use ok in \<open>simp_all add: pin_store_def pin_stored_def\<close>)

lemma dial_step_ok:
  assumes ok: "sys_ok n tok Q D y"
  shows "sys_ok n tok Q D (pass_dial y)"
proof (cases "s_pc y")
  case (Dialling as)
  then show ?thesis
    using ok by (cases as)
      (auto simp: pass_dial_def sys_ok_def want_ok_def gw_view_def p2p_view_def)
qed (use ok in \<open>simp_all add: pass_dial_def\<close>)

lemma want_step_ok:
  assumes ok: "sys_ok n tok Q D y"
  shows "sys_ok n tok Q D (pin_want y)"
proof (cases "s_pc y")
  case (Asking p ps)
  have "waiting (s_p2p y) = {#}" "sum_of cmd_reply (s_cmds y) = {#}"
    using ok Asking by (simp_all add: sys_ok_def want_ok_def)
  moreover have "finite (dom (pending (s_p2p y)))" using ok by (simp add: sys_ok_def p2p_inv_def)
  ultimately have none: "pending (s_p2p y) = Map.empty" "(\<Union> (cmd_want ` set (s_cmds y))) = {}"
    by (simp_all add: waiting_zero no_cmd_want)
  show ?thesis
    using ok Asking none
    by (auto simp: pin_want_def fail_pin_def sys_ok_def want_ok_def gw_view_def p2p_view_def pending_wanted_def)
qed (use ok in \<open>simp_all add: pin_want_def\<close>)

text \<open>Together: each step keeps the invariant, and each response it sends is verified.\<close>

lemma node_step_ok:
  assumes ok: "sys_ok n tok Q D y" and legal: "node_legal ev" and ban: "\<And>h. h \<in> D \<Longrightarrow> \<not> node_lifts tok ev h"
    and asked: "node_asks ev \<subseteq> Q"
  shows "sys_ok n tok Q D (fst (node_step n y ev)) \<and>
    (\<forall>out. P2pOut out \<in> set (snd (node_step n y ev)) \<longrightarrow> good_response (n_crypto n) Q D out)"
proof (cases "(n, y, ev)" rule: node_step.cases)
  case (1 n' y' e rq)
  then have "sys_ok n tok Q D (fst (node_step n y (Http e rq)))"
    using ok legal ban by (intro http_step_ok) simp_all
  with 1 show ?thesis by (auto split: prod.splits)
next
  case (2 n' y' e ev')
  show ?thesis
  proof (cases "loop_event ev'")
    case True
    have "want_reply (e, ev') = {#}" "event_want ev' = {}" "ev' \<noteq> CmdClosed" "ev' \<noteq> StoreOp op" for op
      using True by (cases ev'; simp)+
    moreover have "(channel, norm (norm h)) \<in> Q" if "ev' = Request (ReqGet h) channel" for h channel
      using asked 2 that by simp
    ultimately have "sys_ok n tok Q D (fst (run_p2p n y (e, ev'))) \<and>
        (\<forall>out. P2pOut out \<in> set (snd (run_p2p n y (e, ev'))) \<longrightarrow> good_response (n_crypto n) Q D out)"
      using ok legal 2 by (intro run_p2p_ok) (simp_all add: sys_ok_def want_ok_def)
    with 2 True show ?thesis by simp
  qed (use 2 ok in simp)
next
  case (3 n' y' e)
  show ?thesis
  proof (cases "s_cmds y = [] \<or> \<not> running (s_p2p y)")
    case True
    with 3 ok show ?thesis by (auto split: list.split)
  next
    case False
    then obtain cm cs where c: "s_cmds y = cm # cs" by (cases "s_cmds y") auto
    let ?y = "y\<lparr>s_cmds := cs\<rparr>"
    have views: "gw_view ?y = gw_view y" "p2p_view ?y = p2p_view y" by (simp_all add: gw_view_def p2p_view_def)
    have "want_reply (e, cmd_event cm) = cmd_reply cm" "event_want (cmd_event cm) = cmd_want cm"
      "cmd_event cm \<noteq> CmdClosed" "cmd_event cm \<noteq> StoreOp op" "cmd_event cm \<noteq> Request r channel"
      "p2p_legal (e, cmd_event cm)" for op r channel
      using legal 3 by (cases cm; simp add: p2p_legal_def)+
    then have "sys_ok n tok Q D (fst (run_p2p n ?y (e, cmd_event cm))) \<and>
        (\<forall>out. P2pOut out \<in> set (snd (run_p2p n ?y (e, cmd_event cm))) \<longrightarrow> good_response (n_crypto n) Q D out)"
      using ok c by (intro run_p2p_ok) (simp_all add: views sys_ok_def want_ok_def ac_simps)
    with 3 c False show ?thesis by simp
  qed
qed (use ok in \<open>simp_all add: ingest_step_ok acquire_step_ok store_step_ok dial_step_ok want_step_ok\<close>)

end
