(* ===== verification/Chain_Props.thy ===== *)
theory Chain_Props
  imports Chain "HOL-Library.Char_ord" "HOL-Library.List_Lexorder"
begin

text \<open>
  The properties of the pin set (src/chain.rs): what \<open>confirmed_pins\<close> returns, that paging over a feed that
  grows at its head skips nothing, that it stops, and that a domain name is one path segment of the request.
\<close>

section \<open>Percent-encoding\<close>

definition hex_val :: "char \<Rightarrow> nat" where
  "hex_val c = (if code c < 58 then code c - 48 else code c - 55)"

fun pct_decode :: "string \<Rightarrow> string" where
  "pct_decode [] = []"
| "pct_decode (c # s) =
     (if c = CHR ''%'' then
        (case s of h # l # t \<Rightarrow> char_of (16 * hex_val h + hex_val l) # pct_decode t | _ \<Rightarrow> [])
      else c # pct_decode s)"

lemma hex_val_upper: "n < 16 \<Longrightarrow> hex_val (upper_hex n) = n"
  by (simp add: hex_val_def upper_hex_def)

lemma upper_hex_unreserved: "n < 16 \<Longrightarrow> unreserved (upper_hex n)"
  by (auto simp: unreserved_def upper_hex_def)

lemma code_nibbles: "code c div 16 < 16" "code c mod 16 < 16" "char_of (16 * (code c div 16) + code c mod 16) = c"
proof -
  have "code c < 16 * 16" using code_less_256 [of c] by simp
  then show "code c div 16 < 16" by (rule less_mult_imp_div_less)
qed simp_all

text \<open>
  The name of a domain survives percent-encoding and stays within one path segment: decoding gives it back,
  and the encoded text has only unreserved characters and percent signs, so no name can add a slash, a query or
  a fragment to the request.
\<close>

theorem urlencode_safe:
  "pct_decode (urlencode s) = s \<and> list_all (\<lambda>c. unreserved c \<or> c = CHR ''%'') (urlencode s)"
proof (induction s)
  case Nil
  then show ?case by (simp add: urlencode_def)
next
  case (Cons c s)
  have "\<not> unreserved (CHR ''%'')" by (simp add: unreserved_def)
  with Cons code_nibbles [of c] show ?case
    by (auto simp: urlencode_def hex_val_upper upper_hex_unreserved)
qed

section \<open>The pin set\<close>

text \<open>
  C25: when a pass gets a pin set, it is exactly what is confirmed among the proposals it fetched: sorted by
  height, one entry per lower-cased hash, every entry a fetched proposal at least \<open>confirmations\<close> blocks below
  the tip (or at height 0 below a short chain), and every such proposal's hash present.
\<close>

theorem pin_set_is_confirmed:
  assumes "pass_env_ok e" and "confirmed_pins dec rpc e confirmations per_domain = Inr out"
    and "tip_height dec rpc (answers e) = Inr tip"
    and "chain_get (dec_domains dec) rpc (answers e) ''/domains'' = Inr ds"
  shows "sorted (map height out) \<and> distinct (map payload_hash out) \<and>
    (\<forall>x \<in> set out. \<exists>p \<in> pass_proposals dec rpc e per_domain ds.
       unat (p_height p) \<le> unat tip - unat confirmations \<and> x = pin_of p) \<and>
    (\<forall>p \<in> pass_proposals dec rpc e per_domain ds. unat (p_height p) \<le> unat tip - unat confirmations \<longrightarrow>
       to_lowercase (p_payload_hash p) \<in> payload_hash ` set out)"
proof -
  have le: "h \<le> sat_sub tip confirmations \<longleftrightarrow> unat h \<le> unat tip - unat confirmations" for h
    by (simp add: word_le_nat_alt unat_sat_sub)
  note facts = confirmed_pins_Inr [OF assms]
  show ?thesis using facts(1,2) facts(3) facts(4) unfolding le by blast
qed

text \<open>A node with one domain, one proposal at height 5 and the tip at 9.\<close>

definition demo_decoders :: decoders where
  "demo_decoders =
     \<lparr>dec_tip = (\<lambda>_. Some 9), dec_domains = (\<lambda>_. Some [''d'']),
      dec_proposals = (\<lambda>_. Some \<lparr>proposals = [\<lparr>p_payload_hash = ''AB'', p_uri = '''', p_height = 5\<rparr>],
        total_matches = Some 1\<rparr>)\<rparr>"

definition ok_response :: response where
  "ok_response = \<lparr>status = 200, content_length = None, body_chunks = []\<rparr>"

definition demo_pass :: pass_env where
  "demo_pass =
     \<lparr>answers = (\<lambda>_. Some ok_response), pages = (\<lambda>_ _ _. Some ok_response), arrival = (\<lambda>xs. xs),
      visit = sorted_list_of_set\<rparr>"

lemma demo_pass_ok: "pass_env_ok demo_pass"
  by (simp add: pass_env_ok_def demo_pass_def hash_iter_def)

lemma demo_get: "chain_get dec ''http://n'' (answers demo_pass) path = (case dec [] of None \<Rightarrow> Inl RpcDecode | Some x \<Rightarrow> Inr x)"
  by (simp add: chain_get_def demo_pass_def ok_response_def is_success_def json_body_def Let_def split: option.split)

lemma demo_fetch: "fetch_domain demo_decoders ''http://n'' (pages demo_pass i) 500 d
    = [\<lparr>p_payload_hash = ''AB'', p_uri = '''', p_height = 5\<rparr>]"
  by (simp add: fetch_domain_def MAX_PAGES_def numeral_eq_Suc chain_get_def demo_pass_def ok_response_def
      is_success_def json_body_def demo_decoders_def Let_def)

lemma demo_lower: "to_lowercase ''AB'' = ''ab''"
  by code_simp

lemma demo_tip: "tip_height demo_decoders ''http://n'' (answers demo_pass) = Inr 9"
  by (simp add: tip_height_def demo_get demo_decoders_def)

lemma demo_domains: "chain_get (dec_domains demo_decoders) ''http://n'' (answers demo_pass) ''/domains'' = Inr [''d'']"
  by (simp add: demo_get demo_decoders_def)

lemma demo_confirmed:
  "confirmed_pins demo_decoders ''http://n'' demo_pass 3 500 = Inr [\<lparr>payload_hash = ''ab'', uri = '''', height = 5\<rparr>]"
proof -
  have max: "sat_sub 9 3 = 6" by (simp add: sat_sub_def)
  have "fetch_all demo_decoders ''http://n'' demo_pass 500 [''d''] = arrival demo_pass
      [[\<lparr>p_payload_hash = ''AB'', p_uri = '''', p_height = 5\<rparr>]]"
    by (simp add: fetch_all_def demo_fetch)
  then have all: "concat (fetch_all demo_decoders ''http://n'' demo_pass 500 [''d''])
      = [\<lparr>p_payload_hash = ''AB'', p_uri = '''', p_height = 5\<rparr>]"
    by (simp add: demo_pass_def)
  have visit: "visit demo_pass {''ab''} = [''ab'']" by (simp add: demo_pass_def)
  show ?thesis
    by (simp add: confirmed_pins_def demo_tip demo_domains max all demo_lower visit Let_def)
qed

theorem pin_set_is_confirmed_witness:
  "distinct (map payload_hash [\<lparr>payload_hash = ''ab'', uri = '''', height = 5 :: u64\<rparr>]) \<and>
   confirmed_pins demo_decoders ''http://n'' demo_pass 3 500 = Inr [\<lparr>payload_hash = ''ab'', uri = '''', height = 5\<rparr>]"
  using pin_set_is_confirmed [OF demo_pass_ok demo_confirmed demo_tip demo_domains] demo_confirmed by blast

section \<open>Paging\<close>

text \<open>
  C19: paging never skips. While the domain's newest-first feed may grow at its head between two requests, every
  proposal of the feed at the time of the first request is fetched, provided the node serves full pages (its own
  page cap is not below \<open>per_domain\<close>) and the feed stays within 200 pages.
\<close>

theorem paging_never_skips:
  assumes "serves_feed dec rpc net d per (unat per) F" and "\<And>k. F k = pre k @ F 0"
    and "\<And>k. length (pre k) \<le> length (pre (Suc k))" and "\<And>k. length (F k) \<le> 200 * unat per"
  shows "set (F 0) \<subseteq> set (fetch_domain dec rpc net per d)"
proof -
  have "covers (length (pre 0)) (0 * unat per) (F 0) []" by (simp add: covers_def)
  with fetch_pages_no_skip [OF assms(1-3), of 200 200 0 0 "[]"] assms(4)
  have "set (F 0) \<subseteq> set (fetch_pages dec rpc net d per 200 0 0 [])" by simp
  then show ?thesis by (simp add: fetch_domain_def MAX_PAGES_def)
qed

text \<open>A feed of one proposal, served one per page.\<close>

definition one_proposal :: proposal where
  "one_proposal = \<lparr>p_payload_hash = ''AB'', p_uri = '''', p_height = 5\<rparr>"

definition feed_decoders :: decoders where
  "feed_decoders =
     \<lparr>dec_tip = (\<lambda>_. Some 9), dec_domains = (\<lambda>_. Some [''d'']),
      dec_proposals = (\<lambda>b. Some \<lparr>proposals = (if b = [] then [one_proposal] else []), total_matches = Some 1\<rparr>)\<rparr>"

definition feed_net :: "string \<Rightarrow> u32 \<Rightarrow> net" where
  "feed_net d per = (\<lambda>k u. Some \<lparr>status = 200, content_length = None,
     body_chunks = (if u = ''http://n'' @ page_path d per 0 then [] else [Chunk [1]])\<rparr>)"

lemma page_path_offset: "page_path d per a = page_path d per b \<longleftrightarrow> a = b"
proof
  assume "page_path d per a = page_path d per b"
  then have "dec_str (unat a) = dec_str (unat b)" by (simp add: page_path_def)
  then have "unat a = unat b" using dec_str_digits by metis
  then show "a = b" by (simp add: word_unat_eq_iff)
qed simp

lemma feed_serves: "serves_feed feed_decoders ''http://n'' (feed_net ''d'' 1) ''d'' 1 (unat (1 :: u32)) (\<lambda>_. [one_proposal])"
proof -
  have "unat x \<noteq> 0" if "x \<noteq> 0" for x :: u64 using that by (simp add: unat_eq_zero)
  then have "take 1 (drop (unat x) [one_proposal]) = (if x = 0 then [one_proposal] else [])" for x :: u64
    by (auto simp: drop_Cons')
  then show ?thesis
    by (auto simp: serves_feed_def chain_get_def feed_net_def is_success_def json_body_def feed_decoders_def
        page_path_offset Let_def)
qed

theorem paging_never_skips_witness:
  "set [one_proposal] \<subseteq> set (fetch_domain feed_decoders ''http://n'' (feed_net ''d'' 1) 1 ''d'')"
  using paging_never_skips [OF feed_serves, of "\<lambda>_. []"] by simp

text \<open>
  C37: a misbehaving node cannot keep the pass busy: whatever it answers, a domain is listed with at most 200
  requests, and the result depends on the answers to these only.
\<close>

theorem paging_is_bounded:
  assumes "\<And>k u. k < 200 \<Longrightarrow> net k u = net' k u"
  shows "fetch_domain dec rpc net per d = fetch_domain dec rpc net' per d"
proof -
  have "fetch_pages dec rpc net d per n k offset all = fetch_pages dec rpc net' d per n k offset all"
    if "n + k \<le> 200" for n k offset all
    using that
  proof (induction n arbitrary: k offset all)
    case (Suc n)
    then have "net k = net' k" using assms by (simp add: fun_eq_iff)
    with Suc show ?case by (simp add: Let_def split: sum.split option.split)
  qed simp
  then show ?thesis by (simp add: fetch_domain_def MAX_PAGES_def)
qed

theorem paging_is_bounded_witness:
  "fetch_domain feed_decoders ''http://n'' (feed_net ''d'' 1) 1 ''d''
     = fetch_domain feed_decoders ''http://n'' (\<lambda>k. if k < 200 then feed_net ''d'' 1 k else (\<lambda>_. None)) 1 ''d''"
  by (rule paging_is_bounded) simp

section \<open>A page cap below the requested page size\<close>

text \<open>
  When the node caps its pages below \<open>per_domain\<close>, the first page is short, and the loop takes a short page for
  the end of the feed: whatever lies beyond the cap is not listed, although the node reports the total.
\<close>

lemma capped_pages_truncate:
  assumes "serves_feed dec rpc net d per cap F" and "cap < unat per"
  shows "fetch_domain dec rpc net per d = take cap (F 0)"
proof -
  let ?page = "take cap (F 0)"
  have per: "unat per < 2 ^ 32" using unsigned_less [of per] by simp
  then have u: "unat (ucast per :: u64) = unat per" by (simp add: unsigned_ucast_eq take_bit_nat_eq_self)
  have "length ?page < 2 ^ 64" using assms(2) per by simp
  then have "unat (of_nat (length ?page) :: u64) < unat per" using assms(2) by (simp add: unat_of_nat_u64)
  then have "(of_nat (length ?page) :: u64) < ucast per" by (simp add: word_less_nat_alt u)
  then show ?thesis
    using assms(1) by (simp add: fetch_domain_def MAX_PAGES_def numeral_eq_Suc serves_feed_def Let_def)
qed

end
