(* ===== verification/Guard_Spec.thy ===== *)
theory Guard_Spec
  imports Acquire
begin

unbundle bit_operations_syntax

text \<open>
  The SSRF guard against its specification: the address blocks it must refuse, as CIDR prefixes on the
  address read as one number, the IPv6 ranges that carry an IPv4 address, and the same IPv4 blocks as intervals
  in the order of addresses.
\<close>

section \<open>Prefixes\<close>

text \<open>\<open>in_cidr w x (p, n)\<close>: the \<open>w\<close>-bit number \<open>x\<close> agrees with \<open>p\<close> on its first \<open>n\<close> bits.\<close>

definition in_cidr :: "nat \<Rightarrow> nat \<Rightarrow> nat \<times> nat \<Rightarrow> bool" where
  "in_cidr w x p = (x div 2 ^ (w - snd p) = fst p div 2 ^ (w - snd p))"

fun v4_num :: "ipv4 \<Rightarrow> nat" where
  "v4_num (Ipv4 a b c d) = ((unat a * 256 + unat b) * 256 + unat c) * 256 + unat d"

definition snoc16 :: "nat \<Rightarrow> u16 \<Rightarrow> nat" where
  "snoc16 n x = n * 65536 + unat x"

fun v6_num :: "ipv6 \<Rightarrow> nat" where
  "v6_num (Ipv6 a b c d e f g h) = foldl snoc16 0 [a, b, c, d, e, f, g, h]"

text \<open>
  10/8, 172.16/12, 192.168/16, 127/8, 169.254/16, 0/8, 100.64/10, 192.0.0/24, 224/4 and 255.255.255.255;
  \<open>::1\<close>, \<open>::\<close>, ff00::/8, fc00::/7 and fe80::/10.
\<close>

definition internal_v4 :: "(nat \<times> nat) list" where
  "internal_v4 =
     [(10 * 2 ^ 24, 8), (172 * 2 ^ 24 + 16 * 2 ^ 16, 12), (192 * 2 ^ 24 + 168 * 2 ^ 16, 16), (127 * 2 ^ 24, 8),
      (169 * 2 ^ 24 + 254 * 2 ^ 16, 16), (0, 8), (100 * 2 ^ 24 + 64 * 2 ^ 16, 10), (192 * 2 ^ 24, 24),
      (224 * 2 ^ 24, 4), (2 ^ 32 - 1, 32)]"

definition internal_v6 :: "(nat \<times> nat) list" where
  "internal_v6 =
     [(1, 128), (0, 128), (0xff00 * 2 ^ 112, 8), (0xfc00 * 2 ^ 112, 7), (0xfe80 * 2 ^ 112, 10)]"

text \<open>
  The IPv4 address an IPv6 address stands for: IPv4-mapped \<open>::ffff:0:0/96\<close> and NAT64 \<open>64:ff9b::/96\<close> carry
  it in their last 32 bits, 6to4 \<open>2002::/16\<close> in the 32 bits after the prefix.
\<close>

definition embedded_v4 :: "ipv6 \<Rightarrow> nat option" where
  "embedded_v4 a =
     (if in_cidr 128 (v6_num a) (0xffff * 2 ^ 32, 96) \<or>
         in_cidr 128 (v6_num a) ((0x64 * 65536 + 0xff9b) * 2 ^ 96, 96)
      then Some (v6_num a mod 2 ^ 32)
      else if in_cidr 128 (v6_num a) (0x2002 * 2 ^ 112, 16) then Some (v6_num a div 2 ^ 80 mod 2 ^ 32)
      else None)"

section \<open>IPv4\<close>

lemma unat_u8_less: "unat (x :: u8) < 256"
  using unsigned_less [of x] by simp

lemma unat_u16_less: "unat (x :: u16) < 65536"
  using unsigned_less [of x] by simp

lemma v4_num_div:
  fixes a b c d :: u8
  defines "n \<equiv> ((unat a * 256 + unat b) * 256 + unat c) * 256 + unat d"
  shows "n div 2 ^ 24 = unat a" "n div 2 ^ 16 = unat a * 256 + unat b"
    "n div 2 ^ 8 = (unat a * 256 + unat b) * 256 + unat c"
    "n div 2 ^ 20 = (unat a * 256 + unat b) div 16" "n div 2 ^ 22 = (unat a * 256 + unat b) div 64"
    "n div 2 ^ 28 = unat a div 16"
proof -
  note less = unat_u8_less [of b] unat_u8_less [of c] unat_u8_less [of d]
  show d8: "n div 2 ^ 8 = (unat a * 256 + unat b) * 256 + unat c"
    using less by (simp add: n_def)
  have "n div 2 ^ 16 = n div 2 ^ 8 div 2 ^ 8" by (simp add: div_mult2_eq)
  with d8 less show d16: "n div 2 ^ 16 = unat a * 256 + unat b" by simp
  have "n div 2 ^ 24 = n div 2 ^ 16 div 2 ^ 8" by (simp add: div_mult2_eq)
  with d16 less show d24: "n div 2 ^ 24 = unat a" by simp
  have "n div 2 ^ 20 = n div 2 ^ 16 div 2 ^ 4" by (simp add: div_mult2_eq)
  with d16 show "n div 2 ^ 20 = (unat a * 256 + unat b) div 16" by simp
  have "n div 2 ^ 22 = n div 2 ^ 16 div 2 ^ 6" by (simp add: div_mult2_eq)
  with d16 show "n div 2 ^ 22 = (unat a * 256 + unat b) div 64" by simp
  have "n div 2 ^ 28 = n div 2 ^ 24 div 2 ^ 4" by (simp add: div_mult2_eq)
  with d24 show "n div 2 ^ 28 = unat a div 16" by simp
qed

lemma pair_eq:
  assumes "b < m" and "q < (m :: nat)"
  shows "a * m + b = p * m + q \<longleftrightarrow> a = p \<and> b = q"
proof
  assume e: "a * m + b = p * m + q"
  have "a = (a * m + b) div m" and "p = (p * m + q) div m" using assms by simp_all
  with e show "a = p \<and> b = q" by simp
qed simp

lemma pair_div: "0 < (k :: nat) \<Longrightarrow> (a * (k * m) + b) div k = a * m + b div k"
proof -
  assume "0 < k"
  moreover have eq: "a * (k * m) + b = k * (a * m) + b" by simp
  ultimately show ?thesis unfolding eq by (simp del: mult.assoc)
qed

lemma ip_is_public_v4: "ip_is_public (V4 a) \<longleftrightarrow> \<not> list_ex (in_cidr 32 (v4_num a)) internal_v4"
proof (cases a)
  case (Ipv4 p q r s)
  define P Q R S where n: "P = unat p" "Q = unat q" "R = unat r" "S = unat s"
  have less: "P < 256" "Q < 256" "R < 256" "S < 256" by (simp_all add: n unat_u8_less)
  have eq: "p = v \<longleftrightarrow> P = unat v" "q = v \<longleftrightarrow> Q = unat v" "r = v \<longleftrightarrow> R = unat v" "s = v \<longleftrightarrow> S = unat v" for v
    unfolding n by (rule word_unat_eq_iff)+
  have le: "v \<le> p \<longleftrightarrow> unat v \<le> P" "p \<le> v \<longleftrightarrow> P \<le> unat v" "v \<le> q \<longleftrightarrow> unat v \<le> Q" "q \<le> v \<longleftrightarrow> Q \<le> unat v" for v
    unfolding n by (rule word_le_nat_alt)+
  have num: "v4_num a = ((P * 256 + Q) * 256 + R) * 256 + S" by (simp add: Ipv4 n)
  note div = v4_num_div [of p q r s, folded n, folded num, simplified]
  have e12: "(P * 256 + Q) div 16 = 2753 \<longleftrightarrow> P = 172 \<and> 16 \<le> Q \<and> Q \<le> 31"
    using pair_eq [of "Q div 16" 16 1 P 172] pair_div [of 16 P 16 Q] less by auto
  have e10: "(P * 256 + Q) div 64 = 401 \<longleftrightarrow> P = 100 \<and> 64 \<le> Q \<and> Q \<le> 127"
    using pair_eq [of "Q div 64" 4 1 P 100] pair_div [of 64 P 4 Q] less by auto
  have e16: "P * 256 + Q = 49320 \<longleftrightarrow> P = 192 \<and> Q = 168" "P * 256 + Q = 43518 \<longleftrightarrow> P = 169 \<and> Q = 254"
    "P * 256 + Q = 49152 \<longleftrightarrow> P = 192 \<and> Q = 0" "P * 256 + Q = 65535 \<longleftrightarrow> P = 255 \<and> Q = 255"
    using less pair_eq [of Q 256 168 P 192] pair_eq [of Q 256 254 P 169] pair_eq [of Q 256 0 P 192]
      pair_eq [of Q 256 255 P 255] by simp_all
  have e24: "(P * 256 + Q) * 256 + R = 12582912 \<longleftrightarrow> P = 192 \<and> Q = 0 \<and> R = 0"
    using less pair_eq [of R 256 0 "P * 256 + Q" 49152] e16(3) by simp
  have e4: "P div 16 = 14 \<longleftrightarrow> 224 \<le> P \<and> P \<le> 239" by auto
  have e32: "v4_num a = 4294967295 \<longleftrightarrow> P = 255 \<and> Q = 255 \<and> R = 255 \<and> S = 255"
    using less pair_eq [of S 256 255 "(P * 256 + Q) * 256 + R" 16777215]
      pair_eq [of R 256 255 "P * 256 + Q" 65535] e16(4) unfolding num by simp
  have cidr: "list_ex (in_cidr 32 (v4_num a)) internal_v4 \<longleftrightarrow>
      P = 10 \<or> (P = 172 \<and> 16 \<le> Q \<and> Q \<le> 31) \<or> (P = 192 \<and> Q = 168) \<or> P = 127 \<or> (P = 169 \<and> Q = 254) \<or>
      P = 0 \<or> (P = 100 \<and> 64 \<le> Q \<and> Q \<le> 127) \<or> (P = 192 \<and> Q = 0 \<and> R = 0) \<or> (224 \<le> P \<and> P \<le> 239) \<or>
      (P = 255 \<and> Q = 255 \<and> R = 255 \<and> S = 255)"
    by (simp add: in_cidr_def internal_v4_def div e12 e16 e10 e24 e24 [simplified] e4 e32)
  have "ip_is_public (V4 a) \<longleftrightarrow>
      \<not> ((P = 10 \<or> P = 172 \<and> 16 \<le> Q \<and> Q \<le> 31 \<or> P = 192 \<and> Q = 168) \<or> P = 127 \<or> P = 169 \<and> Q = 254 \<or>
         (P = 0 \<and> Q = 0 \<and> R = 0 \<and> S = 0) \<or> (224 \<le> P \<and> P \<le> 239) \<or>
         (P = 255 \<and> Q = 255 \<and> R = 255 \<and> S = 255) \<or> P = 0 \<or> (P = 100 \<and> 64 \<le> Q \<and> Q \<le> 127) \<or>
         (P = 192 \<and> Q = 0 \<and> R = 0))"
    by (simp add: Ipv4 Let_def eq le) blast
  with cidr show ?thesis by blast
qed

section \<open>IPv6\<close>

text \<open>Masking off the low bits of a segment compares its high bits.\<close>

lemma and_high_eq:
  "(s :: u16) AND NOT (mask n) = v AND NOT (mask n) \<longleftrightarrow> drop_bit n s = drop_bit n v"
proof
  assume "s AND NOT (mask n) = v AND NOT (mask n)"
  then have "drop_bit n (s AND NOT (mask n)) = drop_bit n (v AND NOT (mask n))" by simp
  moreover have "drop_bit n (x AND NOT (mask n)) = drop_bit n x" for x :: u16
    using bit_imp_le_length [of x] by (auto simp: bit_eq_iff bit_simps)
  ultimately show "drop_bit n s = drop_bit n v" by simp
next
  assume "drop_bit n s = drop_bit n v"
  then have "push_bit n (drop_bit n s) = push_bit n (drop_bit n v)" by simp
  then show "s AND NOT (mask n) = v AND NOT (mask n)"
    by (auto simp: bit_eq_iff bit_simps)
qed

lemma unat_drop_bit_div: "unat (drop_bit n (w :: u16)) = unat w div 2 ^ n"
  unfolding unat_drop_bit_eq by (rule drop_bit_eq_div)

lemma segment_masks:
  "(s :: u16) AND 0xff00 = 0xff00 \<longleftrightarrow> unat s div 256 = 255"
  "s AND 0xfe00 = 0xfc00 \<longleftrightarrow> unat s div 512 = 126"
  "s AND 0xffc0 = 0xfe80 \<longleftrightarrow> unat s div 64 = 1018"
proof -
  have m: "NOT (mask 8) = (0xff00 :: u16)" "NOT (mask 9) = (0xfe00 :: u16)" "NOT (mask 6) = (0xffc0 :: u16)"
    by (simp_all add: mask_eq_exp_minus_1)
  have v: "0xff00 AND 0xff00 = (0xff00 :: u16)" "0xfc00 AND 0xfe00 = (0xfc00 :: u16)"
    "0xfe80 AND 0xffc0 = (0xfe80 :: u16)" by simp_all
  have d: "drop_bit n s = drop_bit n v \<longleftrightarrow> unat s div 2 ^ n = unat v div 2 ^ n" for n and v :: u16
    by (simp only: word_unat_eq_iff unat_drop_bit_div)
  show "s AND 0xff00 = 0xff00 \<longleftrightarrow> unat s div 256 = 255"
    "s AND 0xfe00 = 0xfc00 \<longleftrightarrow> unat s div 512 = 126"
    "s AND 0xffc0 = 0xfe80 \<longleftrightarrow> unat s div 64 = 1018"
    using and_high_eq [of s 8 "0xff00", unfolded m v d] and_high_eq [of s 9 "0xfc00", unfolded m v d]
      and_high_eq [of s 6 "0xfe80", unfolded m v d] by simp_all
qed

lemma v4_num_of_segments: "v4_num (v4_of_segments g h) = snoc16 (snoc16 0 g) h"
proof -
  have hi: "unat (ucast (drop_bit 8 x) :: u8) = unat x div 256" for x :: u16
    using unat_u16_less [of x]
    by (simp only: unsigned_ucast_eq unat_drop_bit_div take_bit_eq_mod) (simp add: less_mult_imp_div_less)
  have "x AND 0xff = take_bit 8 x" for x :: u16 by (simp add: take_bit_eq_mask mask_eq_exp_minus_1)
  then have lo: "unat (ucast (x AND 0xff) :: u8) = unat x mod 256" for x :: u16
    by (simp add: unsigned_ucast_eq take_bit_eq_mod unat_mod_distrib)
  show ?thesis by (simp add: snoc16_def v4_of_segments_def hi lo algebra_simps)
qed

text \<open>A 16-bit digit at the end of a number, split off again.\<close>

lemma snoc16_eq: "snoc16 n x = v \<longleftrightarrow> n = v div 65536 \<and> unat x = v mod 65536"
  using unat_u16_less [of x] pair_eq [of "unat x" 65536 "v mod 65536" n "v div 65536"]
  by (simp add: snoc16_def)

lemma snoc16_div: "snoc16 n x div 65536 = n" "snoc16 n x mod 65536 = unat x" "snoc16 0 x = unat x"
  using unat_u16_less [of x] by (simp_all add: snoc16_def)

lemma unat_u16_eq: "v < 65536 \<Longrightarrow> unat (x :: u16) = v \<longleftrightarrow> x = of_nat v"
  by (auto simp: unat_of_nat take_bit_nat_eq_self_iff)

lemma v6_num_div:
  fixes s0 s1 s2 s3 s4 s5 s6 s7 :: u16
  defines "x \<equiv> v6_num (Ipv6 s0 s1 s2 s3 s4 s5 s6 s7)"
  shows "x div 2 ^ 112 = unat s0"
    and "x div 2 ^ 80 = foldl snoc16 0 [s0, s1, s2]"
    and "x div 2 ^ 32 = foldl snoc16 0 [s0, s1, s2, s3, s4, s5]"
    and "x div 2 ^ 80 mod 2 ^ 32 = snoc16 (snoc16 0 s1) s2"
    and "x mod 2 ^ 32 = snoc16 (snoc16 0 s6) s7"
proof -
  have step: "x div 2 ^ (k + 16) = x div 2 ^ k div 65536" for k
    by (simp add: power_add div_mult2_eq)
  have low: "m mod 2 ^ 32 = m div 65536 mod 65536 * 65536 + m mod 65536" for m :: nat
    using mod_mult2_eq [of m 65536 65536] by simp
  have d16: "x div 2 ^ 16 = foldl snoc16 0 [s0, s1, s2, s3, s4, s5, s6]"
    by (simp add: x_def snoc16_div)
  show d32: "x div 2 ^ 32 = foldl snoc16 0 [s0, s1, s2, s3, s4, s5]"
    using step [of 16] d16 by (simp add: snoc16_div)
  have "x div 2 ^ 48 = foldl snoc16 0 [s0, s1, s2, s3, s4]"
    using step [of 32] d32 by (simp add: snoc16_div)
  then have "x div 2 ^ 64 = foldl snoc16 0 [s0, s1, s2, s3]"
    using step [of 48] by (simp add: snoc16_div)
  then show d80: "x div 2 ^ 80 = foldl snoc16 0 [s0, s1, s2]"
    using step [of 64] by (simp add: snoc16_div)
  then have "x div 2 ^ 96 = foldl snoc16 0 [s0, s1]"
    using step [of 80] by (simp add: snoc16_div)
  then show "x div 2 ^ 112 = unat s0"
    using step [of 96] by (simp add: snoc16_div)
  show "x div 2 ^ 80 mod 2 ^ 32 = snoc16 (snoc16 0 s1) s2"
    unfolding low d80 by (simp add: snoc16_div) (simp add: snoc16_def)
  show "x mod 2 ^ 32 = snoc16 (snoc16 0 s6) s7"
    unfolding low by (simp add: x_def snoc16_div) (simp add: snoc16_def)
qed

text \<open>The code's tests on an IPv6 address, with the embedded IPv4 addresses as numbers.\<close>

lemma ip_is_public_v6_segments:
  "ip_is_public (V6 (Ipv6 s0 s1 s2 s3 s4 s5 s6 s7)) \<longleftrightarrow>
     (let ok = (\<lambda>g h. \<not> list_ex (in_cidr 32 (snoc16 (snoc16 0 g) h)) internal_v4)
      in (if s0 = 0x64 \<and> s1 = 0xff9b \<and> s2 = 0 \<and> s3 = 0 \<and> s4 = 0 \<and> s5 = 0 then ok s6 s7
          else if s0 = 0x2002 then ok s1 s2 else True) \<and>
         (s0 = 0 \<and> s1 = 0 \<and> s2 = 0 \<and> s3 = 0 \<and> s4 = 0 \<and> s5 = 0xffff \<longrightarrow> ok s6 s7) \<and>
         \<not> (s0 = 0 \<and> s1 = 0 \<and> s2 = 0 \<and> s3 = 0 \<and> s4 = 0 \<and> s5 = 0 \<and> s6 = 0 \<and> (s7 = 0 \<or> s7 = 1)) \<and>
         unat s0 div 256 \<noteq> 255 \<and> unat s0 div 512 \<noteq> 126 \<and> unat s0 div 64 \<noteq> 1018)"
proof -
  have pub: "ip_is_public (V4 (v4_of_segments g h))
      \<longleftrightarrow> \<not> list_ex (in_cidr 32 (snoc16 (snoc16 0 g) h)) internal_v4" for g h
    unfolding ip_is_public_v4 v4_num_of_segments ..
  show ?thesis
    unfolding ip_is_public.simps(2) v4_of_segments_def [symmetric] pub Let_def
    by (auto simp: segment_masks pub simp del: ip_is_public.simps)
qed

lemma internal_v6_segments:
  "list_ex (in_cidr 128 (v6_num (Ipv6 s0 s1 s2 s3 s4 s5 s6 s7))) internal_v6 \<longleftrightarrow>
     (s0 = 0 \<and> s1 = 0 \<and> s2 = 0 \<and> s3 = 0 \<and> s4 = 0 \<and> s5 = 0 \<and> s6 = 0 \<and> (s7 = 0 \<or> s7 = 1)) \<or>
     unat s0 div 256 = 255 \<or> unat s0 div 512 = 126 \<or> unat s0 div 64 = 1018"
proof -
  let ?x = "v6_num (Ipv6 s0 s1 s2 s3 s4 s5 s6 s7)"
  have d: "?x div 2 ^ (112 + k) = unat s0 div 2 ^ k" for k
    unfolding power_add div_mult2_eq v6_num_div(1) ..
  have "?x div 2 ^ 120 = unat s0 div 256" "?x div 2 ^ 121 = unat s0 div 512" "?x div 2 ^ 118 = unat s0 div 64"
    using d [of 8] d [of 9] d [of 6] by simp_all
  moreover have "?x = 1 \<longleftrightarrow> s0 = 0 \<and> s1 = 0 \<and> s2 = 0 \<and> s3 = 0 \<and> s4 = 0 \<and> s5 = 0 \<and> s6 = 0 \<and> s7 = 1"
    "?x = 0 \<longleftrightarrow> s0 = 0 \<and> s1 = 0 \<and> s2 = 0 \<and> s3 = 0 \<and> s4 = 0 \<and> s5 = 0 \<and> s6 = 0 \<and> s7 = 0"
    by (auto simp: snoc16_eq unat_u16_eq)
  ultimately show ?thesis
    by (auto simp: in_cidr_def internal_v6_def simp del: v6_num.simps)
qed

lemma embedded_v4_segments:
  "embedded_v4 (Ipv6 s0 s1 s2 s3 s4 s5 s6 s7) =
     (if (s0 = 0 \<and> s1 = 0 \<and> s2 = 0 \<and> s3 = 0 \<and> s4 = 0 \<and> s5 = 0xffff) \<or>
         (s0 = 0x64 \<and> s1 = 0xff9b \<and> s2 = 0 \<and> s3 = 0 \<and> s4 = 0 \<and> s5 = 0) then Some (snoc16 (snoc16 0 s6) s7)
      else if s0 = 0x2002 then Some (snoc16 (snoc16 0 s1) s2) else None)"
proof -
  let ?x = "v6_num (Ipv6 s0 s1 s2 s3 s4 s5 s6 s7)"
  have v4: "in_cidr 128 ?x (0xffff * 2 ^ 32, 96)
      \<longleftrightarrow> s0 = 0 \<and> s1 = 0 \<and> s2 = 0 \<and> s3 = 0 \<and> s4 = 0 \<and> s5 = 0xffff"
    "in_cidr 128 ?x ((0x64 * 65536 + 0xff9b) * 2 ^ 96, 96)
      \<longleftrightarrow> s0 = 0x64 \<and> s1 = 0xff9b \<and> s2 = 0 \<and> s3 = 0 \<and> s4 = 0 \<and> s5 = 0"
    unfolding in_cidr_def using v6_num_div(3) [of s0 s1 s2 s3 s4 s5 s6 s7]
    by (auto simp: snoc16_eq unat_u16_eq simp del: v6_num.simps)
  have sixtofour: "in_cidr 128 ?x (0x2002 * 2 ^ 112, 16) \<longleftrightarrow> s0 = 0x2002"
    unfolding in_cidr_def using v6_num_div(1) [of s0 s1 s2 s3 s4 s5 s6 s7]
    by (simp add: unat_u16_eq del: v6_num.simps)
  show ?thesis
    unfolding embedded_v4_def v4 sixtofour v6_num_div(4,5) ..
qed

lemma ip_is_public_v6:
  "ip_is_public (V6 a) \<longleftrightarrow>
     \<not> list_ex (in_cidr 128 (v6_num a)) internal_v6 \<and>
     (case embedded_v4 a of Some n \<Rightarrow> \<not> list_ex (in_cidr 32 n) internal_v4 | None \<Rightarrow> True)"
  by (cases a) (auto simp: ip_is_public_v6_segments internal_v6_segments embedded_v4_segments Let_def
      simp del: v6_num.simps ip_is_public.simps)

section \<open>Ranges\<close>

text \<open>IPv4 addresses in the order of their numbers, so that a block is an interval of addresses.\<close>

lemma v4_num_inject: "v4_num a = v4_num b \<longleftrightarrow> a = b"
proof (cases a; cases b)
  fix p q r s p' q' r' s' assume a: "a = Ipv4 p q r s" "b = Ipv4 p' q' r' s'"
  have "x * 256 + unat y = x' * 256 + unat y' \<longleftrightarrow> x = x' \<and> y = y'" for x x' and y y' :: u8
    using pair_eq [OF unat_u8_less unat_u8_less] by (simp add: word_unat_eq_iff)
  then show ?thesis by (simp only: a v4_num.simps ipv4.inject unsigned_word_eqI word_unat_eq_iff conj_assoc)
qed

instantiation ipv4 :: linorder
begin

definition less_eq_ipv4 :: "ipv4 \<Rightarrow> ipv4 \<Rightarrow> bool" where
  "less_eq_ipv4 a b \<longleftrightarrow> v4_num a \<le> v4_num b"

definition less_ipv4 :: "ipv4 \<Rightarrow> ipv4 \<Rightarrow> bool" where
  "less_ipv4 a b \<longleftrightarrow> v4_num a < v4_num b"

instance
  by standard (auto simp: less_eq_ipv4_def less_ipv4_def v4_num_inject)

end

definition internal_ranges :: "(ipv4 \<times> ipv4) list" where
  "internal_ranges =
     [(Ipv4 10 0 0 0, Ipv4 10 255 255 255), (Ipv4 172 16 0 0, Ipv4 172 31 255 255),
      (Ipv4 192 168 0 0, Ipv4 192 168 255 255), (Ipv4 127 0 0 0, Ipv4 127 255 255 255),
      (Ipv4 169 254 0 0, Ipv4 169 254 255 255), (Ipv4 0 0 0 0, Ipv4 0 255 255 255),
      (Ipv4 100 64 0 0, Ipv4 100 127 255 255), (Ipv4 192 0 0 0, Ipv4 192 0 0 255),
      (Ipv4 224 0 0 0, Ipv4 239 255 255 255), (Ipv4 255 255 255 255, Ipv4 255 255 255 255)]"

text \<open>An aligned block is an interval of numbers, and the refused blocks are these intervals of addresses.\<close>

lemma in_cidr_interval: "2 ^ (w - k) dvd p \<Longrightarrow> in_cidr w x (p, k) \<longleftrightarrow> p \<le> x \<and> x \<le> p + (2 ^ (w - k) - 1)"
proof -
  define m :: nat where "m = 2 ^ (w - k)"
  have m: "0 < m" by (simp add: m_def)
  assume "2 ^ (w - k) dvd p"
  then obtain q where p: "p = q * m" unfolding m_def by (metis dvd_def mult.commute)
  have "x div m = q \<longleftrightarrow> q * m \<le> x \<and> x < q * m + m"
    using m by (metis add.commute div_nat_eqI dividend_less_div_times div_times_less_eq_dividend mult.commute mult_Suc)
  with m show ?thesis by (auto simp: in_cidr_def p m_def [symmetric])
qed

lemma ranges_of_blocks:
  "map (\<lambda>(lo, hi). (v4_num lo, v4_num hi)) internal_ranges = map (\<lambda>(p, k). (p, p + (2 ^ (32 - k) - 1))) internal_v4"
  by (simp add: internal_ranges_def internal_v4_def)

lemma blocks_aligned: "list_all (\<lambda>(p, k). 2 ^ (32 - k) dvd p) internal_v4"
  by (simp add: internal_v4_def)

lemma ip_is_public_ranges: "ip_is_public (V4 a) \<longleftrightarrow> list_all (\<lambda>(lo, hi). a \<notin> {lo..hi}) internal_ranges"
proof -
  let ?in = "\<lambda>(lo, hi). lo \<le> v4_num a \<and> v4_num a \<le> hi"
  have "in_cidr 32 (v4_num a) x \<longleftrightarrow> ?in (case x of (p, k) \<Rightarrow> (p, p + (2 ^ (32 - k) - 1)))" if "x \<in> set internal_v4" for x
    using blocks_aligned that by (cases x) (auto simp: list_all_iff in_cidr_interval)
  then have "list_ex (in_cidr 32 (v4_num a)) internal_v4 \<longleftrightarrow>
      list_ex ?in (map (\<lambda>(p, k). (p, p + (2 ^ (32 - k) - 1))) internal_v4)"
    by (simp add: list_ex_iff)
  also have "\<dots> \<longleftrightarrow> list_ex (\<lambda>(lo, hi). a \<in> {lo..hi}) internal_ranges"
    unfolding ranges_of_blocks [symmetric] by (simp add: list_ex_iff less_eq_ipv4_def case_prod_beta)
  finally show ?thesis by (simp add: ip_is_public_v4 list_ex_iff list_all_iff case_prod_beta del: ip_is_public.simps)
qed

end
