(* ===== verification/Acquire_Props.thy ===== *)
theory Acquire_Props
  imports Guard_Spec Discovery
begin

text \<open>
  The properties of fetching (src/acquire.rs, src/gateways.rs, src/peers.rs): the address classification is the
  list of internal ranges, the guard on untrusted URLs, the capped download, the loop over candidates, and the
  URLs and peers that come from the chain.
\<close>

section \<open>The address guard\<close>

text \<open>
  C26: an IP literal passes the guard exactly when it lies in none of the internal ranges: for IPv4 the ten
  CIDR blocks of \<open>internal_v4\<close>, for IPv6 the five of \<open>internal_v6\<close>, and an IPv6 address that stands for an
  IPv4 address (mapped, NAT64, 6to4) also needs that address to be public.
\<close>

theorem ip_guard_is_cidr_list:
  "(ip_is_public (V4 a) \<longleftrightarrow> \<not> list_ex (in_cidr 32 (v4_num a)) internal_v4) \<and>
   (ip_is_public (V6 b) \<longleftrightarrow>
      \<not> list_ex (in_cidr 128 (v6_num b)) internal_v6 \<and>
      (case embedded_v4 b of Some n \<Rightarrow> \<not> list_ex (in_cidr 32 n) internal_v4 | None \<Rightarrow> True))"
  using ip_is_public_v4 ip_is_public_v6 by blast

lemma dec_str_ends: "is_digit (hd (dec_str n)) \<and> is_digit (last (dec_str n)) \<and> dec_str n \<noteq> []"
  using dec_str_digits [of n] by (auto simp: list_all_iff)

lemma join_ends:
  "xs \<noteq> [] \<Longrightarrow> list_all (\<lambda>x. x \<noteq> []) xs \<Longrightarrow>
    join_str sep xs \<noteq> [] \<and> hd (join_str sep xs) = hd (hd xs) \<and> last (join_str sep xs) = last (last xs)"
  by (induction sep xs rule: join_str.induct) auto

lemma trim_digits:
  assumes "s \<noteq> []" and "is_digit (hd s)" and "is_digit (last s)"
  shows "trim_end_char (CHR '']'') (trim_start_char (CHR ''['') s) = s"
proof -
  have b: "\<not> is_digit (CHR ''['')" "\<not> is_digit (CHR '']'')" by (simp_all add: is_digit_def)
  have "trim_start_char (CHR ''['') s = s"
    using assms(1,2) b by (cases s) (auto simp: trim_start_char_def)
  moreover have "trim_end_char (CHR '']'') s = s"
    using assms(1,3) b by (cases s rule: rev_cases) (auto simp: trim_end_char_def)
  ultimately show ?thesis by simp
qed

lemma v4_str_bare: "trim_end_char (CHR '']'') (trim_start_char (CHR ''['') (v4_str a)) = v4_str a"
proof -
  let ?xs = "map (\<lambda>x. dec_str (unat x)) (octets a)"
  have xs: "?xs \<noteq> []" "list_all (\<lambda>x. x \<noteq> []) ?xs" by (cases a; simp add: dec_str_ends)+
  have d: "is_digit (hd (hd ?xs))" "is_digit (last (last ?xs))" by (cases a; simp add: dec_str_ends)+
  moreover have "hd (v4_str a) = hd (hd ?xs)" "last (v4_str a) = last (last ?xs)" "v4_str a \<noteq> []"
    using join_ends [OF xs, of "''.''"] by (simp_all add: v4_str_def)
  ultimately show ?thesis by (intro trim_digits) simp_all
qed

text \<open>So no URL whose host is the printed form of an internal IPv4 address passes the guard.\<close>

lemma internal_v4_refused:
  assumes "host_is_public up url" and "up url = Some u" and "host_str u = Some (v4_str a)"
  shows "\<not> list_ex (in_cidr 32 (v4_num a)) internal_v4"
proof -
  have "ip_is_public (V4 a)"
    using assms by (simp add: host_is_public_def v4_str_bare parse_ip_v4_str split: if_splits)
  then show ?thesis using ip_is_public_v4 by blast
qed

definition demo_up :: "string \<Rightarrow> url_parts option" where
  "demo_up url = (case strip_prefix ''http://'' url of
     Some r \<Rightarrow> Some \<lparr>scheme = ''http'', host_str = Some (takeWhile (\<lambda>c. c \<noteq> CHR ''/'') r)\<rparr>
   | None \<Rightarrow> None)"

lemma demo_up_public: "host_is_public demo_up ''http://8.8.8.8''"
  by code_simp

section \<open>Downloads\<close>

text \<open>
  A download succeeds exactly when the server answers with success, announces no length over the cap, sends
  the whole body without an error, and the body fits the cap; and then it returns that body, byte for byte.
\<close>

theorem download_exact:
  "fetch_capped m resp = Inr b \<longleftrightarrow>
     (\<exists>r. resp = Some r \<and> is_success (status r) \<and> sent_body (body_chunks r) = Some b \<and>
        length b \<le> unat m \<and> (\<forall>n. content_length r = Some n \<longrightarrow> n \<le> m))"
  by (rule fetch_capped_Inr_iff)

theorem download_exact_witness:
  "fetch_capped 3 (Some \<lparr>status = 200, content_length = Some 2, body_chunks = [Chunk [1], Chunk [2]]\<rparr>) = Inr [1, 2]"
  unfolding download_exact by (simp add: is_success_def)

text \<open>
  An endless body cannot fill the memory: the loop stops at the chunk that takes it past the cap, with the
  cap's error, whatever the server would send after it.
\<close>

lemma oversized_body_aborts:
  assumes "sent_body cs = Some t" and "unat m < length t"
  shows "read_body m (cs @ rest) [] = Inl (BodyOver m)"
  by (rule read_body_abort) (use assms in simp_all)

lemma oversized_body_aborts_witness:
  "read_body 2 ([Chunk [1, 2], Chunk [3]] @ [ChunkErr]) [] = Inl (BodyOver 2)"
  by (rule oversized_body_aborts [of _ "[1, 2, 3]"]) simp_all

text \<open>
  C38: \<open>acquire\<close> returns bytes exactly when some candidate answers within the cap with bytes that hash to the
  wanted address, and then those of the first such candidate: bad candidates before it are passed over, and
  bytes that do not verify are never returned.
\<close>

theorem acquire_first_verified:
  "acquire c net hash urls m = Inr b \<longleftrightarrow>
     (\<exists>j < length urls. verifies c (norm hash) m (net j (urls ! j)) b \<and>
        (\<forall>i < j. \<forall>b'. \<not> verifies c (norm hash) m (net i (urls ! i)) b'))"
  by (rule acquire_Inr_iff)

text \<open>The first candidate lies, the second one serves the empty blob.\<close>

theorem acquire_first_verified_witness:
  "acquire demo_crypto
     (\<lambda>k u. Some \<lparr>status = 200, content_length = None, body_chunks = (if k = 0 then [Chunk [7]] else [])\<rparr>)
     (sha256_hex demo_crypto []) [''http://a'', ''http://b''] 10 = Inr []"
proof -
  have "last (sha256_hex demo_crypto [7]) \<noteq> last (sha256_hex demo_crypto [])"
    by (simp add: sha256_hex_def demo_crypto_def hex_digit_def)
  then have n: "norm (sha256_hex demo_crypto []) = sha256_hex demo_crypto []" "sha256_hex demo_crypto [7] \<noteq> sha256_hex demo_crypto []"
    by (auto intro!: norm_lower_hex64 sha256_hex_lower_hex64 demo_crypto_ok)
  show ?thesis
    unfolding acquire_first_verified n(1)
    using n(2) by (intro exI [of _ 1]) (auto simp: verifies_def fetch_capped_Inr_iff is_success_def)
qed

section \<open>What the chain's registries contribute\<close>

text \<open>
  Every URL the node tries because of a registered gateway has a public host and names the wanted content:
  the bare hash occurs in it.
\<close>

lemma gateway_urls_guarded:
  assumes "u \<in> set (expand up (gateways_discover decode answer base) hash)"
  shows "host_is_public up u \<and> contains_str u (trim_start_str ''0x'' hash)"
  using assms expand_public expand_names_hash by blast

definition demo_template :: string where
  "demo_template = ''http://8.8.8.8/0x{hash}''"

definition demo_answer :: "string \<Rightarrow> response option" where
  "demo_answer u = Some \<lparr>status = 200, content_length = None, body_chunks = []\<rparr>"

lemma gateway_urls_guarded_witness:
  "contains_str ''http://8.8.8.8/0xab'' (trim_start_str ''0x'' ''0xab'')"
proof -
  have "''http://8.8.8.8/0xab'' \<in> set (expand demo_up
      (gateways_discover (\<lambda>_. Some [\<lparr>gw_url = demo_template\<rparr>]) demo_answer ''http://idx'') ''0xab'')"
    by code_simp
  then show ?thesis using gateway_urls_guarded by blast
qed

text \<open>
  The addresses dialled from the registry are those of other, named peers, and each carries a peer id, so
  libp2p checks whom it reaches.
\<close>

lemma dialled_peers:
  assumes "a \<in> set (peers_discover parse decode answer base self)"
  shows "base \<noteq> [] \<and> (\<exists>r ps p ma. answer (trim_end_char (CHR ''/'') base @ ''/registry/peers'') = Some r \<and>
    is_success (status r) \<and> json_body decode r = Some ps \<and> p \<in> set ps \<and> peer_id p \<noteq> self \<and> peer_id p \<noteq> [] \<and>
    ma \<in> set (multiaddrs p) \<and> parse (dial_addr (peer_id p) ma) = Some a \<and> contains_str (dial_addr (peer_id p) ma) ''/p2p/'')"
proof -
  have base: "base \<noteq> []" using assms by (auto simp: peers_discover_def)
  with assms obtain r where r: "answer (trim_end_char (CHR ''/'') base @ ''/registry/peers'') = Some r"
    "is_success (status r)" "a \<in> set (dial_addrs parse self (json_or_default decode r))"
    by (cases "answer (trim_end_char (CHR ''/'') base @ ''/registry/peers'')")
       (auto simp: peers_discover_def Let_def split: if_splits)
  then obtain ps where ps: "json_body decode r = Some ps" "a \<in> set (dial_addrs parse self ps)"
    by (auto simp: json_or_default_def split: option.splits)
  then show ?thesis using base r dial_addr_p2p unfolding dial_addrs_origin by blast
qed

lemma dialled_peers_witness:
  "''/ip4/1.2.3.4/p2p/A'' \<in> set (peers_discover Some
     (\<lambda>_. Some [\<lparr>peer_id = ''A'', multiaddrs = [''/ip4/1.2.3.4'']\<rparr>]) demo_answer ''http://idx'' ''B'') \<and>
   is_success (status (the (demo_answer ''http://idx/registry/peers'')))"
proof -
  have a: "''/ip4/1.2.3.4/p2p/A'' \<in> set (peers_discover Some
     (\<lambda>_. Some [\<lparr>peer_id = ''A'', multiaddrs = [''/ip4/1.2.3.4'']\<rparr>]) demo_answer ''http://idx'' ''B'')"
    by code_simp
  have "trim_end_char (CHR ''/'') ''http://idx'' @ ''/registry/peers'' = ''http://idx/registry/peers''"
    by code_simp
  with dialled_peers [OF a] a show ?thesis by (metis option.sel)
qed

end
