(* ===== verification/Gateway_Conns.thy ===== *)
theory Gateway_Conns
  imports Gateway_Spec
begin

text \<open>
  The gateway under load: requests that read content run side by side, each holding one permit of the
  semaphore between \<open>get_admit\<close> and the end of \<open>get_serve\<close>, while takedowns, allows and ingests change the
  store between the two. A step relation over the gateway state and the list of reads in flight.
\<close>

type_synonym reads = "(header_map \<times> string) list"

datatype conn_event =
    Refused reply | Admitted string | Replied string reply | Changed gw_event

inductive conn_step :: "crypto \<Rightarrow> gw_state \<times> reads \<Rightarrow> conn_event \<Rightarrow> gw_state \<times> reads \<Rightarrow> bool"
  for c :: crypto where
  refuse: "get_admit st hash = Inl r \<Longrightarrow> conn_step c (st, rd) (Refused r) (st, rd)"
| admit: "get_admit st hash = Inr h \<Longrightarrow>
    conn_step c (st, rd) (Admitted h) (st\<lparr>conns := conns st - 1\<rparr>, (hs, h) # rd)"
| finish: "i < length rd \<Longrightarrow> rd ! i = (hs, h) \<Longrightarrow> get_serve c ok st hs h = Some r \<Longrightarrow>
    conn_step c (st, rd) (Replied h r) (st\<lparr>conns := conns st + 1\<rparr>, take i rd @ drop (Suc i) rd)"
| change: "gw_legal e \<Longrightarrow> conn_step c (st, rd) (Changed e) (gw_step c st e, rd)"

inductive conn_run :: "crypto \<Rightarrow> gw_state \<times> reads \<Rightarrow> conn_event list \<Rightarrow> gw_state \<times> reads \<Rightarrow> bool"
  for c :: crypto where
  stop: "conn_run c x [] x"
| more: "conn_step c x e y \<Longrightarrow> conn_run c y es z \<Longrightarrow> conn_run c x (e # es) z"

inductive_cases conn_step_RefusedE: "conn_step c x (Refused r) y"
inductive_cases conn_step_RepliedE: "conn_step c x (Replied h r) y"
inductive_cases conn_run_ConsE: "conn_run c x (e # es) z"
inductive_simps conn_run_Nil: "conn_run c x [] z"
inductive_simps conn_run_Cons: "conn_run c x (e # es) z"

definition conn_inv :: "nat \<Rightarrow> gw_state \<times> reads \<Rightarrow> bool" where
  "conn_inv permits x \<longleftrightarrow>
     conns (fst x) + length (snd x) = permits \<and> store_ok (gw_store (fst x)) \<and>
     (\<forall>r \<in> set (snd x). lower_hex64 (snd r))"

lemma gw_step_conns [simp]: "conns (gw_step c st e) = conns st"
  by (cases "(c, st, e)" rule: gw_step.cases; cases "case e of Serve _ rq \<Rightarrow> rq | _ \<Rightarrow> GetPins")
     (auto simp: deny_content_store allow_content_store)

lemma length_take_drop_Suc: "i < length xs \<Longrightarrow> length (take i xs @ drop (Suc i) xs) + 1 = length xs"
  by simp

lemma set_take_drop_Suc: "set (take i xs @ drop (Suc i) xs) \<subseteq> set xs"
  using set_take_subset [of i xs] set_drop_subset [of "Suc i" xs] by simp

lemma conn_step_inv: "conn_step c x e y \<Longrightarrow> conn_inv permits x \<Longrightarrow> conn_inv permits y"
proof (induction rule: conn_step.induct)
  case (admit st hash h rd hs)
  then have "lower_hex64 h" "conns st \<noteq> 0" by (auto simp: get_admit_Inr dest: gw_norm_Some)
  with admit show ?case by (auto simp: conn_inv_def)
next
  case (finish i rd hs h ok st r)
  with set_take_drop_Suc [of i rd] length_take_drop_Suc [of i rd] show ?case
    unfolding conn_inv_def by (auto simp del: set_append)
next
  case (change e st rd)
  then show ?case by (simp add: conn_inv_def gw_step_store)
qed simp

lemma conn_run_inv: "conn_run c x es y \<Longrightarrow> conn_inv permits x \<Longrightarrow> conn_inv permits y"
  by (induction rule: conn_run.induct) (auto intro: conn_step_inv)

text \<open>A read in flight can always finish, and then gives its permit back.\<close>

lemma conn_can_finish:
  assumes "conn_inv permits (st, rd)" and "i < length rd"
  shows "\<exists>h r. conn_step c (st, rd) (Replied h r) (st\<lparr>conns := conns st + 1\<rparr>, take i rd @ drop (Suc i) rd)"
proof -
  obtain hs h where i: "rd ! i = (hs, h)" by fastforce
  with assms have "lower_hex64 h" using nth_mem [of i rd] by (fastforce simp: conn_inv_def)
  then have "get_serve c True st hs h = Some (serve_result c True (gw_store st) hs h)"
    by (rule get_serve_Some)
  with assms(2) i show ?thesis by (blast intro: conn_step.finish)
qed

text \<open>
  A takedown that lands between admission and the read still wins: the reply carries no content.
\<close>

lemma replied_not_denied:
  assumes "conn_step c (st, rd) (Replied h r) y" and "conn_inv permits (st, rd)" and "h \<in> denied (gw_store st)"
  shows "reply_status r = 404"
proof -
  from assms(1) obtain i hs ok where i: "i < length rd" "rd ! i = (hs, h)" "get_serve c ok st hs h = Some r"
    by (auto elim!: conn_step_RepliedE)
  then have h: "lower_hex64 h"
    using assms(2) nth_mem [of i rd] by (fastforce simp: conn_inv_def)
  then have "norm h \<notin> dom (index (gw_store st))"
    using assms(2,3) store_run.banned_not_held by (simp add: conn_inv_def norm_lower_hex64)
  then have "store_get ok (gw_store st) h = None"
    using store_get_held by (metis not_None_eq)
  with h i(3) show ?thesis by (auto simp: get_serve_Some serve_result_def text_reply_def)
qed

text \<open>A request is answered 503 only when every permit is held by a read in flight.\<close>

lemma busy_means_full:
  assumes "conn_step c (st, rd) (Refused r) y" and "conn_inv permits (st, rd)" and "reply_status r = 503"
  shows "length rd = permits"
  using assms(1)
  by (cases rule: conn_step_RefusedE)
     (use assms(2,3) in \<open>auto simp: conn_inv_def get_admit_def text_reply_def split: option.splits if_splits\<close>)

end
