(* ===== verification/Gateway_Props.thy ===== *)
theory Gateway_Props
  imports Gateway_Conns Store_Props
begin

text \<open>
  The properties of the HTTP gateway (src/gateway.rs): the admin token, freedom from panics, what content
  replies carry, ranges, HEAD against GET, takedowns over HTTP, the listing, and the bound on concurrent reads.
\<close>

section \<open>A concrete gateway\<close>

definition demo_gw :: gw_state where
  "demo_gw =
     \<lparr>gw_store = put_blob empty_store demo_digest [7], gw_max_bytes = 1000, admin_token = Some ''s'', conns = 1,
      gw_peers = Map.empty\<rparr>"

definition demo_env :: gw_env where
  "demo_env = \<lparr>env_io = demo_io, env_read = True\<rparr>"

definition demo_auth :: header_map where
  "demo_auth = [(''authorization'', ''Bearer s'')]"

lemma demo_digest_hex [simp]: "lower_hex64 demo_digest"
  unfolding demo_digest_def by (rule sha256_hex_lower_hex64 [OF demo_crypto_ok])

lemma demo_digest_norm [simp]: "norm demo_digest = demo_digest" "is_valid_hash demo_digest"
  "gw_norm demo_digest = Some demo_digest"
  by (simp_all add: norm_lower_hex64 lower_hex64_valid gw_norm_eq)

lemma demo_auth_ok: "admin_ok demo_gw demo_auth" "\<not> admin_ok demo_gw []"
  unfolding admin_ok_iff by (simp_all add: demo_gw_def) code_simp+

lemma demo_gw_store_ok [simp]: "store_ok (gw_store demo_gw)"
  unfolding demo_gw_def gw_state.simps by (rule store_ok_put_blob) (simp, simp, simp add: empty_store_def)

lemma demo_gw_read [simp]: "store_get True (gw_store demo_gw) demo_digest = Some [7]"
  by (simp add: demo_gw_def store_get_def put_blob_def fs_read_def)

lemma demo_gw_get:
  "get_content demo_crypto True demo_gw [] demo_digest = Some (full_result demo_digest [7])"
proof -
  have "conns demo_gw = 1" "denied (gw_store demo_gw) = {}"
    by (simp_all add: demo_gw_def put_blob_def empty_store_def)
  moreover have "sha256_hex demo_crypto [7] = demo_digest" by (simp add: demo_digest_def)
  ultimately show ?thesis
    by (simp add: get_content_eq serve_result_def range_of_def header_get_def)
qed

section \<open>The admin token\<close>

text \<open>
  The branch-free comparison of the admin check accepts exactly equal byte strings: the OR of all XORs is
  zero just when no byte differs.
\<close>

lemma ct_eq_is_equality: "ct_eq a b \<longleftrightarrow> a = b"
  by (rule ct_eq_iff)

text \<open>
  C18: nothing changes without the token. A request that presents no token, a wrong one, or any token when none
  is configured leaves the whole state as it is; if it is one of the three takedown requests it is answered 403.
\<close>

theorem no_change_without_token:
  assumes "\<And>hs. admin_headers rq = Some hs \<Longrightarrow> admin_token st = None \<or> presented hs \<noteq> admin_token st"
  shows "snd (gw_handle c e st rq) = st \<and>
    (admin_headers rq \<noteq> None \<longrightarrow> fst (gw_handle c e st rq) = Some (text_reply 403 ''admin token required''))"
proof -
  have "\<not> admin_ok st hs" if "admin_headers rq = Some hs" for hs
    using assms [OF that] by (auto simp: admin_ok_iff)
  then show ?thesis by (auto intro: gw_handle_no_change gw_handle_forbidden)
qed

theorem no_change_without_token_witness:
  "snd (gw_handle demo_crypto demo_env demo_gw (DeleteContent [(''authorization'', ''Bearer t'')] demo_digest)) = demo_gw"
proof (rule no_change_without_token [THEN conjunct1])
  fix hs assume "admin_headers (DeleteContent [(''authorization'', ''Bearer t'')] demo_digest) = Some hs"
  then have "presented hs = presented [(''authorization'', ''Bearer t'')]" by simp
  also have "\<dots> = Some ''t''" by code_simp
  finally show "admin_token demo_gw = None \<or> presented hs \<noteq> admin_token demo_gw" by (simp add: demo_gw_def)
qed

section \<open>Content replies\<close>

text \<open>
  No request makes a handler panic, whatever the state of the store, the request and its headers: every
  slice is in range and every header value parses.
\<close>

theorem gateway_never_panics: "fst (gw_handle c e st rq) \<noteq> None"
  by (rule gw_handle_never_panics)

text \<open>
  C8: a reply that carries content carries the verified blob or a slice of it: the hash is valid and not denied,
  the blob on the disk hashes to the requested address, and the body is the whole blob (200) or one of its byte
  ranges (206). A corrupted store cannot make the gateway serve anything else.
\<close>

theorem served_content_verified:
  assumes "get_content c ok st headers hash = Some r" and "reply_body r = Content x"
  shows "is_valid_hash (norm hash) \<and> norm hash \<notin> denied (gw_store st) \<and>
    (\<exists>b. files (gw_store st) (blob_path (norm hash)) = Some b \<and> sha256_hex c b = norm hash \<and>
      (reply_status r = 200 \<and> x = b \<or>
       reply_status r = 206 \<and> (\<exists>i j. i \<le> j \<and> j < length b \<and> x = take (j + 1 - i) (drop i b))))"
  using assms by (rule content_reply_verified)

theorem served_content_verified_witness:
  "files (gw_store demo_gw) (blob_path demo_digest) = Some [7] \<and> sha256_hex demo_crypto [7] = demo_digest"
  using served_content_verified [OF demo_gw_get, of "[7]"]
  by (auto simp: full_result_def)

text \<open>
  C20: ranges follow the HTTP specification: for a held, verified blob of \<open>n\<close> bytes and a parsed range, the reply
  is 416 with the length when the range is not satisfiable, and otherwise 206 with exactly the selected bytes,
  their count as content length and their position as content range. \<open>range_spec\<close> is the arithmetic on natural
  numbers; the code computes with wrapping words.
\<close>

theorem range_replies:
  assumes "gw_norm hash = Some h" and "h \<notin> denied (gw_store st)" and "conns st \<noteq> 0"
    and "store_get ok (gw_store st) h = Some b" and "sha256_hex c b = h" and "length b < 2 ^ 64"
    and "range_of headers = Some rng"
  shows "get_content c ok st headers hash = Some
    (case range_spec (length b) rng of
       None \<Rightarrow> \<lparr>reply_status = 416, reply_headers = [(''content-range'', ''bytes */'' @ dec_str (length b))],
                reply_body = NoBody\<rparr>
     | Some (s, e) \<Rightarrow>
         \<lparr>reply_status = 206,
          reply_headers = content_header_list h (e + 1 - s) @
            [(''content-range'', ''bytes '' @ dec_str s @ ''-'' @ dec_str e @ ''/'' @ dec_str (length b))],
          reply_body = Content (take (e + 1 - s) (drop s b))\<rparr>)"
  using assms by (simp add: get_content_eq serve_result_def range_result_def unat_len64 Let_def)

theorem range_replies_witness:
  "\<exists>r. get_content demo_crypto True demo_gw [(''range'', ''bytes=0-9'')] demo_digest = Some r \<and>
     reply_status r = 206 \<and> reply_body r = Content [7]"
proof -
  have r: "range_of [(''range'', ''bytes=0-9'')] = Some (Some 0, Some 9)"
    by (simp add: range_of_def header_get_def to_str_def parse_range_def strip_prefix_def parse_u64_def
        digits_val_def digit_val_def is_digit_def)
  have "conns demo_gw \<noteq> 0" "demo_digest \<notin> denied (gw_store demo_gw)"
    by (simp_all add: demo_gw_def put_blob_def empty_store_def)
  moreover have "sha256_hex demo_crypto [7] = demo_digest" by (simp add: demo_digest_def)
  ultimately show ?thesis
    using range_replies [of demo_digest demo_digest demo_gw True "[7]" demo_crypto, OF _ _ _ _ _ _ r] by simp
qed



section \<open>Takedowns over HTTP\<close>

text \<open>
  a takedown request that is answered 200 holds. Along every later sequence of HTTP requests (any headers)
  and ingests, in which no allow request for this hash presents the configured token, GET and HEAD of the hash
  are answered 410 Gone.
\<close>

theorem http_takedown_sticks:
  assumes "store_ok (gw_store st)" and "order_ok (env_io e)"
    and "gw_handle c e st (DeleteContent headers hash) = (Some r, st')" and "reply_status r = 200"
    and "list_all gw_legal es" and "list_all (\<lambda>ev. \<not> authorised_allow (admin_token st) ev (norm hash)) es"
  shows "get_content c ok (foldl (gw_step c) st' es) hs hash = Some (text_reply 410 ''content removed by the operator'') \<and>
    head_content (foldl (gw_step c) st' es) hash = Some (text_reply 410 ''content removed by the operator'')"
proof -
  let ?tok = "admin_token st" and ?t = "foldl (gw_step c) st' es"
  have d: "deny_content (env_io e) st headers hash = (r, st')"
    using assms(3) by (cases "deny_content (env_io e) st headers hash") simp
  from d assms(4) obtain h p s where h: "gw_norm hash = Some h" "store_deny (env_io e) (gw_store st) h = (Inr p, s)"
    "st' = st\<lparr>gw_store := s\<rparr>"
    by (rule deny_content_200)
  note n = gw_norm_Some [OF h(1)]
  have inv: "gw_inv ?tok st'"
    using assms(1,2) h(2,3) store_ok_deny [of "gw_store st" "env_io e" h] by (simp add: gw_inv_def)
  have "h \<in> denied (gw_store st')"
    using h(2) n unfolding h(3)
    by (cases rule: store_deny_cases) (auto dest: arg_cong [of _ _ "\<lambda>x. denied (snd x)"])
  then have "h \<in> denied (gw_store ?t)"
    using gw_run.run_banned [OF inv assms(5)] assms(6) n by simp
  with h(1) show ?thesis by (simp add: get_content_eq head_content_eq)
qed

theorem http_takedown_sticks_witness:
  "\<exists>r st'. gw_handle demo_crypto demo_env demo_gw (DeleteContent demo_auth demo_digest) = (Some r, st') \<and>
     get_content demo_crypto True (foldl (gw_step demo_crypto) st' [Ingest demo_io demo_digest [7]]) [] demo_digest
       = Some (text_reply 410 ''content removed by the operator'')"
proof -
  let ?h = "gw_handle demo_crypto demo_env demo_gw (DeleteContent demo_auth demo_digest)"
  have w: "\<exists>d. write_denylist demo_io {demo_digest} f = (Inr (), d)" for f
    by (simp add: write_denylist_def demo_io_def Let_def fs_write_def fs_rename_written)
  have "denied (gw_store demo_gw) = {}" by (simp add: demo_gw_def put_blob_def empty_store_def)
  then have "\<exists>p s. store_deny demo_io (gw_store demo_gw) demo_digest = (Inr p, s)"
    using w [of "files (gw_store demo_gw)"] by (auto simp: store_deny_def Let_def split: prod.splits)
  then obtain r st' where r: "?h = (Some r, st')" "reply_status r = 200"
    using demo_auth_ok(1) by (auto simp: deny_content_def demo_env_def json_reply_def)
  have "order_ok (env_io demo_env)" by (simp add: demo_env_def)
  from http_takedown_sticks [OF demo_gw_store_ok this r, of "[Ingest demo_io demo_digest [7]]"] r
  show ?thesis by auto
qed

section \<open>Monitoring\<close>

text \<open>
  \<open>GET /pins\<close> lists exactly the index, each hash once with its length, in ascending order whatever the order
  of the hash map, and its count is the number of entries.
\<close>

theorem pins_lists_index:
  assumes "hash_iter ord" and "store_ok (gw_store st)"
  shows "\<exists>l. pins ord st = json_reply (JObj
      [(''ok'', JBool True), (''count'', JNum (length l)), (''pins'', JArr (map pin_entry l))]) \<and>
    sorted l \<and> distinct (map fst l) \<and> set l = {(''0x'' @ h, n) | h n. index (gw_store st) h = Some n}"
proof -
  have fin: "finite (dom (index (gw_store st)))" using assms(2) by (simp add: store_ok_defs)
  show ?thesis by (rule pins_eq [OF assms(1) fin]) (intro exI conjI, simp_all only:)
qed

theorem pins_lists_index_witness:
  "\<exists>l. pins sorted_list_of_set demo_gw = json_reply (JObj
      [(''ok'', JBool True), (''count'', JNum (length l)), (''pins'', JArr (map pin_entry l))]) \<and>
    set l = {(''0x'' @ demo_digest, 1)}"
proof -
  have "hash_iter sorted_list_of_set" by (simp add: hash_iter_def)
  from pins_lists_index [OF this demo_gw_store_ok] obtain l where l:
    "pins sorted_list_of_set demo_gw = json_reply (JObj
      [(''ok'', JBool True), (''count'', JNum (length l)), (''pins'', JArr (map pin_entry l))])"
    "set l = {(''0x'' @ h, n) | h n. index (gw_store demo_gw) h = Some n}" by blast
  moreover have "index (gw_store demo_gw) = [demo_digest \<mapsto> 1]"
    by (simp add: demo_gw_def put_blob_def empty_store_def len64_def)
  ultimately show ?thesis by (intro exI [of _ l]) auto
qed

section \<open>Concurrent reads\<close>

text \<open>
  Reads are bounded and takedowns win races. From a gateway without reads in flight, along every
  interleaving of admissions, reads, takedowns, allows and ingests: at most as many reads are in flight as the
  semaphore has permits, a request is refused as busy only when all permits are taken, every read in flight can
  finish and give its permit back, and a hash that was denied after its read was admitted is answered 404.
\<close>

theorem reads_bounded:
  assumes "store_ok (gw_store st)" and "conn_run c (st, []) es (st', rd)"
  shows "length rd \<le> conns st \<and>
    (\<forall>r y. conn_step c (st', rd) (Refused r) y \<longrightarrow> reply_status r = 503 \<longrightarrow> length rd = conns st) \<and>
    (\<forall>i < length rd. \<exists>h r. conn_step c (st', rd) (Replied h r)
       (st'\<lparr>conns := conns st' + 1\<rparr>, take i rd @ drop (Suc i) rd)) \<and>
    (\<forall>h r y. conn_step c (st', rd) (Replied h r) y \<longrightarrow> h \<in> denied (gw_store st') \<longrightarrow> reply_status r = 404)"
proof -
  have "conn_inv (conns st) (st, [])" using assms(1) by (simp add: conn_inv_def)
  with assms(2) have inv: "conn_inv (conns st) (st', rd)" by (rule conn_run_inv)
  then have "length rd \<le> conns st" by (simp add: conn_inv_def)
  moreover have "length rd = conns st" if "conn_step c (st', rd) (Refused r) y" "reply_status r = 503" for r y
    using that(1) inv that(2) by (rule busy_means_full)
  moreover have "\<exists>h r. conn_step c (st', rd) (Replied h r)
      (st'\<lparr>conns := conns st' + 1\<rparr>, take i rd @ drop (Suc i) rd)" if "i < length rd" for i
    using inv that by (rule conn_can_finish)
  moreover have "reply_status r = 404"
    if "conn_step c (st', rd) (Replied h r) y" "h \<in> denied (gw_store st')" for h r y
    using that(1) inv that(2) by (rule replied_not_denied)
  ultimately show ?thesis by blast
qed

theorem reads_bounded_witness:
  "\<exists>st'. conn_run demo_crypto (demo_gw, []) [Admitted demo_digest] (st', [([], demo_digest)]) \<and>
     length [([] :: header_map, demo_digest)] \<le> conns demo_gw"
proof -
  have "get_admit demo_gw demo_digest = Inr demo_digest"
    by (simp add: get_admit_Inr demo_gw_def put_blob_def empty_store_def)
  then have run: "conn_run demo_crypto (demo_gw, []) [Admitted demo_digest]
      (demo_gw\<lparr>conns := conns demo_gw - 1\<rparr>, [([], demo_digest)])"
    by (intro conn_run.more [OF _ conn_run.stop] conn_step.admit)
  with reads_bounded [OF demo_gw_store_ok run] show ?thesis by blast
qed

end
