(* ===== verification/P2p_Codec.thy ===== *)
theory P2p_Codec
  imports P2p
begin

text \<open>
  What the cbor codec of src/p2p.rs does to a message. cbor4ii is not part of the repository; what is used of it is
  what it documents: it writes the serde data model as RFC 8949 says. A \<open>Vec<u8>\<close> without \<open>serde_bytes\<close> is a sequence
  in that model, so it becomes an array of integers: one byte for each element below 24, two bytes for every other.
  An encoding is never a proper prefix of another one.
\<close>

section \<open>Sizes\<close>

text \<open>The head of an item with argument \<open>n\<close>; the array of a \<open>Vec<u8>\<close>; the map of one entry that is \<open>Get\<close>.\<close>

definition cbor_head_size :: "nat \<Rightarrow> nat" where
  "cbor_head_size n = (if n < 24 then 1 else if n < 2 ^ 8 then 2 else if n < 2 ^ 16 then 3 else if n < 2 ^ 32 then 5 else 9)"

definition cbor_vec_size :: "bytes \<Rightarrow> nat" where
  "cbor_vec_size b = cbor_head_size (length b) + sum_list (map (\<lambda>x. cbor_head_size (unat x)) b)"

definition get_size :: "bytes \<Rightarrow> nat" where
  "get_size b = 5 + cbor_vec_size b"

text \<open>What is written can be read again, and what is cut off cannot.\<close>

definition codec_ok :: "'a codec \<Rightarrow> bool" where
  "codec_ok cd \<longleftrightarrow>
     (\<forall>r w. to_vec cd r = Some w \<longrightarrow> from_slice cd w = Some r \<and> (\<forall>k < length w. from_slice cd (take k w) = None))"

definition serde_resp :: "resp codec \<Rightarrow> bool" where
  "serde_resp cd \<longleftrightarrow>
     codec_ok cd \<and> (\<forall>b. length b < 2 ^ 64 \<longrightarrow> (\<exists>w. to_vec cd (RespGet (Some b)) = Some w \<and> length w = get_size b))"

definition serde_req :: "req codec \<Rightarrow> bool" where
  "serde_req cd \<longleftrightarrow>
     codec_ok cd \<and>
     (\<forall>h. length h < 2 ^ 64 \<longrightarrow> (\<exists>w. to_vec cd (ReqGet h) = Some w \<and> length w = 5 + cbor_head_size (length h) + length h))"

lemma cbor_head_size_bounds: "1 \<le> cbor_head_size n" "cbor_head_size n \<le> 9"
  by (simp_all add: cbor_head_size_def)

lemma cbor_elem_size: "cbor_head_size (unat (x :: u8)) = (if unat x < 24 then 1 else 2)"
proof -
  have "unat x < 2 ^ LENGTH(8)" by (rule unsigned_less)
  then show ?thesis by (simp add: cbor_head_size_def)
qed

lemma cbor_elems_size:
  fixes b :: bytes
  shows "sum_list (map (\<lambda>x. cbor_head_size (unat x)) b) \<le> 2 * length b"
    and "list_all (\<lambda>x. 24 \<le> unat x) b \<Longrightarrow> sum_list (map (\<lambda>x. cbor_head_size (unat x)) b) = 2 * length b"
  by (induction b) (auto simp: cbor_elem_size)

text \<open>At most twice the bytes and 14 more; for printable text exactly twice and at least 6 more.\<close>

lemma get_size_bounds:
  "get_size b \<le> 2 * length b + 14" "list_all (\<lambda>x. 24 \<le> unat x) b \<Longrightarrow> 2 * length b + 6 \<le> get_size b"
  using cbor_elems_size [of b] cbor_head_size_bounds [of "length b"] by (simp_all add: get_size_def cbor_vec_size_def)

section \<open>The ceilings\<close>

lemma read_take_length: "read_take n io = Some b \<Longrightarrow> length b \<le> unat n"
  by (cases io) (auto split: if_splits)

lemma max_response_unat: "unat m + 65536 < 2 ^ 64 \<Longrightarrow> unat (max_response m) = unat m + 65536"
  by (simp add: max_response_def P2P_RESPONSE_SLACK_def unat_word_ariths)

text \<open>
  The way of a message from its sender's codec through the stream to its receiver's; nothing arrives if it cannot be
  written, or was cut off and cannot be read.
\<close>

definition carry_request :: "req codec \<Rightarrow> req \<Rightarrow> req option" where
  "carry_request cd r = Option.bind (write_request cd r) (\<lambda>w. read_request cd (Closed w))"

definition carry_response :: "resp codec \<Rightarrow> usize \<Rightarrow> resp \<Rightarrow> resp option" where
  "carry_response cd m r = Option.bind (write_response cd r) (\<lambda>w. read_response cd (max_response m) (Closed w))"

lemma codec_read: "codec_ok cd \<Longrightarrow> to_vec cd r = Some w \<Longrightarrow> from_slice cd (take k w) = (if length w \<le> k then Some r else None)"
  by (simp add: codec_ok_def)

lemma carry_request_eq:
  assumes "codec_ok cd"
  shows "carry_request cd r =
    (case to_vec cd r of Some w \<Rightarrow> if length w \<le> 65536 then Some r else None | None \<Rightarrow> None)"
  using codec_read [OF assms, of r]
  by (simp add: carry_request_def write_request_def read_request_def P2P_MAX_REQUEST_def split: option.split)

lemma carry_response_eq:
  assumes "codec_ok cd"
  shows "carry_response cd m r =
    (case to_vec cd r of Some w \<Rightarrow> if length w \<le> unat (max_response m) then Some r else None | None \<Rightarrow> None)"
  using codec_read [OF assms, of r]
  by (simp add: carry_response_def write_response_def read_response_def split: option.split)

lemma carry_same:
  "codec_ok cd \<Longrightarrow> carry_request cd r = Some r' \<Longrightarrow> r' = r"
  "codec_ok cd' \<Longrightarrow> carry_response cd' m x = Some x' \<Longrightarrow> x' = x"
  by (simp_all add: carry_request_eq carry_response_eq split: option.splits if_splits)

lemma carry_get_response:
  assumes "serde_resp cd" and "length b < 2 ^ 64"
  shows "carry_response cd m (RespGet (Some b)) = (if get_size b \<le> unat (max_response m) then Some (RespGet (Some b)) else None)"
proof -
  have "codec_ok cd" using assms(1) by (simp add: serde_resp_def)
  moreover obtain w where "to_vec cd (RespGet (Some b)) = Some w" "length w = get_size b"
    using assms unfolding serde_resp_def by blast
  ultimately show ?thesis by (simp add: carry_response_eq)
qed

lemma carry_get_request:
  assumes "serde_req cd" and "length h \<le> 60000"
  shows "carry_request cd (ReqGet h) = Some (ReqGet h)"
proof -
  have "codec_ok cd" using assms(1) by (simp add: serde_req_def)
  moreover have "length h < 2 ^ 64" using assms(2) by simp
  with assms(1) obtain w where "to_vec cd (ReqGet h) = Some w" "length w = 5 + cbor_head_size (length h) + length h"
    unfolding serde_req_def by blast
  ultimately show ?thesis using assms(2) cbor_head_size_bounds(2) [of "length h"] by (simp add: carry_request_eq)
qed

end
