(* ===== verification/P2p_Cbor.thy ===== *)
theory P2p_Cbor
  imports P2p_Codec
begin

text \<open>
  A codec that has what \<open>P2p_Codec\<close> takes from the documentation: the encoding of \<open>Get\<close> requests and of the responses
  to them as RFC 8949 writes the serde data model, and a decoder that stops at the end of the item.
\<close>

section \<open>Heads\<close>

fun be_bytes :: "nat \<Rightarrow> nat \<Rightarrow> bytes" where
  "be_bytes 0 n = []"
| "be_bytes (Suc k) n = of_nat (n div 256 ^ k) # be_bytes k n"

definition be_value :: "bytes \<Rightarrow> nat" where
  "be_value = foldl (\<lambda>a x. 256 * a + unat x) 0"

definition cbor_head :: "nat \<Rightarrow> nat \<Rightarrow> bytes" where
  "cbor_head m n =
     (if n < 24 then [of_nat (32 * m + n)]
      else if n < 2 ^ 8 then of_nat (32 * m + 24) # be_bytes 1 n
      else if n < 2 ^ 16 then of_nat (32 * m + 25) # be_bytes 2 n
      else if n < 2 ^ 32 then of_nat (32 * m + 26) # be_bytes 4 n
      else of_nat (32 * m + 27) # be_bytes 8 n)"

text \<open>Major type and argument of the first item, and what follows its head.\<close>

fun cbor_item :: "bytes \<Rightarrow> (nat \<times> nat \<times> bytes) option" where
  "cbor_item [] = None"
| "cbor_item (x # xs) =
     (let a = unat x mod 32; k = (if a < 24 then 0 else 2 ^ (a - 24))
      in if 27 < a \<or> length xs < k then None
         else Some (unat x div 32, if a < 24 then a else be_value (take k xs), drop k xs))"

lemma length_be_bytes [simp]: "length (be_bytes k n) = k"
  by (induction k) simp_all

lemma be_value_bytes:
  assumes "n < 256 ^ k"
  shows "be_value (be_bytes k n) = n"
proof -
  have "foldl (\<lambda>a x. 256 * a + unat x) a (be_bytes k n) = a * 256 ^ k + n mod 256 ^ k" for a
  proof (induction k arbitrary: a)
    case (Suc k)
    have "n mod 256 ^ Suc k = 256 ^ k * (n div 256 ^ k mod 256) + n mod 256 ^ k"
      using mod_mult2_eq [of n "256 ^ k" 256] by (simp add: mult.commute)
    moreover have "unat (of_nat (n div 256 ^ k) :: u8) = n div 256 ^ k mod 256"
      by (simp add: unat_of_nat take_bit_eq_mod)
    ultimately show ?case using Suc.IH by (simp add: algebra_simps)
  qed simp
  then show ?thesis using assms by (simp add: be_value_def)
qed

lemma cbor_head_size: "length (cbor_head m n) = cbor_head_size n"
  by (simp add: cbor_head_def cbor_head_size_def)

text \<open>The first byte, and how many follow it.\<close>

lemma cbor_head_cases:
  assumes "n < 2 ^ 64"
  obtains (small) "n < 24" "cbor_head m n = [of_nat (32 * m + n)]"
  | (large) a where "a < 4" "n < 256 ^ (2 ^ a)" "cbor_head m n = of_nat (32 * m + (24 + a)) # be_bytes (2 ^ a) n"
proof -
  consider "n < 24" | "24 \<le> n" "n < 2 ^ 8" | "2 ^ 8 \<le> n" "n < 2 ^ 16" | "2 ^ 16 \<le> n" "n < 2 ^ 32" | "2 ^ 32 \<le> n"
    by linarith
  then show thesis
  proof cases
    case 1
    then show thesis using small by (simp add: cbor_head_def)
  next
    case 2
    then show thesis using large [of 0] by (simp add: cbor_head_def)
  next
    case 3
    then show thesis using large [of 1] by (simp add: cbor_head_def)
  next
    case 4
    then show thesis using large [of 2] by (simp add: cbor_head_def)
  next
    case 5
    then show thesis using large [of 3] assms by (simp add: cbor_head_def)
  qed
qed

lemma first_byte:
  assumes "m < 8" and "a < 32"
  shows "unat (of_nat (32 * m + a) :: u8) div 32 = m" "unat (of_nat (32 * m + a) :: u8) mod 32 = a"
proof -
  have "32 * m + a < 256" using assms by simp
  then have "unat (of_nat (32 * m + a) :: u8) = 32 * m + a" unfolding unat_of_nat by (simp add: take_bit_eq_mod)
  then show "unat (of_nat (32 * m + a) :: u8) div 32 = m" "unat (of_nat (32 * m + a) :: u8) mod 32 = a"
    using assms(2) by simp_all
qed

lemma cbor_item_head:
  assumes "m < 8" and "n < 2 ^ 64"
  shows "cbor_item (cbor_head m n @ ys) = Some (m, n, ys)"
  using assms(2)
proof (cases rule: cbor_head_cases [where m = m])
  case small
  with first_byte [OF assms(1), of n] show ?thesis by (simp add: Let_def)
next
  case (large a)
  with first_byte [OF assms(1), of "24 + a"] be_value_bytes [of n "2 ^ a"] show ?thesis by (simp add: Let_def)
qed

lemma cbor_item_cut:
  assumes "m < 8" and "n < 2 ^ 64" and "j < length (cbor_head m n)"
  shows "cbor_item (take j (cbor_head m n)) = None"
proof (cases j)
  case (Suc i)
  show ?thesis
    using assms(2)
  proof (cases rule: cbor_head_cases [where m = m])
    case (large a)
    with first_byte [OF assms(1), of "24 + a"] assms(3) Suc show ?thesis by (simp add: Let_def)
  qed (use assms(3) Suc in simp)
qed simp

section \<open>Byte vectors and texts\<close>

fun cbor_elems :: "nat \<Rightarrow> bytes \<Rightarrow> bytes option" where
  "cbor_elems 0 xs = Some []"
| "cbor_elems (Suc n) xs =
     (case cbor_item xs of
        Some (m, v, ys) \<Rightarrow> if m = 0 \<and> v < 256 then map_option (Cons (of_nat v)) (cbor_elems n ys) else None
      | None \<Rightarrow> None)"

definition elem_bytes :: "bytes \<Rightarrow> bytes" where
  "elem_bytes b = concat (map (\<lambda>x. cbor_head 0 (unat x)) b)"

lemma elem_bytes_simps [simp]: "elem_bytes [] = []" "elem_bytes (x # b) = cbor_head 0 (unat x) @ elem_bytes b"
  by (simp_all add: elem_bytes_def)

lemma byte_range: "unat (x :: u8) < 256"
proof -
  have "unat x < 2 ^ LENGTH(8)" by (rule unsigned_less)
  then show ?thesis by simp
qed

lemma cbor_elems_bytes: "cbor_elems (length b) (elem_bytes b) = Some b"
proof (induction b)
  case (Cons x b)
  have "unat x < 2 ^ 64" using byte_range [of x] by simp
  from cbor_item_head [OF _ this, of 0 "elem_bytes b"] Cons byte_range [of x] show ?case by simp
qed simp

lemma cbor_elems_cut: "j < length (elem_bytes b) \<Longrightarrow> cbor_elems (length b) (take j (elem_bytes b)) = None"
proof (induction b arbitrary: j)
  case (Cons x b)
  have x: "unat x < 2 ^ 64" using byte_range [of x] by simp
  show ?case
  proof (cases "j < length (cbor_head 0 (unat x))")
    case True
    then show ?thesis using cbor_item_cut [OF _ x True] by simp
  next
    case False
    with Cons.prems have "cbor_elems (length b) (take (j - length (cbor_head 0 (unat x))) (elem_bytes b)) = None"
      by (intro Cons.IH) simp
    then show ?thesis using False cbor_item_head [OF _ x, of 0] byte_range [of x] by simp
  qed
qed simp

lemma elem_bytes_size: "length (elem_bytes b) = sum_list (map (\<lambda>x. cbor_head_size (unat x)) b)"
  by (induction b) (simp_all add: cbor_head_size)

section \<open>The codecs\<close>

text \<open>The map of one entry whose key is \<open>Get\<close>.\<close>

definition get_tag :: bytes where
  "get_tag = [0xA1, 0x63, 0x47, 0x65, 0x74]"

definition tagged :: "(nat \<Rightarrow> nat \<Rightarrow> bytes \<Rightarrow> 'a option) \<Rightarrow> bytes \<Rightarrow> 'a option" where
  "tagged f w =
     (if take 5 w = get_tag then (case cbor_item (drop 5 w) of Some (m, n, ys) \<Rightarrow> f m n ys | None \<Rightarrow> None) else None)"

lemma tagged_head:
  "m < 8 \<Longrightarrow> n < 2 ^ 64 \<Longrightarrow> tagged f (get_tag @ cbor_head m n @ ys) = f m n ys"
  using cbor_item_head [of m n ys] by (simp add: tagged_def get_tag_def)

lemma tagged_cut:
  assumes "m < 8" and "n < 2 ^ 64" and "\<And>j. j < length ys \<Longrightarrow> f m n (take j ys) = None"
    and "k < length (get_tag @ cbor_head m n @ ys)"
  shows "tagged f (take k (get_tag @ cbor_head m n @ ys)) = None"
proof -
  let ?h = "cbor_head m n"
  have tag: "length get_tag = 5" by (simp add: get_tag_def)
  consider "k < 5" | "5 \<le> k" "k - 5 < length ?h" | "5 + length ?h \<le> k" by linarith
  then show ?thesis
  proof cases
    case 1
    have "length (take k get_tag) \<noteq> length get_tag" using 1 tag by simp
    then have "take k get_tag \<noteq> get_tag" by metis
    with 1 tag show ?thesis by (simp add: tagged_def)
  next
    case 2
    then have "cbor_item (take (k - 5) ?h) = None" using assms(1,2) by (intro cbor_item_cut)
    with 2 tag show ?thesis by (simp add: tagged_def)
  next
    case 3
    then have "f m n (take (k - 5 - length ?h) ys) = None" using assms(3,4) tag by simp
    moreover have "take k (get_tag @ ?h @ ys) = get_tag @ ?h @ take (k - 5 - length ?h) ys" using 3 tag by simp
    ultimately show ?thesis using tagged_head [OF assms(1,2), of f] by simp
  qed
qed

definition cbor_resp :: "resp codec" where
  "cbor_resp =
     \<lparr>to_vec = (\<lambda>r. case r of
        RespGet (Some b) \<Rightarrow> if length b < 2 ^ 64 then Some (get_tag @ cbor_head 4 (length b) @ elem_bytes b) else None
      | RespGet None \<Rightarrow> Some (get_tag @ cbor_head 7 22 @ [])
      | RespHave has len \<Rightarrow> None),
      from_slice = tagged (\<lambda>m n ys.
        if m = 4 then map_option (\<lambda>b. RespGet (Some b)) (cbor_elems n ys)
        else if m = 7 \<and> n = 22 then Some (RespGet None) else None)\<rparr>"

definition cbor_req :: "req codec" where
  "cbor_req =
     \<lparr>to_vec = (\<lambda>r. case r of
        ReqGet h \<Rightarrow> if length h < 2 ^ 64 then Some (get_tag @ cbor_head 3 (length h) @ str_bytes h) else None
      | ReqHave h \<Rightarrow> None),
      from_slice = tagged (\<lambda>m n ys.
        if m = 3 \<and> n \<le> length ys then Some (ReqGet (bytes_str (take n ys))) else None)\<rparr>"

lemma get_tag_length [simp]: "length get_tag = 5"
  by (simp add: get_tag_def)

lemma cbor_resp_serde: "serde_resp cbor_resp"
proof -
  have "from_slice cbor_resp w = Some r \<and> (\<forall>k < length w. from_slice cbor_resp (take k w) = None)"
    if "to_vec cbor_resp r = Some w" for r w
  proof (cases r)
    case (RespGet x)
    show ?thesis
    proof (cases x)
      case None
      with that RespGet have w: "w = get_tag @ cbor_head 7 22 @ []" by (simp add: cbor_resp_def)
      show ?thesis
        unfolding w cbor_resp_def codec.simps RespGet None
        by (intro conjI allI impI tagged_cut) (subst tagged_head, simp_all)
    next
      case (Some b)
      with that RespGet have w: "w = get_tag @ cbor_head 4 (length b) @ elem_bytes b" and b: "length b < 2 ^ 64"
        by (simp_all add: cbor_resp_def split: if_splits)
      show ?thesis
        unfolding w cbor_resp_def codec.simps RespGet Some
        using b by (intro conjI allI impI tagged_cut) (simp_all only: tagged_head, simp_all add: cbor_elems_bytes cbor_elems_cut)
    qed
  qed (use that in \<open>simp add: cbor_resp_def\<close>)
  then have "codec_ok cbor_resp" unfolding codec_ok_def by blast
  moreover have "\<exists>w. to_vec cbor_resp (RespGet (Some b)) = Some w \<and> length w = get_size b" if "length b < 2 ^ 64" for b
    using that by (simp add: cbor_resp_def get_size_def cbor_vec_size_def cbor_head_size elem_bytes_size)
  ultimately show ?thesis by (simp add: serde_resp_def)
qed

lemma cbor_req_serde: "serde_req cbor_req"
proof -
  have "from_slice cbor_req w = Some r \<and> (\<forall>k < length w. from_slice cbor_req (take k w) = None)"
    if "to_vec cbor_req r = Some w" for r w
  proof (cases r)
    case (ReqGet h)
    with that have w: "w = get_tag @ cbor_head 3 (length h) @ str_bytes h" and h: "length h < 2 ^ 64"
      by (simp_all add: cbor_req_def split: if_splits)
    show ?thesis
      unfolding w cbor_req_def codec.simps ReqGet
      using h by (intro conjI allI impI tagged_cut) (simp_all only: tagged_head, simp_all)
  qed (use that in \<open>simp add: cbor_req_def\<close>)
  then have "codec_ok cbor_req" unfolding codec_ok_def by blast
  then show ?thesis by (simp add: serde_req_def) (simp add: cbor_req_def cbor_head_size)
qed

end
