(* ===== verification/P2p_Props.thy ===== *)
theory P2p_Props
  imports P2p_Inv P2p_Cbor Store_Props
begin

text \<open>
  The properties of the p2p task (src/p2p.rs): the anti-poisoning gate, the bounds of its tables and of the
  serve tasks, exactly one answer for every \<open>Want\<close> and every request, what is delivered and what is served,
  the codec's ceiling, announcements, and the persisted identity.
\<close>

section \<open>A concrete task\<close>

definition demo_cfg :: p2p_cfg where
  "demo_cfg = \<lparr>cfg_crypto = demo_crypto, cfg_max_bytes = 100\<rparr>"

definition demo_ev :: p2p_env where
  "demo_ev = \<lparr>ev_order = sorted_list_of_set, ev_read = True, ev_io = demo_io\<rparr>"

definition held_store :: store where
  "held_store = put_blob empty_store demo_digest [7]"

lemma demo_legal [simp]: "p2p_legal (demo_ev, ev)"
  by (simp add: p2p_legal_def demo_ev_def hash_iter_def)

lemma digest_hex [simp]: "lower_hex64 demo_digest"
  unfolding demo_digest_def by (rule sha256_hex_lower_hex64 [OF demo_crypto_ok])

lemma digest_norm [simp]: "norm demo_digest = demo_digest" "is_valid_hash demo_digest"
  by (simp_all add: norm_lower_hex64 lower_hex64_valid)

lemma held_store_ok [simp]: "store_ok held_store"
  unfolding held_store_def by (rule store_ok_put_blob) (simp, simp, simp add: empty_store_def)

lemma start_running [simp]: "running (p2p_start s report)" "pending (p2p_start s report) = Map.empty"
  by (simp_all add: p2p_start_def)

section \<open>The gate\<close>

text \<open>
  The anti-poisoning gate lets through exactly the bytes of a Get response that fit the object cap and hash
  to the wanted address; a peer that lies, oversizes, answers another verb or holds nothing gets nowhere.
\<close>

lemma gate_exact:
  "accept_get c want r m = Some b \<longleftrightarrow> r = RespGet (Some b) \<and> length b \<le> unat m \<and> sha256_hex c b = norm want"
  by (rule accept_get_iff)

section \<open>Bounds\<close>

text \<open>
  C29: the event loop stays within its bounds, whatever peers gossip, request or answer: at most 100000 tracked
  hashes, all well-formed, with at most 64 peers each; at most 16 serve tasks, each with a permit, and at most
  16 finished responses in the queue; and the shared store stays well-formed.
\<close>

theorem loop_bounded:
  assumes "store_ok st" and "list_all p2p_legal es"
  shows "let s = fst (p2p_run cfg (p2p_start st report) es) in
    card (dom (providers s)) \<le> 100000 \<and>
    (\<forall>h S. providers s h = Some S \<longrightarrow> lower_hex64 h \<and> card S \<le> 64) \<and>
    serve_permits s + length (serving s) = 16 \<and> length (serve_queue s) \<le> 16 \<and> store_ok (p_store s)"
proof -
  have "p2p_inv (fst (p2p_run cfg (p2p_start st report) es))"
    unfolding p2p_run_state using p2p_start_inv [OF assms(1)] assms(2) by (rule p2p_loop.run_inv)
  then show ?thesis
    by (simp add: p2p_inv_def table_ok_def MAX_TRACKED_HASHES_def MAX_PEERS_PER_HASH_def MAX_CONCURRENT_SERVES_def Let_def)
qed

theorem loop_bounded_witness:
  "length (serving (fst (p2p_run demo_cfg (p2p_start held_store None)
     [(demo_ev, Request (ReqGet demo_digest) 1), (demo_ev, Gossip (Some ''P'') (str_bytes demo_digest))]))) \<le> 16"
  using loop_bounded [OF held_store_ok, of "[(demo_ev, Request (ReqGet demo_digest) 1),
      (demo_ev, Gossip (Some ''P'') (str_bytes demo_digest))]" demo_cfg None]
  unfolding Let_def by simp

section \<open>Exactly one answer\<close>

text \<open>
  C21: every \<open>Want\<close> is answered exactly once. As long as the loop runs, the oneshot senders it was given are, as a
  multiset, those it has answered together with those waiting for an outstanding request: none is dropped, none
  is answered twice, and no response or failure event answers a sender that is not its own.
\<close>

theorem wants_answered_once:
  assumes "store_ok st" and "list_all p2p_legal es" and "running (fst (p2p_run cfg (p2p_start st report) es))"
  shows "sum_of want_reply es = sum_of delivered (snd (p2p_run cfg (p2p_start st report) es))
    + waiting (fst (p2p_run cfg (p2p_start st report) es))"
proof -
  have "waiting (p2p_start st report) = {#}" by (simp add: waiting_def)
  with senders_run [OF p2p_start_inv [OF assms(1)] assms(3,2)] show ?thesis by simp
qed

theorem wants_answered_once_witness:
  "sum_of delivered (snd (p2p_run demo_cfg (p2p_start held_store None) [(demo_ev, Want demo_digest 5)])) = {#5#}"
proof -
  let ?r = "p2p_run demo_cfg (p2p_start held_store None) [(demo_ev, Want demo_digest 5)]"
  have r: "running (fst ?r)" "waiting (fst ?r) = {#}"
    by (simp_all add: p2p_step_def on_want_def p2p_start_def waiting_def)
  from wants_answered_once [OF held_store_ok _ r(1)] r(2) show ?thesis by simp
qed

text \<open>
  C30: every request gets exactly one response: the response channels received are those answered together with
  those of the serve tasks still running or queued, so a flood past the permits is refused and not forgotten.
\<close>

theorem requests_answered_once:
  assumes "running (fst (p2p_run cfg (p2p_start st report) es))"
  shows "sum_of request_channel es = sum_of responded (snd (p2p_run cfg (p2p_start st report) es))
    + in_service (fst (p2p_run cfg (p2p_start st report) es))"
proof -
  have "in_service (p2p_start st report) = {#}" by (simp add: in_service_def p2p_start_def)
  with channels_run [OF assms] show ?thesis by simp
qed

theorem requests_answered_once_witness:
  "sum_of responded (snd (p2p_run demo_cfg (p2p_start held_store None)
     [(demo_ev, Request (ReqGet demo_digest) 1), (demo_ev, ServeTask 0), (demo_ev, ServeDone)])) = {#1#}"
proof -
  let ?r = "p2p_run demo_cfg (p2p_start held_store None)
     [(demo_ev, Request (ReqGet demo_digest) 1), (demo_ev, ServeTask 0), (demo_ev, ServeDone)]"
  have r: "running (fst ?r)" "in_service (fst ?r) = {#}"
    by (simp_all add: p2p_step_def p2p_start_def MAX_CONCURRENT_SERVES_def on_serve_task_def serve_finish_def on_serve_done_def
        in_service_def Let_def)
  from requests_answered_once [OF r(1)] r(2) show ?thesis by simp
qed

section \<open>What is delivered and served\<close>

text \<open>
  C9: peers cannot poison the node. Whatever peers announce and answer, bytes are delivered only to a sender
  that wanted exactly the address they hash to, and they fit the object cap.
\<close>

theorem delivered_bytes_verified:
  assumes "store_ok st" and "list_all p2p_legal es"
    and "Deliver reply (Some b) \<in> set (snd (p2p_run cfg (p2p_start st report) es))"
  shows "\<exists>e hash. (e, Want hash reply) \<in> set es \<and> sha256_hex (cfg_crypto cfg) b = norm hash \<and>
    length b \<le> unat (cfg_max_bytes cfg)"
  using deliveries_verified [OF p2p_start_inv [OF assms(1)] start_running(2) assms(2,3)]
  by (auto simp: wanted_def)

text \<open>A run in which a peer announces a hash, the node wants it and the peer answers with the bytes.\<close>

definition fetch_events :: "(p2p_env \<times> p2p_event) list" where
  "fetch_events =
     [(demo_ev, Gossip (Some ''P'') (str_bytes demo_digest)), (demo_ev, Want demo_digest 5),
      (demo_ev, Response 0 (RespGet (Some [7])))]"

lemma learn_demo: "learn_message (Some ''P'') (str_bytes demo_digest) Map.empty = [demo_digest \<mapsto> {''P''}]"
proof -
  have "learn_message (Some ''P'') (str_bytes (join_str [CHR 0x0A] [demo_digest])) Map.empty
      = fold (learn_line ''P'') [demo_digest] Map.empty"
    by (rule learn_announcement) simp
  then show ?thesis
    by (simp add: learn_line_eq MAX_TRACKED_HASHES_def MAX_PEERS_PER_HASH_def)
qed

lemma fetch_run: "snd (p2p_run demo_cfg (p2p_start empty_store None) fetch_events) =
    [SendRequest ''P'' 0 (ReqGet (''0x'' @ demo_digest)), Deliver 5 (Some [7])]"
proof -
  have s: "sha256_hex demo_crypto [7] = demo_digest" by (simp add: demo_digest_def)
  have o: "ev_order demo_ev {''P''} = [''P'']" by (simp add: demo_ev_def)
  show ?thesis
    by (simp add: fetch_events_def p2p_step_def p2p_start_def learn_demo on_want_def on_response_def o s demo_cfg_def Let_def)
qed

theorem delivered_bytes_verified_witness:
  "\<exists>e hash. (e, Want hash 5) \<in> set fetch_events \<and> sha256_hex demo_crypto [7] = norm hash"
proof -
  have "list_all p2p_legal fetch_events" by (simp add: fetch_events_def)
  moreover have "Deliver 5 (Some [7]) \<in> set (snd (p2p_run demo_cfg (p2p_start empty_store None) fetch_events))"
    by (simp add: fetch_run)
  ultimately show ?thesis
    using delivered_bytes_verified [OF empty_store_ok] by (fastforce simp: demo_cfg_def)
qed

text \<open>
  a takedown also stops replication. As long as the other tasks put only verified bytes, every content
  response the loop sends answers a Get on that very channel with bytes that hash to the requested address, and
  no bytes of a hash denied at the start, and not allowed again since, are ever sent.
\<close>

theorem served_bytes_verified:
  assumes "store_ok st" and "certified c st" and "list_all p2p_legal es"
    and "list_all (serve_legal c D) es" and "D \<subseteq> denied st"
    and "SendResponse channel (RespGet (Some b)) \<in> set (snd (p2p_run cfg (p2p_start st report) es))"
  shows "(\<exists>e h. (e, Request (ReqGet h) channel) \<in> set es \<and> sha256_hex c b = norm (norm h)) \<and> sha256_hex c b \<notin> D"
proof -
  have "serves_ok c {} D (p2p_start st report)" using assms(2,5) by (simp add: serves_ok_def p2p_start_def)
  from responses_verified [OF p2p_start_inv [OF assms(1)] this assms(3,4,6)] show ?thesis
    by (auto simp: asked_def)
qed

text \<open>One Get, served alone: the loop answers with what the store gives for a hash that is not denied.\<close>

lemma serve_alone:
  "snd (p2p_run cfg (p2p_start st report) [(e0, Request (ReqGet h) channel), (e1, ServeTask 0), (e2, ServeDone)])
   = [SendResponse channel (RespGet (if store_is_denied st (p2p_norm h) then None
        else store_get (ev_read e1) st (p2p_norm h)))]"
  by (simp add: p2p_step_def p2p_start_def MAX_CONCURRENT_SERVES_def on_serve_task_def serve_finish_def on_serve_done_def Let_def)

definition serve_events :: "(p2p_env \<times> p2p_event) list" where
  "serve_events =
     [(demo_ev, Request (ReqGet (''0x'' @ demo_digest)) 1), (demo_ev, ServeTask 0), (demo_ev, ServeDone)]"

lemma serve_run: "SendResponse 1 (RespGet (Some [7])) \<in> set (snd (p2p_run demo_cfg (p2p_start held_store None) serve_events))"
proof -
  have n: "norm (''0x'' @ demo_digest) = demo_digest" by (rule norm_0x_lower_hex64) simp
  have "store_get True held_store demo_digest = Some [7]" "\<not> store_is_denied held_store demo_digest"
    by (simp_all add: held_store_def store_get_def put_blob_def fs_read_def store_is_denied_def empty_store_def)
  then show ?thesis
    unfolding serve_events_def serve_alone norm_copies n by (simp add: demo_ev_def)
qed

theorem served_bytes_verified_witness:
  "sha256_hex demo_crypto [7] \<notin> {} \<and> (\<exists>e h. (e, Request (ReqGet h) 1) \<in> set serve_events)"
proof -
  have "certified demo_crypto held_store"
    by (auto simp: certified_def held_store_def put_blob_def empty_store_def demo_digest_def)
  moreover have "list_all p2p_legal serve_events" "list_all (serve_legal demo_crypto {}) serve_events"
    by (simp_all add: serve_events_def)
  ultimately show ?thesis
    using served_bytes_verified [OF held_store_ok _ _ _ _ serve_run] by blast
qed

section \<open>The codec\<close>

text \<open>
  C32: the response ceiling, exactly. At most the object cap plus 64 KiB is read of any response. An object within the
  cap that hashes to what was wanted arrives and passes the gate if and only if its encoding fits under that ceiling.
  Every object of at most half the ceiling (less 7 bytes) does; but cbor writes a \<open>Vec<u8>\<close> as an array of integers, two
  bytes for each byte from 24 on, so a printable text of more than half the ceiling never does, although the object cap
  allows it. (The cap plus the slack must not overflow.)
\<close>

theorem response_ceiling:
  assumes "serde_resp cd" and "unat m + 65536 < 2 ^ 64"
  shows "(\<forall>io raw. read_take (max_response m) io = Some raw \<longrightarrow> length raw \<le> unat m + 65536) \<and>
    (\<forall>b want. length b \<le> unat m \<longrightarrow> sha256_hex c b = norm want \<longrightarrow>
       Option.bind (carry_response cd m (RespGet (Some b))) (\<lambda>r. accept_get c want r m)
         = (if get_size b \<le> unat m + 65536 then Some b else None)) \<and>
    (\<forall>b. 2 * length b \<le> unat m + 65522 \<longrightarrow> get_size b \<le> unat m + 65536) \<and>
    (\<forall>b. list_all (\<lambda>x. 24 \<le> unat x) b \<longrightarrow> unat m + 65530 < 2 * length b \<longrightarrow> unat m + 65536 < get_size b)"
proof -
  note m = max_response_unat [OF assms(2)]
  have "length raw \<le> unat m + 65536" if "read_take (max_response m) io = Some raw" for io raw
    using read_take_length [OF that] by (simp add: m)
  moreover have "Option.bind (carry_response cd m (RespGet (Some b))) (\<lambda>r. accept_get c want r m)
      = (if get_size b \<le> unat m + 65536 then Some b else None)"
    if "length b \<le> unat m" "sha256_hex c b = norm want" for b want
    using that carry_get_response [OF assms(1), of b m] assms(2) by (simp add: m)
  moreover have "get_size b \<le> unat m + 65536" if "2 * length b \<le> unat m + 65522" for b
    using that get_size_bounds(1) [of b] by linarith
  moreover have "unat m + 65536 < get_size b" if "list_all (\<lambda>x. 24 \<le> unat x) b" "unat m + 65530 < 2 * length b" for b
    using that(2) get_size_bounds(2) [OF that(1)] by linarith
  ultimately show ?thesis by blast
qed

text \<open>One byte arrives; with an object cap of 80000 bytes, 80000 letters do not fit.\<close>

theorem response_ceiling_witness:
  "Option.bind (carry_response cbor_resp 100 (RespGet (Some [7]))) (\<lambda>r. accept_get demo_crypto demo_digest r 100) = Some [7] \<and>
   unat (80000 :: usize) + 65536 < get_size (replicate 80000 0x61)"
proof -
  have m: "unat (100 :: usize) + 65536 < 2 ^ 64" "unat (80000 :: usize) + 65536 < 2 ^ 64" by simp_all
  have d: "sha256_hex demo_crypto [7] = norm demo_digest" by (simp) (simp add: demo_digest_def)
  have "get_size [7] \<le> unat (100 :: usize) + 65536" using get_size_bounds(1) [of "[7]"] by simp
  then have one: "Option.bind (carry_response cbor_resp 100 (RespGet (Some [7]))) (\<lambda>r. accept_get demo_crypto demo_digest r 100) = Some [7]"
    using response_ceiling [OF cbor_resp_serde m(1), of demo_crypto, THEN conjunct2, THEN conjunct1, rule_format, of "[7]" demo_digest] d
    by simp
  have "list_all (\<lambda>x. 24 \<le> unat x) (replicate 80000 (0x61 :: u8))" by (simp add: list_all_iff)
  from response_ceiling [OF cbor_resp_serde m(2), THEN conjunct2, THEN conjunct2, THEN conjunct2, rule_format, OF this]
  have "unat (80000 :: usize) + 65536 < get_size (replicate 80000 0x61)" by simp
  with one show ?thesis by blast
qed

section \<open>Announcements\<close>

text \<open>
  What one node announces another one learns: after the gossip message a node publishes for its index
  reaches a peer whose table has room, that peer knows the node as a provider of every hash it holds, and its
  knowledge of all other hashes is unchanged.
\<close>

theorem announcement_learned:
  assumes "store_ok st" and "hash_iter ord" and "\<forall>h \<in> dom (index st). lower_hex64 h"
    and "table_ok pv" and "has_room pv (ord (dom (index st)))"
  shows "learn_message (Some src) (str_bytes (held_body (store_list ord st))) pv k =
    (if k \<in> dom (index st) then Some (insert src (case pv k of Some S \<Rightarrow> S | None \<Rightarrow> {})) else pv k)"
proof -
  let ?hs = "ord (dom (index st))"
  have fin: "finite (dom (index st))" using assms(1) by (simp add: store_ok_defs)
  then have hs: "set ?hs = dom (index st)" "distinct ?hs"
    using assms(2) by (simp_all add: set_hash_iter distinct_hash_iter)
  then have hex: "list_all lower_hex64 ?hs" using assms(3) by (simp add: list_all_iff)
  have "map (\<lambda>(h, _). p2p_norm h) (store_list ord st) = ?hs"
    using hs(1) assms(3) by (auto simp: store_list_def norm_0x_lower_hex64 intro!: map_idI simp del: append.simps)
  then have "held_body (store_list ord st) = join_str [CHR 0x0A] ?hs" by (simp add: held_body_def)
  moreover have "finite (dom pv)" using assms(4) by (simp add: table_ok_def)
  ultimately show ?thesis
    using learn_announcement [OF hex] fold_learn_room [OF hex hs(2) assms(5)] hs(1) by simp
qed

theorem announcement_learned_witness:
  "learn_message (Some ''P'') (str_bytes (held_body (store_list sorted_list_of_set held_store))) Map.empty demo_digest
     = Some {''P''}"
proof -
  have i: "index held_store = [demo_digest \<mapsto> 1]" by (simp add: held_store_def put_blob_def empty_store_def len64_def)
  have "hash_iter sorted_list_of_set" by (simp add: hash_iter_def)
  moreover have "table_ok (Map.empty :: string \<rightharpoonup> string set)" by (simp add: table_ok_def)
  moreover have "has_room Map.empty (sorted_list_of_set (dom (index held_store)))"
    by (simp add: i has_room_def MAX_TRACKED_HASHES_def)
  moreover have "\<forall>h \<in> dom (index held_store). lower_hex64 h" by (simp add: i)
  ultimately show ?thesis
    using announcement_learned [OF held_store_ok, of sorted_list_of_set Map.empty "''P''" demo_digest] by (simp add: i)
qed

section \<open>The identity\<close>

text \<open>
  C33: the node's peer id is stable. The first start with a path writes a key it can decode again; every later
  start, with any generator, loads that key and leaves the file alone; and no start ever changes an existing
  key file: one that does not decode makes the start fail.
\<close>

theorem identity_stable:
  assumes "load_or_create_identity k i (Some p) d = (Inr kp, d')" and "\<And>x enc. encode_key k x = Some enc \<Longrightarrow> decode_key k enc = Some x"
    and "key_read_ok i" and "key_read_ok j"
  shows "load_or_create_identity (k\<lparr>generate := g\<rparr>) j (Some p) d' = (Inr kp, d') \<and>
    peer_id_at k True p d' = Some (peer_id_of k kp) \<and> (p \<in> dom d \<longrightarrow> d' = d)"
proof -
  have "\<exists>b. d' p = Some b \<and> decode_key k b = Some kp \<and> (p \<in> dom d \<longrightarrow> d' = d)"
  proof (cases "\<exists>b. d p = Some b \<and> decode_key k b \<noteq> None")
    case True
    then obtain b x where b: "d p = Some b" "decode_key k b = Some x" by blast
    with assms(1,3) have "x = kp" "d' = d" by (simp_all add: load_or_create_identity_def fs_read_def)
    with b show ?thesis by blast
  next
    case False
    then have s: "save_identity k i p d = (Inr kp, d')"
      using assms(1,3) by (cases "d p") (auto simp: load_or_create_identity_def fs_read_def)
    then obtain enc where enc: "p \<notin> dom d" "encode_key k kp = Some enc" "d' = d(p \<mapsto> enc)"
      using save_identity_Inr [OF s] by blast
    then have "d' p = Some enc" by simp
    with enc(1) assms(2) [OF enc(2)] show ?thesis by blast
  qed
  then obtain b where b: "d' p = Some b" "decode_key k b = Some kp" "p \<in> dom d \<longrightarrow> d' = d" by blast
  with assms(4) show ?thesis by (simp add: load_or_create_identity_def peer_id_at_def fs_read_def)
qed

definition demo_keys :: "u8 key_api" where
  "demo_keys =
     \<lparr>generate = 3, encode_key = (\<lambda>x. Some [x]), decode_key = (\<lambda>b. case b of [x] \<Rightarrow> Some x | _ \<Rightarrow> None),
      peer_id_of = (\<lambda>x. [char_of (unat x)])\<rparr>"

definition demo_id_io :: id_io where
  "demo_id_io = \<lparr>key_read_ok = True, mkdir_ok = True, create_ok = True, key_write = WOk\<rparr>"

theorem identity_stable_witness:
  "load_or_create_identity (demo_keys\<lparr>generate := 9\<rparr>) demo_id_io (Some ''k'') [''k'' \<mapsto> [3]] = (Inr 3, [''k'' \<mapsto> [3]])"
proof -
  have first: "load_or_create_identity demo_keys demo_id_io (Some ''k'') Map.empty = (Inr 3, [''k'' \<mapsto> [3]])"
    by (simp add: load_or_create_identity_def save_identity_def fs_read_def fs_write_def demo_keys_def demo_id_io_def)
  have "encode_key demo_keys x = Some enc \<Longrightarrow> decode_key demo_keys enc = Some x" for x enc
    by (auto simp: demo_keys_def)
  moreover have "key_read_ok demo_id_io" by (simp add: demo_id_io_def)
  ultimately show ?thesis using identity_stable [OF first] by blast
qed

section \<open>Where the code falls short of its comments\<close>

text \<open>A key file that does not decode is not regenerated: the start fails and the file stays.\<close>

lemma corrupt_identity_not_regenerated:
  assumes "d p = Some b" and "decode_key k b = None" and "key_read_ok i"
  shows "\<exists>e. load_or_create_identity k i (Some p) d = (Inl e, d)"
  using assms save_identity_existing [of p d k i] by (auto simp: load_or_create_identity_def fs_read_def)

text \<open>The ceiling wraps for an object cap near the top of the range.\<close>

lemma response_ceiling_wraps: "max_response (- 1) = 65535"
  by (simp add: max_response_def P2P_RESPONSE_SLACK_def)

text \<open>A serve task does not hash what it reads: a corrupted blob is sent as it is.\<close>

lemma serve_task_does_not_hash:
  assumes "store_get True st (norm h) = Some b" and "\<not> store_is_denied st (norm h)"
  shows "snd (p2p_run cfg (p2p_start st report)
    [(demo_ev, Request (ReqGet h) channel), (demo_ev, ServeTask 0), (demo_ev, ServeDone)])
    = [SendResponse channel (RespGet (Some b))]"
  unfolding serve_alone using assms by (simp add: demo_ev_def)

end
