(* ===== verification/Node_Props.thy ===== *)
theory Node_Props
  imports Node_Spec Chain_Props Acquire_Props Gateway_Props P2p_Props
begin

text \<open>
  A concrete node for the instances of the properties that span components: one domain, one confirmed proposal
  for the demo blob, an origin that serves it, and a peer that holds it.
\<close>

definition demo_config :: config where
  "demo_config = read_config (\<lambda>_. None)"

definition demo_node :: node where
  "demo_node = \<lparr>n_crypto = demo_crypto, n_url_parse = demo_up, n_config = demo_config\<rparr>"

definition demo_pin :: pin_item where
  "demo_pin = \<lparr>payload_hash = demo_digest, uri = [], height = 5\<rparr>"

text \<open>Every URL answers with the demo blob; or no URL answers, and a peer gave a response.\<close>

definition served_env :: pin_env where
  "served_env = \<lparr>pin_net = (\<lambda>_ _. Some \<lparr>status = 200, content_length = None, body_chunks = [Chunk [7]]\<rparr>),
     pin_peer = None, pin_during = [], pin_io = demo_io\<rparr>"

definition peer_env :: "resp \<Rightarrow> pin_env" where
  "peer_env r = \<lparr>pin_net = (\<lambda>_ _. None), pin_peer = Some r, pin_during = [], pin_io = demo_io\<rparr>"

definition node_decoders :: decoders where
  "node_decoders =
     \<lparr>dec_tip = (\<lambda>_. Some 9), dec_domains = (\<lambda>_. Some [''d'']),
      dec_proposals = (\<lambda>_. Some \<lparr>proposals = [\<lparr>p_payload_hash = demo_digest, p_uri = [], p_height = 5\<rparr>],
        total_matches = Some 1\<rparr>)\<rparr>"

definition node_inputs :: "unit pass_inputs" where
  "node_inputs =
     \<lparr>in_decoders = node_decoders, in_gateways = (\<lambda>_. None), in_peers = (\<lambda>_. None), in_multiaddr = (\<lambda>_. None),
      in_indexer = (\<lambda>_. None), in_chain = demo_pass, in_pins = (\<lambda>_. served_env)\<rparr>"

lemma demo_config_fields [simp]:
  "indexer demo_config = []" "max_object demo_config = 2097152" "confirmations demo_config = 3"
  "per_domain demo_config = 500" "config_token demo_config = None" "follow_uri_hints demo_config = False"
  by (simp_all add: demo_config_def read_config_def env_or_def unwrap_or_def parse_u64_def parse_u32_def
      digits_val_def digit_val_def is_digit_def Let_def)

lemma demo_digest_lower: "to_lowercase demo_digest = demo_digest"
  using demo_digest_hex by (simp add: lower_hex64_def to_lowercase_lower_hex)

lemma node_get: "chain_get dec r0 (answers demo_pass) path = (case dec [] of None \<Rightarrow> Inl RpcDecode | Some x \<Rightarrow> Inr x)"
  by (simp add: chain_get_def demo_pass_def ok_response_def is_success_def json_body_def Let_def split: option.split)

lemma node_fetch: "fetch_domain node_decoders r0 (pages demo_pass i) 500 d
    = [\<lparr>p_payload_hash = demo_digest, p_uri = [], p_height = 5\<rparr>]"
  by (simp add: fetch_domain_def MAX_PAGES_def numeral_eq_Suc chain_get_def demo_pass_def ok_response_def
      is_success_def json_body_def node_decoders_def Let_def)

lemma node_pins: "confirmed_pins node_decoders r0 demo_pass 3 500 = Inr [demo_pin]"
proof -
  have max: "sat_sub 9 3 = 6" by (simp add: sat_sub_def)
  have "fetch_all node_decoders r0 demo_pass 500 [''d''] = arrival demo_pass
      [[\<lparr>p_payload_hash = demo_digest, p_uri = [], p_height = 5\<rparr>]]"
    by (simp add: fetch_all_def node_fetch)
  then have all: "concat (fetch_all node_decoders r0 demo_pass 500 [''d''])
      = [\<lparr>p_payload_hash = demo_digest, p_uri = [], p_height = 5\<rparr>]"
    by (simp add: demo_pass_def)
  have tip: "tip_height node_decoders r0 (answers demo_pass) = Inr 9"
    and doms: "chain_get (dec_domains node_decoders) r0 (answers demo_pass) ''/domains'' = Inr [''d'']"
    by (simp_all add: tip_height_def node_get node_decoders_def)
  have visit: "visit demo_pass {demo_digest} = [demo_digest]" by (simp add: demo_pass_def)
  show ?thesis
    by (simp add: confirmed_pins_def tip doms max all demo_digest_lower visit demo_pin_def Let_def)
qed

lemma demo_pass_run:
  "ingest_pass demo_node node_inputs s = (let (s', c) = ingest_pins demo_node [] (\<lambda>_. served_env) [demo_pin] s in (s', Inr c))"
  by (simp add: ingest_pass_def node_inputs_def demo_node_def node_pins gw_templates_def split: prod.split)

lemma demo_obtainable: "obtainable demo_node [] served_env demo_pin"
proof -
  have u: "0 < length (pin_urls demo_node [] demo_pin)" by (simp add: pin_urls_def candidate_urls_def)
  have "sha256_hex demo_crypto [7] = demo_digest" by (simp add: demo_digest_def)
  then have "verifies demo_crypto (norm (payload_hash demo_pin)) (max_object demo_config)
      (pin_net served_env 0 (pin_urls demo_node [] demo_pin ! 0)) [7]"
    by (simp add: verifies_def fetch_capped_Inr_iff served_env_def is_success_def demo_pin_def)
  with u show ?thesis
    unfolding obtainable_def by (auto simp: demo_node_def demo_pin_def served_env_def demo_io_def)
qed

end
