(* ===== verification/Node_System_Run.thy ===== *)
theory Node_System_Run
  imports Node_System_Inv Node_Props
begin

text \<open>
  Runs of the node: what holds after the start, what a step keeps, and notions for what is served and answered that
  \<open>Node_Tasks_Inv\<close> uses.
\<close>

section \<open>Runs\<close>

lemma node_run_state: "fst (node_run n y es) = foldl (\<lambda>y e. fst (node_step n y e)) y es"
  by (induction es arbitrary: y) (simp_all add: case_prod_beta Let_def)

lemma node_run_append:
  "node_run n y (es @ fs) = (let (y1, o1) = node_run n y es; (y2, o2) = node_run n y1 fs in (y2, o1 @ o2))"
  by (induction es arbitrary: y) (auto simp: Let_def split: prod.splits)

text \<open>A ban is lifted by nothing but an authorised allow request; the node is an instance of the machine with bans.\<close>

lemma run_p2p_store:
  "snd e \<noteq> CmdClosed \<Longrightarrow> (\<And>op. snd e \<noteq> StoreOp op) \<Longrightarrow> s_store (fst (run_p2p n y e)) = s_store y"
  using p2p_step_shared(1) [of e "node_cfg n" "p2p_view y"] by (auto simp: run_p2p_def split: prod.splits)

lemma ingest_step_denied:
  "s_store (pass_begin n y x) = s_store y" "s_store (pass_dial y) = s_store y" "s_store (pass_list n y x) = s_store y"
  "s_store (pin_denied y) = s_store y" "s_store (pin_held y) = s_store y" "s_store (pin_acquire n y net) = s_store y"
  "s_store (pin_want y) = s_store y" "denied (s_store (pin_store y i)) = denied (s_store y)"
proof -
  show "denied (s_store (pin_store y i)) = denied (s_store y)"
  proof (cases "s_pc y")
    case (Storing p b v ps)
    obtain r s where "store_put i (s_store y) (payload_hash p) b = (r, s)" by fastforce
    moreover from this have "denied s = denied (s_store y)" using put_denied [of i "s_store y" "payload_hash p" b] by simp
    ultimately show ?thesis using Storing by (cases r) (simp_all add: pin_store_def pin_stored_def fail_pin_def)
  qed (simp_all add: pin_store_def pin_stored_def)
qed (auto simp: pass_begin_def pass_dial_def pass_list_def pin_denied_def pin_held_def pin_acquire_def
  pin_want_def fail_pin_def split: ingest_pc.split list.split sum.split option.split)

lemma node_step_ban:
  assumes "gw_inv tok (gw_view y)" and "h \<in> denied (s_store y)" and "\<not> node_lifts tok ev h"
  shows "h \<in> denied (s_store (fst (node_step n y ev)))"
proof (cases "(n, y, ev)" rule: node_step.cases)
  case (1 n' y' e rq)
  with assms gw_step_ban [of tok "gw_view y" h "Serve e rq" "n_crypto n"] show ?thesis by (auto split: prod.splits)
next
  case (2 n' y' e ev')
  have "loop_event ev' \<Longrightarrow> ev' \<noteq> CmdClosed \<and> (\<forall>op. ev' \<noteq> StoreOp op)" by (cases ev') simp_all
  with 2 assms(2) show ?thesis by (simp add: run_p2p_store)
next
  case (3 n' y' e)
  have "cmd_event c \<noteq> CmdClosed \<and> (\<forall>op. cmd_event c \<noteq> StoreOp op)" for c by (cases c) simp_all
  with 3 assms(2) show ?thesis by (auto simp: run_p2p_store split: list.split)
qed (use assms(2) in \<open>simp_all add: ingest_step_denied\<close>)

interpretation node_runs: banning_machine "\<lambda>y e. fst (node_step n y e)" node_legal "sys_ok n tok UNIV {}"
    "\<lambda>y h. h \<in> denied (s_store y)" "\<lambda>y h. h \<in> dom (index (s_store y))" "node_lifts tok"
  for n :: node and tok :: "string option"
proof unfold_locales
  show "sys_ok n tok UNIV {} y \<Longrightarrow> node_legal e \<Longrightarrow> sys_ok n tok UNIV {} (fst (node_step n y e))" for y e
    using node_step_ok [of n tok UNIV "{}" y e] by simp
  show "sys_ok n tok UNIV {} y \<Longrightarrow> h \<in> denied (s_store y) \<Longrightarrow> \<not> h \<in> dom (index (s_store y))" for y h
    using sys_ok_store store_run.banned_not_held by blast
  show "sys_ok n tok UNIV {} y \<Longrightarrow> node_legal e \<Longrightarrow> h \<in> denied (s_store y) \<Longrightarrow> \<not> node_lifts tok e h \<Longrightarrow>
      h \<in> denied (s_store (fst (node_step n y e)))" for y e h
    by (rule node_step_ban) (simp_all add: sys_ok_def)
qed

section \<open>The start\<close>

text \<open>Every file of the store directory that has the name of a blob holds it.\<close>

definition honest_dir :: "crypto \<Rightarrow> disk \<Rightarrow> bool" where
  "honest_dir c d \<longleftrightarrow> (\<forall>h b. is_valid_hash h \<longrightarrow> d (blob_path h) = Some b \<longrightarrow> sha256_hex c b = h)"

lemma node_start_ok:
  assumes "fst (node_start oi cfg dir) = Inr s" and "clean_listing oi dir" and "honest_dir c dir"
  shows "store_ok s \<and> certified c s \<and> denied s = load_denylist True dir"
proof -
  obtain t where t: "fst (store_open oi dir) = Inr t" "s = with_max_bytes t (store_cap cfg)"
    using assms(1) by (auto simp: node_start_def split: prod.splits sum.splits)
  have "store_ok t" using assms(2) t(1) by (rule store_ok_opened)
  obtain t' where t': "fst (store_open oi dir) = Inr t'" "denied t' = load_denylist True dir"
    "index t' = indexed_from dir (denied t') (dom dir)"
    "\<And>h. h \<notin> denied t' \<Longrightarrow> files t' (blob_path h) = dir (blob_path h)"
    using store_open_clean [OF assms(2)] by metis
  then have "t' = t" using t(1) by simp
  have "\<exists>b. files t (blob_path h) = Some b \<and> sha256_hex c b = h" if "h \<in> dom (index t)" for h
  proof -
    have h: "is_valid_hash h" "h \<notin> denied t" "blob_path h \<in> dom dir"
      using that t'(3) by (auto simp: \<open>t' = t\<close> indexed_from_def split: if_splits)
    with t'(4) assms(3) show ?thesis by (auto simp: \<open>t' = t\<close> honest_dir_def)
  qed
  then have "certified c t" by (auto simp: certified_def)
  with \<open>store_ok t\<close> t'(2) show ?thesis
    by (auto simp: t(2) with_max_bytes_def store_ok_defs certified_def \<open>t' = t\<close>)
qed

lemma p2p_boot_state: "fst (p2p_boot be s boot path d) = Some (p, outs) \<Longrightarrow> p = p2p_start s None"
  by (auto simp: p2p_boot_def split: prod.splits sum.splits if_splits)

lemma node_boot_cases:
  assumes "node_boot be oi n dir d = (Inr (y, outs), d')"
  obtains s where "fst (node_start oi (n_config n) dir) = Inr s" "s_store y = s" "s_gw y = gw_start (n_config n) s"
    "s_cmds y = []" "s_pc y = Sleeping" "s_p2p y = p2p_start s None \<or> s_p2p y = (p2p_start s None)\<lparr>running := False\<rparr>"
proof -
  obtain s where s: "fst (node_start oi (n_config n) dir) = Inr s"
    using assms by (cases "fst (node_start oi (n_config n) dir)") (simp_all add: node_boot_def Let_def)
  define boot where "boot = boot_peers (be_multiaddr be) (n_config n)
      (peers_discover (be_multiaddr be) (be_peers be) (be_indexer be) (indexer (n_config n))
        (self_peer_id (be_keys be) (key_read_ok (be_id be)) (n_config n) d))"
  obtain r d2 where r: "p2p_boot be s boot (identity_path (n_config n)) d = (r, d2)" by fastforce
  have m: "be_multiaddr be (p2p_listen (n_config n)) \<noteq> None"
  proof
    assume "be_multiaddr be (p2p_listen (n_config n)) = None"
    with assms s show False by (simp add: node_boot_def Let_def)
  qed
  show thesis
  proof (cases r)
    case None
    with assms s m r show thesis
      by (intro that [OF s]) (auto simp: node_boot_def Let_def simp flip: boot_def)
  next
    case (Some x)
    obtain p po where x: "x = (p, po)" by fastforce
    with r Some p2p_boot_state [of be s boot "identity_path (n_config n)" d p po] have "p = p2p_start s None" by simp
    with assms s m r Some x show thesis
      by (intro that [OF s]) (auto simp: node_boot_def Let_def simp flip: boot_def)
  qed
qed

lemma node_boot_ok:
  assumes "node_boot be oi n dir d = (Inr (y, outs), d')" and "clean_listing oi dir" and "honest_dir (n_crypto n) dir"
    and "D \<subseteq> load_denylist True dir"
  shows "sys_ok n (config_token (n_config n)) Q D y"
proof -
  obtain s where s: "fst (node_start oi (n_config n) dir) = Inr s" "s_store y = s" "s_gw y = gw_start (n_config n) s"
    "s_cmds y = []" "s_pc y = Sleeping" "s_p2p y = p2p_start s None \<or> s_p2p y = (p2p_start s None)\<lparr>running := False\<rparr>"
    using assms(1) by (rule node_boot_cases)
  note ok = node_start_ok [OF s(1) assms(2,3)]
  have p: "p2p_view y = s_p2p y" "waiting (s_p2p y) = {#}" "pending (s_p2p y) = Map.empty"
    using s(2,6) by (auto simp: p2p_view_def p2p_start_def waiting_def)
  have "p2p_inv (s_p2p y)" using s(6) p2p_start_inv [of s None] ok by (auto simp: p2p_inv_def)
  moreover have "serves_ok (n_crypto n) Q D (s_p2p y)"
    using s(6) ok assms(4) by (auto simp: serves_ok_def p2p_start_def)
  ultimately show ?thesis
    using ok s p by (simp add: sys_ok_def want_ok_def gw_inv_def gw_view_def gw_start_def pending_wanted_def)
qed

section \<open>What is served\<close>

text \<open>A content reply is the blob of the requested hash, or a byte range of it, and not of a hash in \<open>D\<close>.\<close>

definition blob_part :: "bytes \<Rightarrow> bytes \<Rightarrow> bool" where
  "blob_part b x \<longleftrightarrow> x = b \<or> (\<exists>i j. i \<le> j \<and> j < length b \<and> x = take (j + 1 - i) (drop i b))"

fun good_reply :: "crypto \<Rightarrow> string set \<Rightarrow> node_out \<Rightarrow> bool" where
  "good_reply c D (HttpReply (GetContent hs hash) (Some r)) =
     (\<forall>x. reply_body r = Content x \<longrightarrow> norm hash \<notin> D \<and> (\<exists>b. sha256_hex c b = norm hash \<and> blob_part b x))"
| "good_reply c D (HttpReply rq None) = False"
| "good_reply c D out = True"

lemma run_p2p_outs: "x \<in> set (snd (run_p2p n y e)) \<Longrightarrow> \<exists>out. x = P2pOut out"
  by (auto simp: run_p2p_def split: prod.splits)

lemma node_step_http:
  assumes "HttpReply rq r \<in> set (snd (node_step n y ev))"
  obtains e where "ev = Http e rq" "r = fst (gw_handle (n_crypto n) e (gw_view y) rq)"
proof (cases "(n, y, ev)" rule: node_step.cases)
  case (1 n' y' e rq')
  with assms that show thesis by (auto split: prod.splits)
next
  case (2 n' y' e ev')
  with assms show thesis by (auto dest: run_p2p_outs split: if_splits)
next
  case (3 n' y' e)
  with assms show thesis by (auto dest: run_p2p_outs split: list.splits if_splits)
qed (use assms in auto)

text \<open>A request that runs to its end gives its permit back.\<close>

lemma ingest_step_gw:
  "s_gw (pass_begin n y x) = s_gw y" "s_gw (pass_dial y) = s_gw y" "s_gw (pass_list n y x) = s_gw y"
  "s_gw (pin_denied y) = s_gw y" "s_gw (pin_held y) = s_gw y" "s_gw (pin_acquire n y net) = s_gw y"
  "s_gw (pin_want y) = s_gw y" "s_gw (pin_store y i) = s_gw y"
  by (auto simp: pass_begin_def pass_dial_def pass_list_def pin_denied_def pin_held_def pin_acquire_def pin_want_def
      pin_store_def pin_stored_def fail_pin_def split: ingest_pc.split list.split sum.split option.split prod.split)

lemma run_p2p_gw: "s_gw (fst (run_p2p n y e)) = s_gw y"
  by (simp add: run_p2p_def split: prod.split)

lemma gw_handle_conns: "conns (snd (gw_handle c e st rq)) = conns st"
  by (cases rq) (simp_all add: deny_content_store allow_content_store)

lemma node_step_conns: "conns (s_gw (fst (node_step n y ev))) = conns (s_gw y)"
proof (cases "(n, y, ev)" rule: node_step.cases)
  case (1 n' y' e rq)
  obtain r g where h: "gw_handle (n_crypto n) e (gw_view y) rq = (r, g)" by fastforce
  have "conns (gw_view y) = conns (s_gw y)" by (simp add: gw_view_def)
  with 1 h gw_handle_conns [of "n_crypto n" e "gw_view y" rq] show ?thesis by simp
next
  case (2 n' y' e ev')
  then show ?thesis by (simp add: run_p2p_gw)
next
  case (3 n' y' e)
  then show ?thesis by (simp add: run_p2p_gw split: list.split)
qed (simp_all add: ingest_step_gw)

lemma node_run_conns: "conns (s_gw (fst (node_run n y es))) = conns (s_gw y)"
  unfolding node_run_state by (induction es arbitrary: y) (simp_all add: node_step_conns)

section \<open>Responses\<close>

definition carries :: "crypto \<Rightarrow> string \<Rightarrow> resp \<Rightarrow> bool" where
  "carries c h r \<longleftrightarrow> (\<exists>b. r = RespGet (Some b) \<and> sha256_hex c b = h)"

lemma publish_no_response: "SendResponse channel r \<notin> set (publish_held e s)"
  by (simp add: publish_held_def Let_def)

definition gone_reply :: reply where
  "gone_reply = text_reply 410 ''content removed by the operator''"

lemma ingest_step_queue:
  "serve_queue (s_p2p (pass_begin n y x)) = serve_queue (s_p2p y)" "serve_queue (s_p2p (pass_dial y)) = serve_queue (s_p2p y)"
  "serve_queue (s_p2p (pass_list n y x)) = serve_queue (s_p2p y)" "serve_queue (s_p2p (pin_denied y)) = serve_queue (s_p2p y)"
  "serve_queue (s_p2p (pin_held y)) = serve_queue (s_p2p y)" "serve_queue (s_p2p (pin_acquire n y net)) = serve_queue (s_p2p y)"
  "serve_queue (s_p2p (pin_want y)) = serve_queue (s_p2p y)" "serve_queue (s_p2p (pin_store y i)) = serve_queue (s_p2p y)"
  by (auto simp: pass_begin_def pass_dial_def pass_list_def pin_denied_def pin_held_def pin_acquire_def pin_want_def
      pin_store_def pin_stored_def fail_pin_def split: ingest_pc.split list.split sum.split option.split prod.split)

end
