(* ===== verification/Node_Tasks.thy ===== *)
theory Node_Tasks
  imports Node_System_Run Store_Tasks_Budget
begin

text \<open>
  The running node at the granularity of its awaits (src/main.rs, src/gateway.rs, src/p2p.rs, src/store.rs):
  handlers, serve tasks and the ingest task are suspended between any two visits to the store, so takedowns,
  reads and puts overlap in every way the scheduler allows. \<open>Node_System\<close> is the special case in which every
  handler and every put runs to its end at once.
\<close>

section \<open>State\<close>

text \<open>Who waits for the bytes of a file: a GET handler, which holds a permit, or a serve task.\<close>

datatype reader = GetReader header_map string string | ServeReader nat string

text \<open>A serve task past its denylist check: about to look the hash up, or with the body it will hand back.\<close>

datatype serve_pc = ServeChecked | ServeReady "bytes option"

text \<open>
  The store is \<open>shared nt_tasks\<close>; the copy inside \<open>nt_sys\<close> is stale and \<open>nt_view\<close> is what a step sees. The lists
  \<open>nt_denies\<close> and \<open>nt_reads\<close> say who waits for the denies and reads of \<open>nt_tasks\<close>, in the same order. GET
  handlers past the denylist check are in \<open>nt_gets\<close>, with a permit in \<open>nt_lookups\<close>; HEAD handlers past the check
  in \<open>nt_heads\<close>: the headers, the path and the normalised hash. \<open>nt_serves\<close> are the started serve tasks that are
  not reading a file; a task stays in \<open>serving\<close> until it ends.
\<close>

record node_tasks =
  nt_sys :: node_sys
  nt_tasks :: store_tasks
  nt_denies :: "request list"
  nt_reads :: "reader list"
  nt_gets :: "(header_map \<times> string \<times> string) list"
  nt_lookups :: "(header_map \<times> string \<times> string) list"
  nt_heads :: "(string \<times> string) list"
  nt_serves :: "(nat \<times> string \<times> serve_pc) list"

text \<open>For the steps that make no file call.\<close>

definition no_io :: io where
  "no_io = \<lparr>write_out = WOk, rename_ok = True, remove_ok = True, set_order = sorted_list_of_set\<rparr>"

definition nt_view :: "node_tasks \<Rightarrow> node_sys" where
  "nt_view y = (nt_sys y)\<lparr>s_store := shared (nt_tasks y)\<rparr>"

abbreviation nt_store :: "node_tasks \<Rightarrow> store" where
  "nt_store y \<equiv> shared (nt_tasks y)"

text \<open>A node with nothing under way between two awaits.\<close>

definition at_rest :: "node_sys \<Rightarrow> node_tasks" where
  "at_rest v =
     \<lparr>nt_sys = v, nt_tasks = idle (s_store v), nt_denies = [], nt_reads = [], nt_gets = [], nt_lookups = [],
      nt_heads = [], nt_serves = []\<rparr>"

datatype tasks_event =
    Whole node_event
  | DenyStart gw_env request | DenyNextStep io nat
  | GetStart header_map string | GetPermit nat | GetLookup nat
  | HeadStart string | HeadLookup nat
  | ServeCheck nat | ServeLookup nat | ServeSend nat nat
  | ReadFile nat bool
  | PutStart io | PutNextStep io
  | DropDeny nat | DropGet nat | DropLookup nat | DropRead nat | DropHead nat
  | CutDeny cut io nat string | CutAllow cut gw_env header_map string

section \<open>Steps that visit the store at most once\<close>

fun once :: "node_event \<Rightarrow> bool" where
  "once (Http e (GetContent hs hash)) = False"
| "once (Http e (HeadContent hash)) = False"
| "once (Http e (DeleteContent hs hash)) = False"
| "once (Http e (PostDeny hs hash)) = False"
| "once (P2pEvent e (ServeTask k)) = False"
| "once (PinStore i) = False"
| "once ev = True"

definition whole_step :: "node \<Rightarrow> node_tasks \<Rightarrow> node_event \<Rightarrow> node_tasks \<times> node_out list" where
  "whole_step n y ev =
     (let (v, outs) = node_step n (nt_view y) ev
      in (y\<lparr>nt_sys := v, nt_tasks := (nt_tasks y)\<lparr>shared := s_store v\<rparr>\<rparr>, outs))"

section \<open>Takedown handlers\<close>

fun deny_reply :: "store_error + bool \<Rightarrow> reply" where
  "deny_reply (Inr purged) = json_reply (JObj [(''ok'', JBool True), (''denied'', JBool True), (''purged'', JBool purged)])"
| "deny_reply (Inl e) = error_reply e"

definition deny_start :: "node_tasks \<Rightarrow> gw_env \<Rightarrow> request \<Rightarrow> header_map \<Rightarrow> string \<Rightarrow> node_tasks \<times> node_out list" where
  "deny_start y e rq hs hash =
     (if \<not> admin_ok (gw_view (nt_view y)) hs then (y, [HttpReply rq (Some (text_reply 403 ''admin token required''))])
      else case gw_norm hash of
        None \<Rightarrow> (y, [HttpReply rq (Some (plain 400))])
      | Some h \<Rightarrow>
          (y\<lparr>nt_tasks := fst (task_step (nt_tasks y) (env_io e, DenyCall h)), nt_denies := nt_denies y @ [rq]\<rparr>, []))"

definition deny_next :: "node_tasks \<Rightarrow> io \<Rightarrow> nat \<Rightarrow> node_tasks \<times> node_out list" where
  "deny_next y i k =
     (case task_step (nt_tasks y) (i, DenyNext k) of
        (a, [DenyReturns h r]) \<Rightarrow>
          (y\<lparr>nt_tasks := a, nt_denies := drop_nth k (nt_denies y)\<rparr>, [HttpReply (nt_denies y ! k) (Some (deny_reply r))])
      | (a, _) \<Rightarrow> (y\<lparr>nt_tasks := a\<rparr>, []))"

section \<open>Content handlers\<close>

definition release :: "node_tasks \<Rightarrow> node_tasks" where
  "release y = y\<lparr>nt_sys := (nt_sys y)\<lparr>s_gw := (s_gw (nt_sys y))\<lparr>conns := conns (s_gw (nt_sys y)) + 1\<rparr>\<rparr>\<rparr>"

definition get_start :: "node_tasks \<Rightarrow> header_map \<Rightarrow> string \<Rightarrow> node_tasks \<times> node_out list" where
  "get_start y hs hash =
     (let reply = (\<lambda>r. HttpReply (GetContent hs hash) (Some r))
      in case gw_norm hash of
           None \<Rightarrow> (y, [reply (text_reply 400 ''want /content/0x<64-hex payload_hash>'')])
         | Some h \<Rightarrow>
             if store_is_denied (nt_store y) h then (y, [reply (text_reply 410 ''content removed by the operator'')])
             else (y\<lparr>nt_gets := nt_gets y @ [(hs, hash, h)]\<rparr>, []))"

definition get_permit :: "node_tasks \<Rightarrow> nat \<Rightarrow> node_tasks \<times> node_out list" where
  "get_permit y k =
     (if k < length (nt_gets y) then
        (let (hs, hash, h) = nt_gets y ! k; y' = y\<lparr>nt_gets := drop_nth k (nt_gets y)\<rparr>; g = s_gw (nt_sys y)
         in if conns g = 0 then (y', [HttpReply (GetContent hs hash) (Some (text_reply 503 ''gateway busy''))])
            else (y'\<lparr>nt_sys := (nt_sys y)\<lparr>s_gw := g\<lparr>conns := conns g - 1\<rparr>\<rparr>, nt_lookups := nt_lookups y @ [(hs, hash, h)]\<rparr>, []))
      else (y, []))"

text \<open>The reply to the bytes that were read, or to their absence; then the permit is dropped.\<close>

definition get_reply ::
  "node \<Rightarrow> node_tasks \<Rightarrow> header_map \<Rightarrow> string \<Rightarrow> string \<Rightarrow> bytes option \<Rightarrow> node_tasks \<times> node_out list" where
  "get_reply n y hs hash h body = (release y, [HttpReply (GetContent hs hash) (get_finish (n_crypto n) hs h body)])"

definition get_lookup :: "node \<Rightarrow> node_tasks \<Rightarrow> nat \<Rightarrow> node_tasks \<times> node_out list" where
  "get_lookup n y k =
     (if k < length (nt_lookups y) then
        (let (hs, hash, h) = nt_lookups y ! k; y' = y\<lparr>nt_lookups := drop_nth k (nt_lookups y)\<rparr>
         in case task_step (nt_tasks y) (no_io, ReadCall h) of
              (a, []) \<Rightarrow> (y'\<lparr>nt_tasks := a, nt_reads := nt_reads y @ [GetReader hs hash h]\<rparr>, [])
            | (a, _) \<Rightarrow> get_reply n (y'\<lparr>nt_tasks := a\<rparr>) hs hash h None)
      else (y, []))"

definition head_start :: "node_tasks \<Rightarrow> string \<Rightarrow> node_tasks \<times> node_out list" where
  "head_start y hash =
     (let reply = (\<lambda>r. HttpReply (HeadContent hash) (Some r))
      in case gw_norm hash of
           None \<Rightarrow> (y, [reply (plain 400)])
         | Some h \<Rightarrow>
             if store_is_denied (nt_store y) h then (y, [reply (text_reply 410 ''content removed by the operator'')])
             else (y\<lparr>nt_heads := nt_heads y @ [(hash, h)]\<rparr>, []))"

definition head_lookup :: "node_tasks \<Rightarrow> nat \<Rightarrow> node_tasks \<times> node_out list" where
  "head_lookup y k =
     (if k < length (nt_heads y) then
        (let (hash, h) = nt_heads y ! k
         in (y\<lparr>nt_heads := drop_nth k (nt_heads y)\<rparr>,
             [HttpReply (HeadContent hash) (head_finish h (store_has (nt_store y) h))]))
      else (y, []))"

section \<open>Serve tasks\<close>

text \<open>\<open>started y x\<close>: how many of the serve tasks with channel and hash \<open>x\<close> have started.\<close>

definition started :: "node_tasks \<Rightarrow> nat \<times> string \<Rightarrow> nat" where
  "started y x =
     count_list (map (\<lambda>(channel, m, pc). (channel, m)) (nt_serves y)) x +
     count_list (nt_reads y) (ServeReader (fst x) (snd x))"

definition serve_check :: "node_tasks \<Rightarrow> nat \<Rightarrow> node_tasks" where
  "serve_check y k =
     (if k < length (serving (s_p2p (nt_sys y))) then
        (let (channel, m) = serving (s_p2p (nt_sys y)) ! k
         in if started y (channel, m) < count_list (serving (s_p2p (nt_sys y))) (channel, m) then
              y\<lparr>nt_serves := nt_serves y @
                [(channel, m, if store_is_denied (nt_store y) m then ServeReady None else ServeChecked)]\<rparr>
            else y)
      else y)"

definition serve_lookup :: "node_tasks \<Rightarrow> nat \<Rightarrow> node_tasks" where
  "serve_lookup y j =
     (if j < length (nt_serves y) then
        (case nt_serves y ! j of
           (channel, m, ServeChecked) \<Rightarrow>
             (case task_step (nt_tasks y) (no_io, ReadCall m) of
                (a, []) \<Rightarrow>
                  y\<lparr>nt_tasks := a, nt_serves := drop_nth j (nt_serves y), nt_reads := nt_reads y @ [ServeReader channel m]\<rparr>
              | (a, _) \<Rightarrow> y\<lparr>nt_tasks := a, nt_serves := (nt_serves y)[j := (channel, m, ServeReady None)]\<rparr>)
         | _ \<Rightarrow> y)
      else y)"

text \<open>The task hands its body back when the queue has room, and ends.\<close>

definition serve_send :: "node_tasks \<Rightarrow> nat \<Rightarrow> nat \<Rightarrow> node_tasks" where
  "serve_send y j k =
     (let p = s_p2p (nt_sys y)
      in if j < length (nt_serves y) \<and> k < length (serving p) \<and> length (serve_queue p) < MAX_CONCURRENT_SERVES then
           (case nt_serves y ! j of
              (channel, m, ServeReady body) \<Rightarrow>
                if serving p ! k = (channel, m) then
                  y\<lparr>nt_sys := (nt_sys y)\<lparr>s_p2p := serve_finish p k body\<rparr>, nt_serves := drop_nth j (nt_serves y)\<rparr>
                else y
            | _ \<Rightarrow> y)
         else y)"

text \<open>A file was read: the handler answers, or the serve task has its body.\<close>

definition read_file :: "node \<Rightarrow> node_tasks \<Rightarrow> nat \<Rightarrow> bool \<Rightarrow> node_tasks \<times> node_out list" where
  "read_file n y k ok =
     (case task_step (nt_tasks y) (no_io, ReadNext k ok) of
        (a, [ReadReturns h body]) \<Rightarrow>
          (let y' = y\<lparr>nt_tasks := a, nt_reads := drop_nth k (nt_reads y)\<rparr>
           in case nt_reads y ! k of
                GetReader hs hash g \<Rightarrow> get_reply n y' hs hash g body
              | ServeReader channel m \<Rightarrow> (y'\<lparr>nt_serves := nt_serves y @ [(channel, m, ServeReady body)]\<rparr>, []))
      | _ \<Rightarrow> (y, []))"

section \<open>The put of the ingest task\<close>

definition put_returns :: "node_tasks \<Rightarrow> store_tasks \<times> task_out list \<Rightarrow> node_tasks" where
  "put_returns y r =
     (case r of
        (a, [PutReturns x]) \<Rightarrow> y\<lparr>nt_tasks := a, nt_sys := pin_stored (nt_sys y) x\<rparr>
      | (a, _) \<Rightarrow> y\<lparr>nt_tasks := a\<rparr>)"

definition put_start :: "node_tasks \<Rightarrow> io \<Rightarrow> node_tasks" where
  "put_start y i =
     (case s_pc (nt_sys y) of
        Storing p b via_peer ps \<Rightarrow> put_returns y (task_step (nt_tasks y) (i, PutCall (payload_hash p) b))
      | _ \<Rightarrow> y)"

definition put_next :: "node_tasks \<Rightarrow> io \<Rightarrow> node_tasks" where
  "put_next y i = put_returns y (task_step (nt_tasks y) (i, PutNext))"

section \<open>Clients that go away\<close>

text \<open>
  When a client closes its connection its handler is dropped where it stands: a takedown before or after its denylist
  change, a read without its reply. Serve tasks and the ingest task are spawned and run to their end.
\<close>

definition drop_deny :: "node_tasks \<Rightarrow> nat \<Rightarrow> node_tasks" where
  "drop_deny y k =
     y\<lparr>nt_tasks := (nt_tasks y)\<lparr>denying := drop_nth k (denying (nt_tasks y))\<rparr>, nt_denies := drop_nth k (nt_denies y)\<rparr>"

definition drop_lookup :: "node_tasks \<Rightarrow> nat \<Rightarrow> node_tasks" where
  "drop_lookup y k =
     (if k < length (nt_lookups y) then release (y\<lparr>nt_lookups := drop_nth k (nt_lookups y)\<rparr>) else y)"

definition drop_read :: "node_tasks \<Rightarrow> nat \<Rightarrow> node_tasks" where
  "drop_read y k =
     (if k < length (nt_reads y) then
        (case nt_reads y ! k of
           GetReader hs hash h \<Rightarrow>
             release (y\<lparr>nt_tasks := (nt_tasks y)\<lparr>reading := drop_nth k (reading (nt_tasks y))\<rparr>,
               nt_reads := drop_nth k (nt_reads y)\<rparr>)
         | ServeReader channel m \<Rightarrow> y)
      else y)"

text \<open>
  A handler that is dropped inside \<open>write_denylist\<close>: takedown \<open>k\<close>, which was about to change the denylist at \<open>h\<close>, or an
  authorised allow. The denylist lock is held through the write, so that no other change of the denylist comes between.
\<close>

definition cut_deny :: "node_tasks \<Rightarrow> cut \<Rightarrow> io \<Rightarrow> nat \<Rightarrow> string \<Rightarrow> node_tasks" where
  "cut_deny y c i k h =
     (if k < length (denying (nt_tasks y)) \<and> denying (nt_tasks y) ! k = DenySet h then
        drop_deny (y\<lparr>nt_tasks := (nt_tasks y)\<lparr>shared := deny_cut c i (nt_store y) h\<rparr>\<rparr>) k
      else y)"

definition cut_allow :: "node_tasks \<Rightarrow> cut \<Rightarrow> gw_env \<Rightarrow> header_map \<Rightarrow> string \<Rightarrow> node_tasks" where
  "cut_allow y c e hs hash =
     (if \<not> admin_ok (gw_view (nt_view y)) hs then y
      else case gw_norm hash of
        None \<Rightarrow> y
      | Some h \<Rightarrow> y\<lparr>nt_tasks := (nt_tasks y)\<lparr>shared := allow_cut c (env_io e) (nt_store y) h\<rparr>\<rparr>)"

section \<open>The node\<close>

fun tasks_node_step :: "node \<Rightarrow> node_tasks \<Rightarrow> tasks_event \<Rightarrow> node_tasks \<times> node_out list" where
  "tasks_node_step n y (Whole ev) = (if once ev then whole_step n y ev else (y, []))"
| "tasks_node_step n y (DenyStart e (DeleteContent hs hash)) = deny_start y e (DeleteContent hs hash) hs hash"
| "tasks_node_step n y (DenyStart e (PostDeny hs hash)) = deny_start y e (PostDeny hs hash) hs hash"
| "tasks_node_step n y (DenyStart e rq) = (y, [])"
| "tasks_node_step n y (DenyNextStep i k) = deny_next y i k"
| "tasks_node_step n y (GetStart hs hash) = get_start y hs hash"
| "tasks_node_step n y (GetPermit k) = get_permit y k"
| "tasks_node_step n y (GetLookup k) = get_lookup n y k"
| "tasks_node_step n y (HeadStart hash) = head_start y hash"
| "tasks_node_step n y (HeadLookup k) = head_lookup y k"
| "tasks_node_step n y (ServeCheck k) = (serve_check y k, [])"
| "tasks_node_step n y (ServeLookup j) = (serve_lookup y j, [])"
| "tasks_node_step n y (ServeSend j k) = (serve_send y j k, [])"
| "tasks_node_step n y (ReadFile k ok) = read_file n y k ok"
| "tasks_node_step n y (PutStart i) = (put_start y i, [])"
| "tasks_node_step n y (PutNextStep i) = (put_next y i, [])"
| "tasks_node_step n y (DropDeny k) = (drop_deny y k, [])"
| "tasks_node_step n y (DropGet k) = (y\<lparr>nt_gets := drop_nth k (nt_gets y)\<rparr>, [])"
| "tasks_node_step n y (DropLookup k) = (drop_lookup y k, [])"
| "tasks_node_step n y (DropRead k) = (drop_read y k, [])"
| "tasks_node_step n y (DropHead k) = (y\<lparr>nt_heads := drop_nth k (nt_heads y)\<rparr>, [])"
| "tasks_node_step n y (CutDeny c i k h) = (cut_deny y c i k h, [])"
| "tasks_node_step n y (CutAllow c e hs hash) = (cut_allow y c e hs hash, [])"

fun tasks_node_run :: "node \<Rightarrow> node_tasks \<Rightarrow> tasks_event list \<Rightarrow> node_tasks \<times> node_out list" where
  "tasks_node_run n y [] = (y, [])"
| "tasks_node_run n y (e # es) =
     (let (y1, o1) = tasks_node_step n y e; (y2, o2) = tasks_node_run n y1 es in (y2, o1 @ o2))"

end
