(* ===== verification/Node_Tasks_Inv.thy ===== *)
theory Node_Tasks_Inv
  imports Node_Tasks
begin

text \<open>
  What every step of the node keeps when its handlers and tasks overlap between any two visits to the store. The
  parts of \<open>sys_ok\<close> that do not speak of the store are reused on the node with its store blanked out; the store
  and the operations under way on it satisfy \<open>tasks_ok\<close>.
\<close>

section \<open>Steps that do not change the store\<close>

definition blank :: "node_sys \<Rightarrow> node_sys" where
  "blank v = v\<lparr>s_store := empty_store, s_p2p := (s_p2p v)\<lparr>p_store := empty_store\<rparr>\<rparr>"

lemma blank_fields [simp]:
  "s_store (blank v) = empty_store" "s_gw (blank v) = s_gw v" "s_p2p (blank v) = (s_p2p v)\<lparr>p_store := empty_store\<rparr>" "s_cmds (blank v) = s_cmds v"
  "s_pc (blank v) = s_pc v" "s_counts (blank v) = s_counts v"
  by (simp_all add: blank_def)

lemma blank_store [simp]: "blank (v\<lparr>s_store := s\<rparr>) = blank v"
  by (simp add: blank_def)

text \<open>The event loop reads the store only for what it sends; its state and its deliveries do not depend on it.\<close>

definition same_but_store :: "p2p_state \<times> p2p_out list \<Rightarrow> p2p_state \<times> p2p_out list \<Rightarrow> bool" where
  "same_but_store x y \<longleftrightarrow>
     (fst y)\<lparr>p_store := p_store (fst x)\<rparr> = fst x \<and>
     filter (\<lambda>out. delivered out \<noteq> {#}) (snd x) = filter (\<lambda>out. delivered out \<noteq> {#}) (snd y) \<and>
     (\<forall>channel b. SendResponse channel (RespGet b) \<in> set (snd x) \<longleftrightarrow> SendResponse channel (RespGet b) \<in> set (snd y))"

lemma same_but_store_refl [simp]: "same_but_store x x"
  by (simp add: same_but_store_def)

lemma publish_no_delivery: "filter (\<lambda>out. delivered out \<noteq> {#}) (publish_held e s) = []"
  by (simp add: publish_held_def Let_def)

lemma p2p_step_same:
  assumes "\<And>k. snd e \<noteq> ServeTask k" and "\<And>op. snd e \<noteq> StoreOp op"
  shows "same_but_store (p2p_step cfg (p\<lparr>p_store := s\<rparr>) e) (p2p_step cfg (p\<lparr>p_store := t\<rparr>) e)"
proof (cases "(cfg, p, e)" rule: p2p_handle.cases)
  case (10 cfg' p' e' r channel)
  then show ?thesis by (cases r) (simp_all add: p2p_step_def same_but_store_def Let_def)
qed (use assms in \<open>auto simp: p2p_step_def same_but_store_def on_want_def on_serve_done_def on_listen_def on_connected_def
       on_disconnected_def on_response_def on_failure_def Let_def publish_no_delivery publish_no_response
       split: option.split list.split\<close>)

lemma fold_take_reply_filter: "fold take_reply (filter (\<lambda>out. delivered out \<noteq> {#}) outs) y = fold take_reply outs y"
proof (induction outs arbitrary: y)
  case (Cons out outs)
  then show ?case by (cases out) simp_all
qed simp

lemma take_reply_store: "take_reply out (y\<lparr>s_store := s\<rparr>) = (take_reply out y)\<lparr>s_store := s\<rparr>"
  by (cases "(out, y)" rule: take_reply.cases) (simp_all split: ingest_pc.split option.split)

lemma fold_take_reply_store: "fold take_reply outs (y\<lparr>s_store := s\<rparr>) = (fold take_reply outs y)\<lparr>s_store := s\<rparr>"
  by (induction outs arbitrary: y) (simp_all add: take_reply_store)

lemma take_reply_p2p: "take_reply out (y\<lparr>s_p2p := p\<rparr>) = (take_reply out y)\<lparr>s_p2p := p\<rparr>"
  by (cases "(out, y)" rule: take_reply.cases) (simp_all split: ingest_pc.split option.split)

lemma fold_take_reply_p2p: "fold take_reply outs (y\<lparr>s_p2p := p\<rparr>) = (fold take_reply outs y)\<lparr>s_p2p := p\<rparr>"
  by (induction outs arbitrary: y) (simp_all add: take_reply_p2p)

lemma blank_take_replies: "blank (fold take_reply outs y) = fold take_reply outs (blank y)"
  by (simp add: blank_def fold_take_reply_store fold_take_reply_p2p)

lemma run_p2p_blank:
  assumes "\<And>k. snd e \<noteq> ServeTask k" and "\<And>op. snd e \<noteq> StoreOp op"
  shows "blank (fst (run_p2p n y e)) = fst (run_p2p n (blank y) e) \<and>
    (\<forall>channel b. P2pOut (SendResponse channel (RespGet b)) \<in> set (snd (run_p2p n y e)) \<longleftrightarrow>
      P2pOut (SendResponse channel (RespGet b)) \<in> set (snd (run_p2p n (blank y) e)))"
proof -
  obtain p outs where x: "p2p_step (node_cfg n) (p2p_view y) e = (p, outs)" by fastforce
  obtain p' outs' where x': "p2p_step (node_cfg n) (p2p_view (blank y)) e = (p', outs')" by fastforce
  have same: "same_but_store (p, outs) (p', outs')"
    using p2p_step_same [OF assms, where cfg = "node_cfg n" and p = "s_p2p y" and s = "s_store y" and t = empty_store] x x' by (simp add: p2p_view_def)
  have e: "p_store p' = empty_store"
  proof (cases "snd e = CmdClosed")
    case True
    with x' show ?thesis by (cases e) (auto simp: p2p_step_def p2p_view_def split: if_splits)
  next
    case False
    with x' p2p_step_shared(1) [OF _ assms(2), of "node_cfg n" "p2p_view (blank y)"] show ?thesis by simp
  qed
  have p: "p = p'\<lparr>p_store := p_store p\<rparr>" using same by (simp add: same_but_store_def)
  have "p\<lparr>p_store := empty_store\<rparr> = p'\<lparr>p_store := p_store p'\<rparr>" by (subst p) (simp add: e)
  then have "p\<lparr>p_store := empty_store\<rparr> = p'" by simp
  then have "blank (y\<lparr>s_p2p := p, s_store := p_store p\<rparr>) = (blank y)\<lparr>s_p2p := p', s_store := p_store p'\<rparr>"
    using e by (simp add: blank_def)
  moreover have "fold take_reply outs = fold take_reply outs'"
    using same by (simp add: fun_eq_iff same_but_store_def) (metis fold_take_reply_filter)
  ultimately show ?thesis
    using same by (auto simp: run_p2p_def x x' blank_take_replies same_but_store_def)
qed

lemma ingest_blank:
  "blank (pass_begin n v x) = pass_begin n (blank v) x" "blank (pass_dial v) = pass_dial (blank v)"
  "blank (pass_list n v x) = pass_list n (blank v) x" "blank (pin_acquire n v net) = pin_acquire n (blank v) net"
  "blank (pin_want v) = pin_want (blank v)"
  by (simp_all add: blank_def pass_begin_def pass_dial_def pass_list_def pin_acquire_def pin_want_def fail_pin_def
      split: ingest_pc.split list.split sum.split option.split)

lemma sys_ok_blank_pc:
  assumes "sys_ok n tok Q {} (blank v)" and "s_p2p v' = s_p2p v" and "s_cmds v' = s_cmds v"
    and "admin_token (s_gw v') = admin_token (s_gw v)" and "pc_reply (s_pc v') = pc_reply (s_pc v)"
    and "pc_want (s_pc v') = pc_want (s_pc v)" and "pc_verified (n_crypto n) (s_pc v')"
  shows "sys_ok n tok Q {} (blank v')"
  using assms by (intro sys_ok_change [OF assms(1)]) (auto simp: certified_def empty_store_def empty_store_ok [unfolded empty_store_def])

lemma gw_handle_token: "admin_token (snd (gw_handle c e st rq)) = admin_token st"
  by (cases rq) (simp_all add: deny_content_store allow_content_store)

text \<open>The bookkeeping, and the content responses, of the steps that are one visit to the store.\<close>

lemma once_step_sys:
  assumes ok: "sys_ok n tok Q {} (blank v)" and once: "once ev" and legal: "node_legal ev" and asked: "node_asks ev \<subseteq> Q"
  shows "sys_ok n tok Q {} (blank (fst (node_step n v ev))) \<and>
    (\<forall>channel b. P2pOut (SendResponse channel (RespGet (Some b))) \<in> set (snd (node_step n v ev)) \<longrightarrow>
      (channel, sha256_hex (n_crypto n) b) \<in> Q)"
proof -
  have whole: "sys_ok n tok Q {} (fst (node_step n (blank v) ev)) \<and>
      (\<forall>channel b. P2pOut (SendResponse channel (RespGet (Some b))) \<in> set (snd (node_step n (blank v) ev)) \<longrightarrow>
        (channel, sha256_hex (n_crypto n) b) \<in> Q)"
    using node_step_ok [OF ok legal _ asked] by (fastforce simp: body_ok_def)
  show ?thesis
  proof (cases "(n, v, ev)" rule: node_step.cases)
    case (1 n' y' e rq)
    obtain r g where h: "gw_handle (n_crypto n) e (gw_view v) rq = (r, g)" by fastforce
    then have "admin_token g = admin_token (s_gw v)" using gw_handle_token [of "n_crypto n" e "gw_view v" rq] by simp
    moreover have "pc_verified (n_crypto n) (s_pc v)" using ok by (simp add: sys_ok_def)
    ultimately have "sys_ok n tok Q {} (blank (v\<lparr>s_store := gw_store g, s_gw := g\<rparr>))"
      by (intro sys_ok_blank_pc [OF ok]) simp_all
    with 1 h show ?thesis by simp
  next
    case (2 n' y' e ev')
    show ?thesis
    proof (cases "loop_event ev'")
      case True
      have "snd (e, ev') \<noteq> ServeTask k" "snd (e, ev') \<noteq> StoreOp op" for k op
        using True once 2 by (cases ev'; simp)+
      from run_p2p_blank [OF this, of n v] whole 2 True show ?thesis by simp
    qed (use 2 ok in simp)
  next
    case (3 n' y' e)
    show ?thesis
    proof (cases "s_cmds v = [] \<or> \<not> running (s_p2p v)")
      case True
      with 3 ok show ?thesis by (auto split: list.split)
    next
      case False
      then obtain cm cs where c: "s_cmds v = cm # cs" by (cases "s_cmds v") auto
      have "snd (e, cmd_event cm) \<noteq> ServeTask k" "snd (e, cmd_event cm) \<noteq> StoreOp op" for k op
        by (cases cm; simp)+
      moreover have "(blank v)\<lparr>s_cmds := cs\<rparr> = blank (v\<lparr>s_cmds := cs\<rparr>)" by (simp add: blank_def)
      ultimately show ?thesis using run_p2p_blank [of "(e, cmd_event cm)" n "v\<lparr>s_cmds := cs\<rparr>"] whole 3 c False by simp
    qed
  qed (use ok once whole in \<open>auto simp: ingest_blank pin_denied_def pin_held_def intro!: sys_ok_blank_pc [OF ok]
         split: ingest_pc.split list.split\<close>)
qed

text \<open>Only an authorised allow changes the store in such a step.\<close>

lemma once_step_store:
  assumes "once ev"
  obtains "s_store (fst (node_step n v ev)) = s_store v"
  | e hs hash where "ev = Http e (PostAllow hs hash)" "admin_ok (gw_view v) hs" "norm (norm hash) = norm hash"
      "s_store (fst (node_step n v ev)) = snd (store_allow (env_io e) (s_store v) (norm hash))"
proof (cases "(n, v, ev)" rule: node_step.cases)
  case (1 n' y' e rq)
  have st: "s_store (fst (node_step n v ev)) = gw_store (snd (gw_handle (n_crypto n) e (gw_view v) rq))"
    using 1 by (simp split: prod.split)
  show thesis
  proof (cases rq)
    case (PostAllow hs hash)
    show thesis
    proof (cases "admin_ok (gw_view v) hs \<and> gw_norm hash \<noteq> None")
      case True
      then have "norm (norm hash) = norm hash" by (auto dest: gw_norm_Some)
      with 1 True PostAllow st that(2) show thesis by (simp add: allow_content_store)
    next
      case False
      with PostAllow st that(1) show thesis by (auto simp: allow_content_store)
    qed
  qed (use 1 assms st that(1) in simp_all)
next
  case (2 n' y' e ev')
  have "loop_event ev' \<Longrightarrow> ev' \<noteq> CmdClosed \<and> (\<forall>op. ev' \<noteq> StoreOp op)" by (cases ev') simp_all
  with 2 that(1) show thesis by (simp add: run_p2p_store)
next
  case (3 n' y' e)
  have "cmd_event c \<noteq> CmdClosed \<and> (\<forall>op. cmd_event c \<noteq> StoreOp op)" for c by (cases c) simp_all
  with 3 that(1) show thesis by (auto simp: run_p2p_store split: list.split)
qed (use assms that(1) in \<open>simp_all add: ingest_step_denied\<close>)

lemma whole_step_fields [simp]:
  "nt_denies (fst (whole_step n y ev)) = nt_denies y" "nt_reads (fst (whole_step n y ev)) = nt_reads y"
  "nt_gets (fst (whole_step n y ev)) = nt_gets y" "nt_lookups (fst (whole_step n y ev)) = nt_lookups y"
  "nt_heads (fst (whole_step n y ev)) = nt_heads y" "nt_serves (fst (whole_step n y ev)) = nt_serves y"
  "nt_sys (fst (whole_step n y ev)) = fst (node_step n (nt_view y) ev)"
  "snd (whole_step n y ev) = snd (node_step n (nt_view y) ev)"
  by (simp_all add: whole_step_def split: prod.split)

lemma nt_view_fields [simp]:
  "s_store (nt_view y) = nt_store y" "s_gw (nt_view y) = s_gw (nt_sys y)" "s_p2p (nt_view y) = s_p2p (nt_sys y)"
  "s_cmds (nt_view y) = s_cmds (nt_sys y)" "s_pc (nt_view y) = s_pc (nt_sys y)" "blank (nt_view y) = blank (nt_sys y)"
  by (simp_all add: nt_view_def)

lemma whole_step_tasks:
  assumes "once ev"
  obtains "nt_tasks (fst (whole_step n y ev)) = nt_tasks y"
  | e hs hash where "ev = Http e (PostAllow hs hash)" "admin_ok (gw_view (nt_view y)) hs" "norm (norm hash) = norm hash"
      "nt_tasks (fst (whole_step n y ev)) = fst (task_step (nt_tasks y) (env_io e, AllowCall (norm hash)))"
proof -
  have t: "nt_tasks (fst (whole_step n y ev)) = (nt_tasks y)\<lparr>shared := s_store (fst (node_step n (nt_view y) ev))\<rparr>"
    by (simp add: whole_step_def split: prod.split)
  from assms show thesis
  proof (cases rule: once_step_store [where n = n and v = "nt_view y"])
    case 1
    with that(1) t show thesis by simp
  next
    case (2 e hs hash)
    with that(2) t show thesis by (simp split: prod.split)
  qed
qed

section \<open>What is under way\<close>

fun takes_down :: "request \<Rightarrow> string \<Rightarrow> bool" where
  "takes_down (DeleteContent hs hash) h = (norm hash = h)"
| "takes_down (PostDeny hs hash) h = (norm hash = h)"
| "takes_down rq h = False"

fun reader_hash :: "reader \<Rightarrow> string" where
  "reader_hash (GetReader hs hash h) = h"
| "reader_hash (ServeReader channel m) = norm m"

fun reader_ok :: "reader \<Rightarrow> bool" where
  "reader_ok (GetReader hs hash h) = (gw_norm hash = Some h)"
| "reader_ok (ServeReader channel m) = True"

fun serve_ok :: "crypto \<Rightarrow> nat \<times> string \<times> serve_pc \<Rightarrow> bool" where
  "serve_ok c (channel, m, ServeReady (Some b)) = (sha256_hex c b = norm m)"
| "serve_ok c x = True"

definition flight_ok :: "crypto \<Rightarrow> node_tasks \<Rightarrow> bool" where
  "flight_ok c y \<longleftrightarrow>
     list_all2 (\<lambda>rq pc. takes_down rq (deny_hash pc)) (nt_denies y) (denying (nt_tasks y)) \<and>
     map reader_hash (nt_reads y) = reading (nt_tasks y) \<and> list_all reader_ok (nt_reads y) \<and>
     list_all (\<lambda>(hs, hash, h). gw_norm hash = Some h) (nt_gets y) \<and>
     list_all (\<lambda>(hs, hash, h). gw_norm hash = Some h) (nt_lookups y) \<and>
     list_all (\<lambda>(hash, h). gw_norm hash = Some h) (nt_heads y) \<and> list_all (serve_ok c) (nt_serves y)"

definition nt_ok :: "node \<Rightarrow> string option \<Rightarrow> (nat \<times> string) set \<Rightarrow> string set \<Rightarrow> node_tasks \<Rightarrow> bool" where
  "nt_ok n tok Q X y \<longleftrightarrow>
     sys_ok n tok Q {} (blank (nt_sys y)) \<and> tasks_ok X (n_crypto n) (nt_tasks y) \<and> flight_ok (n_crypto n) y"

text \<open>What a step may send: verified content replies, and responses to those who asked for these bytes.\<close>

definition good_out :: "crypto \<Rightarrow> (nat \<times> string) set \<Rightarrow> node_out \<Rightarrow> bool" where
  "good_out c Q x \<longleftrightarrow>
     good_reply c {} x \<and>
     (\<forall>channel b. x = P2pOut (SendResponse channel (RespGet (Some b))) \<longrightarrow> (channel, sha256_hex c b) \<in> Q)"

lemma good_out_reply [simp]: "good_out c Q (HttpReply rq r) = good_reply c {} (HttpReply rq r)"
  by (simp add: good_out_def)

fun tasks_legal :: "tasks_event \<Rightarrow> bool" where
  "tasks_legal (Whole ev) = node_legal ev"
| "tasks_legal (DenyStart e rq) = order_ok (env_io e)"
| "tasks_legal (DenyNextStep i k) = order_ok i"
| "tasks_legal (PutStart i) = order_ok i"
| "tasks_legal (PutNextStep i) = order_ok i"
| "tasks_legal (CutDeny c i k h) = order_ok i"
| "tasks_legal (CutAllow c e hs hash) = order_ok (env_io e)"
| "tasks_legal ev = True"

fun tasks_asks :: "tasks_event \<Rightarrow> (nat \<times> string) set" where
  "tasks_asks (Whole ev) = node_asks ev"
| "tasks_asks ev = {}"

text \<open>The hash whose denylist change a step cuts off.\<close>

fun tasks_cuts :: "tasks_event \<Rightarrow> string set" where
  "tasks_cuts (CutDeny c i k h) = {h}"
| "tasks_cuts (CutAllow c e hs hash) = {norm hash}"
| "tasks_cuts ev = {}"

lemma order_ok_no_io [simp]: "order_ok no_io"
  by (simp add: order_ok_def no_io_def hash_iter_def)

lemma drop_nth_eq_map: "map f (drop_nth k xs) = drop_nth k (map f xs)"
  by (simp add: drop_nth_def take_map drop_map)

lemma list_all2_drop_nth: "list_all2 P xs ys \<Longrightarrow> list_all2 P (drop_nth k xs) (drop_nth k ys)"
  by (simp add: drop_nth_def list_all2_appendI list_all2_takeI list_all2_dropI)

text \<open>The reply to bytes that were read carries them only if they hash to the request.\<close>

lemma get_finish_result:
  assumes "lower_hex64 h"
  obtains s where "store_get True s h = body" "get_finish c hs h body = Some (serve_result c True s hs h)"
proof (cases body)
  case None
  then have "store_get True empty_store h = body" by (simp add: store_get_def empty_store_def Let_def)
  with that [of empty_store] get_serve_Some [OF assms, of c True "(undefined :: gw_state)\<lparr>gw_store := empty_store\<rparr>" hs]
  show thesis by (simp add: get_serve_def)
next
  case (Some b)
  let ?s = "empty_store\<lparr>files := [blob_path h \<mapsto> b], index := [h \<mapsto> 0]\<rparr>"
  have "store_get True ?s h = body" using Some assms by (simp add: store_get_hex fs_read_def)
  with that [of ?s] get_serve_Some [OF assms, of c True "(undefined :: gw_state)\<lparr>gw_store := ?s\<rparr>" hs]
  show thesis by (simp add: get_serve_def)
qed

lemma get_finish_good:
  assumes "gw_norm hash = Some h"
  shows "good_reply c {} (HttpReply (GetContent hs hash) (get_finish c hs h body))"
proof -
  have h: "lower_hex64 h" "h = norm hash" using gw_norm_Some [OF assms] by auto
  obtain s where s: "get_finish c hs h body = Some (serve_result c True s hs h)"
    using get_finish_result [OF h(1)] by blast
  have "\<exists>b. sha256_hex c b = norm hash \<and> blob_part b x" if "reply_body (serve_result c True s hs h) = Content x" for x
    using that by (rule serve_result_Content) (auto simp: blob_part_def h(2))
  with s show ?thesis by simp
qed

section \<open>Every step\<close>

definition kept :: "node \<Rightarrow> string option \<Rightarrow> (nat \<times> string) set \<Rightarrow> string set \<Rightarrow> node_tasks \<times> node_out list \<Rightarrow> bool" where
  "kept n tok Q X r \<longleftrightarrow> nt_ok n tok Q X (fst r) \<and> (\<forall>x \<in> set (snd r). good_out (n_crypto n) Q x)"

lemma kept_same: "nt_ok n tok Q X y \<Longrightarrow> kept n tok Q X (y, [])"
  by (simp add: kept_def)

lemma whole_kept:
  assumes ok: "nt_ok n tok Q X y" and "once ev" and "node_legal ev" and "node_asks ev \<subseteq> Q"
  shows "kept n tok Q X (whole_step n y ev)"
proof -
  let ?y = "fst (whole_step n y ev)"
  have ok': "sys_ok n tok Q {} (blank (nt_view y))" "tasks_ok X (n_crypto n) (nt_tasks y)" "flight_ok (n_crypto n) y"
    using ok by (simp_all add: nt_ok_def)
  note sys = once_step_sys [OF ok'(1) assms(2-4)]
  have "tasks_ok X (n_crypto n) (nt_tasks ?y) \<and> denying (nt_tasks ?y) = denying (nt_tasks y) \<and>
      reading (nt_tasks ?y) = reading (nt_tasks y)"
    using assms(2)
  proof (cases rule: whole_step_tasks [where n = n and y = y])
    case (2 e hs hash)
    with assms(3) ok'(2) task_step_ok [of X "n_crypto n" "nt_tasks y" "(env_io e, AllowCall (norm hash))"] show ?thesis
      by (simp split: prod.split)
  qed (use ok'(2) in simp)
  moreover have "good_reply (n_crypto n) {} x" if x: "x \<in> set (snd (node_step n (nt_view y) ev))" for x
  proof (cases x)
    case (HttpReply rq r)
    with x obtain e where e: "ev = Http e rq" "r = fst (gw_handle (n_crypto n) e (gw_view (nt_view y)) rq)"
      by (auto elim: node_step_http)
    obtain r' where "r = Some r'" using gw_handle_never_panics [of "n_crypto n" e "gw_view (nt_view y)" rq] e by auto
    with HttpReply e assms(2) show ?thesis by (cases rq) simp_all
  qed simp
  ultimately show ?thesis
    using sys ok'(3) by (auto simp: kept_def nt_ok_def flight_ok_def good_out_def)
qed

lemma takes_down_good: "takes_down rq h \<Longrightarrow> good_reply c D (HttpReply rq (Some r))"
  by (cases rq) simp_all

lemma deny_start_kept:
  assumes ok: "nt_ok n tok Q X y" and "order_ok (env_io e)" and rq: "\<And>h. takes_down rq h \<longleftrightarrow> norm hash = h"
  shows "kept n tok Q X (deny_start y e rq hs hash)"
proof -
  have "takes_down rq (norm hash)" using rq by blast
  note good = takes_down_good [OF this]
  show ?thesis
  proof (cases "admin_ok (gw_view (nt_view y)) hs \<and> gw_norm hash \<noteq> None")
    case True
    then obtain h where h: "gw_norm hash = Some h" by auto
    note n = gw_norm_Some [OF h]
    let ?a = "fst (task_step (nt_tasks y) (env_io e, DenyCall h))"
    have "tasks_ok X (n_crypto n) ?a" using ok assms(2) by (intro task_step_ok) (simp_all add: nt_ok_def)
    moreover have "denying ?a = denying (nt_tasks y) @ [DenySet h]" "reading ?a = reading (nt_tasks y)"
      using n by (auto simp: Let_def lower_hex64_valid norm_lower_hex64)
    ultimately show ?thesis
      using True h n ok rq by (simp add: deny_start_def kept_def nt_ok_def flight_ok_def list_all2_appendI)
  qed (use ok good in \<open>auto simp: deny_start_def kept_def split: option.split\<close>)
qed

lemma deny_step_hash: "deny_step i s pc = (Inl pc', s') \<Longrightarrow> deny_hash pc' = deny_hash pc"
  by (cases pc) (auto simp: Let_def split: if_splits prod.splits sum.splits option.splits)

lemma deny_next_kept:
  assumes ok: "nt_ok n tok Q X y" and io: "order_ok i"
  shows "kept n tok Q X (deny_next y i k)"
proof (cases "k < length (denying (nt_tasks y))")
  case True
  let ?a = "fst (task_step (nt_tasks y) (i, DenyNext k))"
  have a: "tasks_ok X (n_crypto n) ?a" using ok io by (intro task_step_ok) (simp_all add: nt_ok_def)
  have fl: "list_all2 (\<lambda>rq pc. takes_down rq (deny_hash pc)) (nt_denies y) (denying (nt_tasks y))"
    using ok by (simp add: nt_ok_def flight_ok_def)
  obtain r s where d: "deny_step i (nt_store y) (denying (nt_tasks y) ! k) = (r, s)" by fastforce
  show ?thesis
  proof (cases r)
    case (Inl pc)
    have "list_all2 (\<lambda>rq pc. takes_down rq (deny_hash pc)) ((nt_denies y)[k := nt_denies y ! k]) ((denying (nt_tasks y))[k := pc])"
      using fl True deny_step_hash [of i "nt_store y"] d Inl
      by (intro list_all2_update_cong) (auto simp: list_all2_conv_all_nth)
    then show ?thesis
      using True d Inl ok a by (simp add: deny_next_def kept_def nt_ok_def flight_ok_def)
  next
    case (Inr x)
    have "takes_down (nt_denies y ! k) (deny_hash (denying (nt_tasks y) ! k))"
      using fl True by (auto simp: list_all2_conv_all_nth)
    then show ?thesis
      using True d Inr ok a list_all2_drop_nth [OF fl, of k]
      by (simp add: deny_next_def kept_def nt_ok_def flight_ok_def takes_down_good)
  qed
qed (use ok in \<open>simp add: deny_next_def kept_def\<close>)

text \<open>Changes of the gateway's state alone.\<close>

lemma sys_ok_conns:
  assumes "sys_ok n tok Q {} (blank v)"
  shows "sys_ok n tok Q {} (blank (v\<lparr>s_gw := (s_gw v)\<lparr>conns := k\<rparr>\<rparr>))"
proof -
  have "pc_verified (n_crypto n) (s_pc v)" using assms by (simp add: sys_ok_def)
  then show ?thesis by (intro sys_ok_blank_pc [OF assms]) simp_all
qed

lemma release_fields [simp]:
  "nt_tasks (release y) = nt_tasks y" "nt_denies (release y) = nt_denies y" "nt_reads (release y) = nt_reads y"
  "nt_gets (release y) = nt_gets y" "nt_lookups (release y) = nt_lookups y" "nt_heads (release y) = nt_heads y"
  "nt_serves (release y) = nt_serves y" "s_p2p (nt_sys (release y)) = s_p2p (nt_sys y)"
  by (simp_all add: release_def)

lemma release_ok [simp]: "nt_ok n tok Q X y \<Longrightarrow> nt_ok n tok Q X (release y)"
  by (simp add: nt_ok_def flight_ok_def) (simp add: release_def sys_ok_conns)

lemma list_all_nth: "list_all P xs \<Longrightarrow> k < length xs \<Longrightarrow> P (xs ! k)"
  by (simp add: list_all_length)

lemma get_reply_kept:
  "nt_ok n tok Q X y \<Longrightarrow> gw_norm hash = Some h \<Longrightarrow> kept n tok Q X (get_reply n y hs hash h body)"
  by (simp add: get_reply_def kept_def get_finish_good del: good_reply.simps)

lemma get_start_kept:
  assumes "nt_ok n tok Q X y"
  shows "kept n tok Q X (get_start y hs hash)"
  using assms by (auto simp: get_start_def kept_def nt_ok_def flight_ok_def text_reply_def Let_def split: option.split)

lemma get_permit_kept:
  assumes ok: "nt_ok n tok Q X y"
  shows "kept n tok Q X (get_permit y k)"
proof (cases "k < length (nt_gets y)")
  case True
  obtain hs hash h where g: "nt_gets y ! k = (hs, hash, h)" by (cases "nt_gets y ! k")
  have "gw_norm hash = Some h"
    using ok True list_all_nth [of _ "nt_gets y" k] g by (fastforce simp: nt_ok_def flight_ok_def)
  with True ok g list_all_drop_nth [of "\<lambda>(hs, hash, h). gw_norm hash = Some h" "nt_gets y" k] show ?thesis
    by (auto simp: get_permit_def kept_def nt_ok_def flight_ok_def text_reply_def sys_ok_conns Let_def)
qed (use ok in \<open>simp add: get_permit_def kept_def\<close>)

text \<open>A lookup either starts a read or has found nothing.\<close>

lemma read_call_cases:
  assumes "tasks_ok X c a"
  obtains "task_step a (i, ReadCall m) = (a, [ReadReturns (norm m) None])"
  | "task_step a (i, ReadCall m) = (a\<lparr>reading := reading a @ [norm m]\<rparr>, [])" "norm m \<in> dom (index (shared a))"
      "tasks_ok X c (a\<lparr>reading := reading a @ [norm m]\<rparr>)"
proof (cases "is_valid_hash (norm m) \<and> norm m \<in> dom (index (shared a))")
  case True
  then have "task_step a (no_io, ReadCall m) = (a\<lparr>reading := reading a @ [norm m]\<rparr>, [])" by (simp add: Let_def)
  then have "tasks_ok X c (a\<lparr>reading := reading a @ [norm m]\<rparr>)"
    using task_step_ok [OF assms, of "(no_io, ReadCall m)"] by simp
  with True that(2) show thesis by (simp add: Let_def)
next
  case False
  with that(1) show thesis by (auto simp: Let_def)
qed

lemma get_lookup_kept:
  assumes ok: "nt_ok n tok Q X y"
  shows "kept n tok Q X (get_lookup n y k)"
proof (cases "k < length (nt_lookups y)")
  case True
  obtain hs hash h where g: "nt_lookups y ! k = (hs, hash, h)" by (cases "nt_lookups y ! k")
  have h: "gw_norm hash = Some h"
    using ok True list_all_nth [of _ "nt_lookups y" k] g by (fastforce simp: nt_ok_def flight_ok_def)
  then have "norm h = h" by (auto dest: gw_norm_Some)
  let ?y = "y\<lparr>nt_lookups := drop_nth k (nt_lookups y)\<rparr>"
  have ok': "nt_ok n tok Q X ?y"
    using ok list_all_drop_nth [of "\<lambda>(hs, hash, h). gw_norm hash = Some h" "nt_lookups y" k]
    by (simp add: nt_ok_def flight_ok_def)
  have "tasks_ok X (n_crypto n) (nt_tasks y)" using ok by (simp add: nt_ok_def)
  then show ?thesis
  proof (cases rule: read_call_cases [where i = no_io and m = h])
    case 1
    then show ?thesis using True g get_reply_kept [OF ok' h] by (simp add: get_lookup_def del: task_step.simps)
  next
    case 2
    with True g ok' h \<open>norm h = h\<close> show ?thesis
      by (simp add: get_lookup_def kept_def nt_ok_def flight_ok_def del: task_step.simps)
  qed
qed (use ok in \<open>simp add: get_lookup_def kept_def\<close>)

lemma head_start_kept:
  assumes "nt_ok n tok Q X y"
  shows "kept n tok Q X (head_start y hash)"
  using assms by (auto simp: head_start_def kept_def nt_ok_def flight_ok_def Let_def split: option.split)

lemma head_lookup_kept:
  assumes ok: "nt_ok n tok Q X y"
  shows "kept n tok Q X (head_lookup y k)"
proof (cases "k < length (nt_heads y)")
  case True
  obtain hash h where g: "nt_heads y ! k = (hash, h)" by (cases "nt_heads y ! k")
  have "gw_norm hash = Some h"
    using ok True list_all_nth [of _ "nt_heads y" k] g by (fastforce simp: nt_ok_def flight_ok_def)
  then have "lower_hex64 h" by (auto dest: gw_norm_Some)
  then have "\<exists>r. head_finish h (store_has (nt_store y) h) = Some r"
    by (auto simp: head_finish_def content_headers_Some split: option.split)
  with True ok g list_all_drop_nth [of "\<lambda>(hash, h). gw_norm hash = Some h" "nt_heads y" k] show ?thesis
    by (auto simp: head_lookup_def kept_def nt_ok_def flight_ok_def)
qed (use ok in \<open>simp add: head_lookup_def kept_def\<close>)

lemma serve_check_kept:
  assumes "nt_ok n tok Q X y"
  shows "kept n tok Q X (serve_check y k, [])"
  using assms by (auto simp: serve_check_def kept_def nt_ok_def flight_ok_def split: prod.split)

lemma list_all_update: "list_all P xs \<Longrightarrow> P x \<Longrightarrow> list_all P (xs[i := x])"
  using set_update_subset_insert [of xs i x] by (auto simp: list_all_iff)

lemma serve_lookup_kept:
  assumes ok: "nt_ok n tok Q X y"
  shows "kept n tok Q X (serve_lookup y j, [])"
proof (cases "j < length (nt_serves y) \<and> (\<exists>channel m. nt_serves y ! j = (channel, m, ServeChecked))")
  case True
  then obtain channel m where j: "j < length (nt_serves y)" "nt_serves y ! j = (channel, m, ServeChecked)" by auto
  have s: "list_all (serve_ok (n_crypto n)) (nt_serves y)" using ok by (simp add: nt_ok_def flight_ok_def)
  have "tasks_ok X (n_crypto n) (nt_tasks y)" using ok by (simp add: nt_ok_def)
  then show ?thesis
  proof (cases rule: read_call_cases [where i = no_io and m = m])
    case 1
    with j ok list_all_update [OF s, of "(channel, m, ServeReady None)" j] show ?thesis
      by (simp add: serve_lookup_def kept_def nt_ok_def flight_ok_def del: task_step.simps)
  next
    case 2
    with j ok list_all_drop_nth [OF s, of j] show ?thesis
      by (simp add: serve_lookup_def kept_def nt_ok_def flight_ok_def del: task_step.simps)
  qed
next
  case False
  then have "serve_lookup y j = y" by (auto simp: serve_lookup_def split: prod.splits serve_pc.splits)
  with ok show ?thesis by (simp add: kept_same)
qed

lemma sys_ok_finish:
  assumes "sys_ok n tok Q {} (blank v)"
    and "\<And>b. k < length (serving (s_p2p v)) \<Longrightarrow> body = Some b \<Longrightarrow> sha256_hex (n_crypto n) b = norm (snd (serving (s_p2p v) ! k))"
  shows "sys_ok n tok Q {} (blank (v\<lparr>s_p2p := serve_finish (s_p2p v) k body\<rparr>))"
proof -
  have view: "p2p_view (blank (v\<lparr>s_p2p := serve_finish (s_p2p v) k body\<rparr>)) = serve_finish (p2p_view (blank v)) k body"
    by (simp add: p2p_view_def blank_def serve_finish_def)
  have "serves_ok (n_crypto n) Q {} (serve_finish (p2p_view (blank v)) k body)"
    using assms by (intro serves_ok_finish) (auto simp: sys_ok_def body_ok_def)
  moreover have "p2p_inv (serve_finish (p2p_view (blank v)) k body)"
    using assms(1) by (intro inv_serve_finish) (simp add: sys_ok_def)
  moreover have "pending (serve_finish (s_p2p v) k body) = pending (s_p2p v)" "running (serve_finish (s_p2p v) k body) = running (s_p2p v)"
    by (simp_all add: serve_finish_def)
  moreover from this(1) have "waiting (serve_finish (s_p2p v) k body) = waiting (s_p2p v)" by (rule waiting_same)
  ultimately show ?thesis
    using assms(1) unfolding sys_ok_def view
    by (auto simp: want_ok_def gw_inv_def pending_wanted_def waiting_same [of "_\<lparr>p_store := _\<rparr>"])
qed

lemma serve_send_kept:
  assumes ok: "nt_ok n tok Q X y"
  shows "kept n tok Q X (serve_send y j k, [])"
proof -
  let ?p = "s_p2p (nt_sys y)"
  show ?thesis
  proof (cases "serve_send y j k = y")
    case True
    with ok show ?thesis by (simp add: kept_same)
  next
    case False
    obtain channel m pc where s: "nt_serves y ! j = (channel, m, pc)" by (cases "nt_serves y ! j")
    with False obtain body where send: "pc = ServeReady body" "j < length (nt_serves y)" "serving ?p ! k = (channel, m)"
      "serve_send y j k = y\<lparr>nt_sys := (nt_sys y)\<lparr>s_p2p := serve_finish ?p k body\<rparr>, nt_serves := drop_nth j (nt_serves y)\<rparr>"
      by (cases pc) (auto simp: serve_send_def Let_def split: if_splits)
    have all: "list_all (serve_ok (n_crypto n)) (nt_serves y)" using ok by (simp add: nt_ok_def flight_ok_def)
    have "sys_ok n tok Q {} (blank ((nt_sys y)\<lparr>s_p2p := serve_finish ?p k body\<rparr>))"
      using ok list_all_nth [OF all send(2)] s send(1,3) by (intro sys_ok_finish) (simp_all add: nt_ok_def)
    with ok list_all_drop_nth [OF all, of j] show ?thesis
      unfolding send(4) by (simp add: kept_def nt_ok_def flight_ok_def)
  qed
qed

lemma read_file_kept:
  assumes ok: "nt_ok n tok Q X y"
  shows "kept n tok Q X (read_file n y k r)"
proof (cases "k < length (reading (nt_tasks y))")
  case True
  let ?h = "reading (nt_tasks y) ! k"
  let ?body = "fs_read r (blob_path ?h) (files (nt_store y))"
  let ?a = "(nt_tasks y)\<lparr>reading := drop_nth k (reading (nt_tasks y))\<rparr>"
  let ?y = "y\<lparr>nt_tasks := ?a, nt_reads := drop_nth k (nt_reads y)\<rparr>"
  have tasks: "tasks_ok X (n_crypto n) (nt_tasks y)" and reads: "map reader_hash (nt_reads y) = reading (nt_tasks y)"
    "list_all reader_ok (nt_reads y)" using ok by (simp_all add: nt_ok_def flight_ok_def)
  have len: "k < length (nt_reads y)" using True reads(1) by (metis length_map)
  have hash: "reader_hash (nt_reads y ! k) = ?h" using reads(1) len by (metis nth_map)
  have step: "task_step (nt_tasks y) (no_io, ReadNext k r) = (?a, [ReadReturns ?h ?body])" using True by simp
  then have "tasks_ok X (n_crypto n) ?a" using task_step_ok [OF tasks, of "(no_io, ReadNext k r)"] by simp
  moreover have "map reader_hash (drop_nth k (nt_reads y)) = drop_nth k (reading (nt_tasks y))"
    using reads(1) by (simp add: drop_nth_eq_map)
  ultimately have ok': "nt_ok n tok Q X ?y"
    using ok list_all_drop_nth [OF reads(2), of k] by (simp add: nt_ok_def flight_ok_def)
  show ?thesis
  proof (cases "nt_reads y ! k")
    case (GetReader hs hash g)
    then have "gw_norm hash = Some g" using list_all_nth [OF reads(2) len] by simp
    with step GetReader get_reply_kept [OF ok'] show ?thesis by (simp add: read_file_def Let_def del: task_step.simps)
  next
    case (ServeReader channel m)
    have "sha256_hex (n_crypto n) b = norm m" if "?body = Some b" for b
      using read_returns [OF tasks, of ?h b "(no_io, ReadNext k r)"] step that hash ServeReader by simp
    then have "serve_ok (n_crypto n) (channel, m, ServeReady ?body)" by (cases ?body) simp_all
    with step ServeReader ok' show ?thesis
      by (simp add: read_file_def kept_def nt_ok_def flight_ok_def Let_def del: task_step.simps)
  qed
qed (use ok in \<open>simp add: read_file_def kept_def\<close>)

lemma sys_ok_stored:
  assumes ok: "sys_ok n tok Q {} (blank v)"
  shows "sys_ok n tok Q {} (blank (pin_stored v r))"
proof (cases "s_pc v")
  case (Storing p b via ps)
  with ok show ?thesis by (cases r) (auto simp: pin_stored_def fail_pin_def intro!: sys_ok_blank_pc [OF ok])
qed (use ok in \<open>simp_all add: pin_stored_def\<close>)

text \<open>A put that takes a step: it goes on, or it returns to the ingest task.\<close>

lemma put_returns_kept:
  assumes ok: "nt_ok n tok Q X y" and step: "task_step (nt_tasks y) e = (a, outs)" and legal: "task_legal (n_crypto n) e"
    and put: "snd e = PutNext \<or> (\<exists>hash b. snd e = PutCall hash b)"
  shows "kept n tok Q X (put_returns y (task_step (nt_tasks y) e), [])"
proof -
  have a: "tasks_ok X (n_crypto n) a" using ok task_step_ok [OF _ legal, of X "nt_tasks y"] step by (simp add: nt_ok_def)
  have same: "denying a = denying (nt_tasks y) \<and> reading a = reading (nt_tasks y) \<and> (outs = [] \<or> (\<exists>r. outs = [PutReturns r]))"
    using put step by (cases e) (auto simp: Let_def split: option.splits if_splits prod.splits sum.splits)
  then consider "outs = []" | r where "outs = [PutReturns r]" by blast
  then show ?thesis
  proof cases
    case 1
    with ok step a same show ?thesis by (simp add: put_returns_def kept_def nt_ok_def flight_ok_def)
  next
    case 2
    with ok step a same show ?thesis by (simp add: put_returns_def kept_def nt_ok_def flight_ok_def sys_ok_stored)
  qed
qed

lemma put_start_kept:
  assumes ok: "nt_ok n tok Q X y" and "order_ok i"
  shows "kept n tok Q X (put_start y i, [])"
proof (cases "s_pc (nt_sys y)")
  case (Storing p b via ps)
  obtain a outs where s: "task_step (nt_tasks y) (i, PutCall (payload_hash p) b) = (a, outs)" by fastforce
  have "sha256_hex (n_crypto n) b = norm (payload_hash p)" using ok Storing by (simp add: nt_ok_def sys_ok_def)
  then show ?thesis
    using put_returns_kept [OF ok s] assms(2) Storing by (simp add: put_start_def del: task_step.simps)
qed (use ok in \<open>simp_all add: put_start_def kept_same\<close>)

lemma put_next_kept:
  assumes ok: "nt_ok n tok Q X y" and "order_ok i"
  shows "kept n tok Q X (put_next y i, [])"
proof -
  obtain a outs where "task_step (nt_tasks y) (i, PutNext) = (a, outs)" by fastforce
  from put_returns_kept [OF ok this] assms(2) show ?thesis by (simp add: put_next_def del: task_step.simps)
qed

text \<open>Dropped handlers.\<close>

lemma pcs_ok_dropped:
  "pcs_ok c a \<Longrightarrow> pcs_ok c (a\<lparr>denying := drop_nth k (denying a)\<rparr>) \<and> pcs_ok c (a\<lparr>reading := drop_nth k (reading a)\<rparr>)"
  by (simp add: pcs_ok_def list_all_drop_nth split: option.splits)

lemma dropped_kept:
  assumes ok: "nt_ok n tok Q X y"
  shows "kept n tok Q X (drop_deny y k, [])" and "kept n tok Q X (y\<lparr>nt_gets := drop_nth k (nt_gets y)\<rparr>, [])"
    and "kept n tok Q X (drop_lookup y k, [])" and "kept n tok Q X (drop_read y k, [])"
    and "kept n tok Q X (y\<lparr>nt_heads := drop_nth k (nt_heads y)\<rparr>, [])"
proof -
  have pcs: "pcs_ok (n_crypto n) (nt_tasks y)" using ok by (simp add: nt_ok_def tasks_ok_def)
  show "kept n tok Q X (drop_deny y k, [])"
    using ok pcs_ok_dropped [OF pcs, of k] by (simp add: drop_deny_def kept_def nt_ok_def flight_ok_def tasks_ok_def list_all2_drop_nth)
  show "kept n tok Q X (y\<lparr>nt_gets := drop_nth k (nt_gets y)\<rparr>, [])" "kept n tok Q X (y\<lparr>nt_heads := drop_nth k (nt_heads y)\<rparr>, [])"
    using ok by (simp_all add: kept_def nt_ok_def flight_ok_def list_all_drop_nth)
  have "nt_ok n tok Q X (y\<lparr>nt_lookups := drop_nth k (nt_lookups y)\<rparr>)"
    using ok by (simp add: nt_ok_def flight_ok_def list_all_drop_nth)
  then show "kept n tok Q X (drop_lookup y k, [])" using ok by (simp add: drop_lookup_def kept_same)
  let ?y = "y\<lparr>nt_tasks := (nt_tasks y)\<lparr>reading := drop_nth k (reading (nt_tasks y))\<rparr>, nt_reads := drop_nth k (nt_reads y)\<rparr>"
  have "map reader_hash (drop_nth k (nt_reads y)) = drop_nth k (reading (nt_tasks y))"
    using ok by (simp add: drop_nth_eq_map nt_ok_def flight_ok_def)
  then have "nt_ok n tok Q X ?y"
    using ok pcs_ok_dropped [OF pcs, of k] by (simp add: nt_ok_def flight_ok_def tasks_ok_def list_all_drop_nth)
  then show "kept n tok Q X (drop_read y k, [])" using ok by (auto simp: drop_read_def kept_same split: reader.split)
qed

lemma cut_kept:
  assumes ok: "nt_ok n tok Q X y"
  shows "order_ok i \<Longrightarrow> h \<in> X \<Longrightarrow> kept n tok Q X (cut_deny y c i k h, [])"
    and "order_ok (env_io e) \<Longrightarrow> norm hash \<in> X \<Longrightarrow> kept n tok Q X (cut_allow y c e hs hash, [])"
proof -
  have tasks: "tasks_ok X (n_crypto n) (nt_tasks y)" using ok by (simp add: nt_ok_def)
  show "kept n tok Q X (cut_deny y c i k h, [])" if "order_ok i" "h \<in> X"
  proof (cases "k < length (denying (nt_tasks y)) \<and> denying (nt_tasks y) ! k = DenySet h")
    case True
    then have "lower_hex64 h" using tasks list_all_nth [of _ "denying (nt_tasks y)" k] by (fastforce simp: tasks_ok_def pcs_ok_def)
    then have "norm h = h" by (rule norm_lower_hex64)
    with ok cut_tasks_ok(1) [OF tasks that(1), of h c] that(2)
    have "nt_ok n tok Q X (y\<lparr>nt_tasks := (nt_tasks y)\<lparr>shared := deny_cut c i (nt_store y) h\<rparr>\<rparr>)"
      by (simp add: nt_ok_def flight_ok_def)
    from dropped_kept(1) [OF this, of k] True show ?thesis by (simp add: cut_deny_def)
  next
    case False
    then have "cut_deny y c i k h = y" by (auto simp: cut_deny_def)
    with ok show ?thesis by (simp add: kept_same)
  qed
  show "kept n tok Q X (cut_allow y c e hs hash, [])" if io: "order_ok (env_io e)" and X: "norm hash \<in> X"
  proof -
    have "nt_ok n tok Q X (y\<lparr>nt_tasks := (nt_tasks y)\<lparr>shared := allow_cut c (env_io e) (nt_store y) h\<rparr>\<rparr>)"
      if "gw_norm hash = Some h" for h
    proof -
      have "norm h \<in> X" using gw_norm_Some [OF that] X by metis
      from cut_tasks_ok(2) [OF tasks io this, of c] ok show ?thesis by (simp add: nt_ok_def flight_ok_def)
    qed
    with ok show ?thesis by (auto simp: cut_allow_def kept_same split: option.split)
  qed
qed

lemma tasks_step_ok:
  assumes ok: "nt_ok n tok Q X y" and legal: "tasks_legal ev" and asked: "tasks_asks ev \<subseteq> Q" and cuts: "tasks_cuts ev \<subseteq> X"
  shows "kept n tok Q X (tasks_node_step n y ev)"
proof (cases "(n, y, ev)" rule: tasks_node_step.cases)
  case (1 n' y' ev')
  with assms whole_kept [OF ok] show ?thesis by (simp add: kept_same)
next
  case (2 n' y' e hs hash)
  with assms deny_start_kept [OF ok, of e "DeleteContent hs hash" hash hs] show ?thesis by simp
next
  case (3 n' y' e hs hash)
  with assms deny_start_kept [OF ok, of e "PostDeny hs hash" hash hs] show ?thesis by simp
qed (use assms in \<open>simp_all add: kept_same deny_next_kept get_start_kept get_permit_kept get_lookup_kept head_start_kept
       head_lookup_kept serve_check_kept serve_lookup_kept serve_send_kept read_file_kept put_start_kept put_next_kept
       dropped_kept cut_kept\<close>)

section \<open>Runs\<close>

lemma tasks_node_run_append:
  "tasks_node_run n y (es @ fs) = (let (y1, o1) = tasks_node_run n y es; (y2, o2) = tasks_node_run n y1 fs in (y2, o1 @ o2))"
  by (induction es arbitrary: y) (auto simp: Let_def split: prod.splits)

lemma tasks_run_induct:
  assumes "I y"
    and step: "\<And>y e. I y \<Longrightarrow> e \<in> set es \<Longrightarrow> I (fst (tasks_node_step n y e)) \<and> (\<forall>x \<in> set (snd (tasks_node_step n y e)). P x)"
  shows "I (fst (tasks_node_run n y es)) \<and> (\<forall>x \<in> set (snd (tasks_node_run n y es)). P x)"
  using assms
proof (induction es arbitrary: y)
  case (Cons e es)
  obtain y1 o1 where 1: "tasks_node_step n y e = (y1, o1)" by fastforce
  obtain y2 o2 where 2: "tasks_node_run n y1 es = (y2, o2)" by fastforce
  have a: "I y1 \<and> (\<forall>x \<in> set o1. P x)" using Cons.prems(2) [OF Cons.prems(1), of e] 1 by simp
  then have "I (fst (tasks_node_run n y1 es)) \<and> (\<forall>x \<in> set (snd (tasks_node_run n y1 es)). P x)"
    using Cons.prems(2) by (intro Cons.IH) auto
  with a 1 2 show ?case by auto
qed simp

definition tasks_cut :: "tasks_event list \<Rightarrow> string set" where
  "tasks_cut es = (\<Union>ev \<in> set es. tasks_cuts ev)"

definition tasks_asked :: "tasks_event list \<Rightarrow> (nat \<times> string) set" where
  "tasks_asked es = (\<Union>ev \<in> set es. tasks_asks ev)"

lemma tasks_node_run_ok:
  assumes "nt_ok n tok Q X y" and "list_all tasks_legal es" and "tasks_asked es \<subseteq> Q" and "tasks_cut es \<subseteq> X"
  shows "kept n tok Q X (tasks_node_run n y es)"
proof -
  have "nt_ok n tok Q X (fst (tasks_node_run n y es)) \<and> (\<forall>x \<in> set (snd (tasks_node_run n y es)). good_out (n_crypto n) Q x)"
  proof (rule tasks_run_induct)
    fix y e assume y: "nt_ok n tok Q X y" and e: "e \<in> set es"
    then have "tasks_legal e" "tasks_asks e \<subseteq> Q" "tasks_cuts e \<subseteq> X" using assms(2-4) by (auto simp: list_all_iff tasks_asked_def tasks_cut_def)
    from tasks_step_ok [OF y this]
    show "nt_ok n tok Q X (fst (tasks_node_step n y e)) \<and> (\<forall>x \<in> set (snd (tasks_node_step n y e)). good_out (n_crypto n) Q x)"
      by (simp add: kept_def)
  qed (rule assms(1))
  then show ?thesis by (simp add: kept_def)
qed

interpretation tasks_node: machine "\<lambda>y e. fst (tasks_node_step n y e)" tasks_legal "nt_ok n tok UNIV UNIV"
  for n :: node and tok :: "string option"
  by unfold_locales (use tasks_step_ok in \<open>auto simp: kept_def\<close>)

end
