(* ===== verification/Node_Tasks_Run.thy ===== *)
theory Node_Tasks_Run
  imports Node_Tasks_Inv
begin

text \<open>
  The node with overlapping handlers from its start on, and after a takedown: what was under way at that moment is
  all that can still carry the hash.
\<close>

section \<open>The start\<close>

lemma scan_dir_removes: "scan_dir i dn es d idx t = (r, d') \<Longrightarrow> d' f = d f \<or> d' f = None"
proof (induction es arbitrary: d idx t)
  case (Cons e es)
  show ?case
  proof (cases "\<exists>name h. e = Some name \<and> strip_suffix ''.bin'' name = Some h \<and> is_valid_hash h \<and> h \<in> dn")
    case True
    then obtain name where "d' f = fs_remove (rm_ok i name) name d f \<or> d' f = None"
      using Cons.prems Cons.IH by fastforce
    then show ?thesis by (auto simp: fs_remove_def split: if_splits)
  next
    case False
    with Cons.prems show ?thesis
      by (cases e) (auto simp: Let_def split: option.splits if_splits dest: Cons.IH)
  qed
qed simp

lemma store_open_removes: "store_open i d = (Inr s, d') \<Longrightarrow> files s f = d f \<or> files s f = None"
proof -
  assume "store_open i d = (Inr s, d')"
  then obtain idx t where "scan_dir i (load_denylist (denylist_ok i) d) (listing i) d Map.empty 0 = (Inr (idx, t), files s)"
    by (auto simp: store_open_def Let_def split: if_splits prod.splits sum.splits)
  then show ?thesis by (rule scan_dir_removes)
qed

lemma started_certified:
  assumes "fst (node_start oi cfg dir) = Inr s" and "honest_dir c dir"
  shows "disk_certified c (files s)"
proof -
  obtain t d' where t: "store_open oi dir = (Inr t, d')" "s = with_max_bytes t (store_cap cfg)"
    using assms(1) by (cases "store_open oi dir") (auto simp: node_start_def split: sum.splits)
  have "files s f = dir f \<or> files s f = None" for f using store_open_removes [OF t(1), of f] by (simp add: t(2) with_max_bytes_def)
  with assms(2) show ?thesis
    unfolding disk_certified_def honest_dir_def by (metis lower_hex64_valid option.distinct(1))
qed

lemma sys_ok_blanked:
  assumes "sys_ok n tok Q D y"
  shows "sys_ok n tok Q {} (blank y)"
proof -
  have views: "p2p_view (blank y) = (p2p_view y)\<lparr>p_store := empty_store\<rparr>" "gw_view (blank y) = (gw_view y)\<lparr>gw_store := empty_store\<rparr>"
    by (simp_all add: p2p_view_def gw_view_def blank_def)
  have "certified (n_crypto n) empty_store" by (simp add: certified_def empty_store_def)
  with assms show ?thesis
    unfolding sys_ok_def views
    by (auto simp: gw_inv_def p2p_inv_def serves_ok_def body_ok_def want_ok_def pending_wanted_def waiting_same [of "_\<lparr>p_store := _\<rparr>"])
qed

lemma at_rest_ok:
  assumes "node_boot be oi n dir d = (Inr (y, outs), d')" and "clean_listing oi dir" and "honest_dir (n_crypto n) dir"
  shows "nt_ok n (config_token (n_config n)) Q X (at_rest y)"
proof -
  have sys: "sys_ok n (config_token (n_config n)) Q {} y" using assms by (rule node_boot_ok) simp
  obtain s where "fst (node_start oi (n_config n) dir) = Inr s" "s_store y = s" using assms(1) by (rule node_boot_cases)
  then have "disk_certified (n_crypto n) (files (s_store y))" using started_certified assms(3) by blast
  then have "tasks_ok X (n_crypto n) (idle (s_store y))" using sys_ok_store [OF sys] by (intro idle_ok) simp_all
  with sys_ok_blanked [OF sys] show ?thesis by (simp add: nt_ok_def at_rest_def flight_ok_def idle_def)
qed

section \<open>How the tasks on the store move\<close>

declare task_step.simps [simp del]

fun tasks_lifts :: "string option \<Rightarrow> tasks_event \<Rightarrow> string \<Rightarrow> bool" where
  "tasks_lifts tok (Whole ev) h = node_lifts tok ev h"
| "tasks_lifts tok (CutAllow c e hs hash) h = authorised_allow tok (Serve e (PostAllow hs hash)) h"
| "tasks_lifts tok ev h = False"

lemma moves:
  "nt_tasks (fst (deny_next y i k)) = fst (task_step (nt_tasks y) (i, DenyNext k))"
  "nt_tasks (put_next y i) = fst (task_step (nt_tasks y) (i, PutNext))"
  "nt_tasks (fst (get_start y hs hash)) = nt_tasks y" "nt_tasks (fst (get_permit y k)) = nt_tasks y"
  "nt_tasks (fst (head_start y hash)) = nt_tasks y" "nt_tasks (fst (head_lookup y k)) = nt_tasks y"
  "nt_tasks (serve_check y k) = nt_tasks y" "nt_tasks (serve_send y k l) = nt_tasks y" "nt_tasks (drop_lookup y k) = nt_tasks y"
  by (auto simp: deny_next_def put_next_def put_returns_def get_start_def get_permit_def head_start_def head_lookup_def
      serve_check_def serve_send_def drop_lookup_def Let_def
      split: prod.split option.split list.split task_out.split serve_pc.split)

lemma moves_start:
  "nt_tasks (fst (deny_start y e rq hs hash)) = nt_tasks y \<or>
    (\<exists>h. nt_tasks (fst (deny_start y e rq hs hash)) = fst (task_step (nt_tasks y) (env_io e, DenyCall h)))"
  "nt_tasks (put_start y i) = nt_tasks y \<or>
    (\<exists>hash b. nt_tasks (put_start y i) = fst (task_step (nt_tasks y) (i, PutCall hash b)))"
  by (auto simp: deny_start_def put_start_def put_returns_def
      split: prod.split option.split list.split task_out.split ingest_pc.split) (metis fst_conv)+

lemma moves_read:
  "nt_tasks (fst (get_lookup n y k)) = nt_tasks y \<or>
    (\<exists>h. nt_tasks (fst (get_lookup n y k)) = fst (task_step (nt_tasks y) (no_io, ReadCall h)))"
  "nt_tasks (serve_lookup y k) = nt_tasks y \<or>
    (\<exists>h. nt_tasks (serve_lookup y k) = fst (task_step (nt_tasks y) (no_io, ReadCall h)))"
  "nt_tasks (fst (read_file n y k ok)) = nt_tasks y \<or>
    nt_tasks (fst (read_file n y k ok)) = fst (task_step (nt_tasks y) (no_io, ReadNext k ok))"
  by (auto simp: get_lookup_def get_reply_def serve_lookup_def read_file_def Let_def
      split: prod.split option.split list.split task_out.split serve_pc.split reader.split)
    (metis fst_conv)+

lemma moves_drop:
  "nt_tasks (drop_read y k) = nt_tasks y \<or>
    nt_tasks (drop_read y k) = (nt_tasks y)\<lparr>reading := drop_nth k (reading (nt_tasks y))\<rparr>"
  by (auto simp: drop_read_def split: reader.split)

lemma moves_cut:
  "nt_tasks (cut_deny y c i k g) = nt_tasks y \<or>
    (\<exists>ds. nt_tasks (cut_deny y c i k g) = (nt_tasks y)\<lparr>shared := deny_cut c i (nt_store y) g, denying := ds\<rparr> \<and>
      set ds \<subseteq> set (denying (nt_tasks y)))"
  "nt_tasks (cut_allow y c e hs hash) = nt_tasks y \<or>
    (\<exists>g. nt_tasks (cut_allow y c e hs hash) = (nt_tasks y)\<lparr>shared := allow_cut c (env_io e) (nt_store y) g\<rparr> \<and>
      admin_ok (gw_view (nt_view y)) hs \<and> norm g = norm hash)"
  using set_drop_nth [of k "denying (nt_tasks y)"]
  by (auto simp: cut_deny_def drop_deny_def cut_allow_def split: option.split dest!: gw_norm_Some)

lemma tasks_move:
  assumes ok: "nt_ok n tok Q X y" and lift: "\<not> tasks_lifts tok ev h"
  shows "nt_tasks (fst (tasks_node_step n y ev)) = nt_tasks y \<or>
    (\<exists>e. nt_tasks (fst (tasks_node_step n y ev)) = fst (task_step (nt_tasks y) e) \<and> \<not> allows h e) \<or>
    (\<exists>c i g ds. nt_tasks (fst (tasks_node_step n y ev)) = (nt_tasks y)\<lparr>shared := deny_cut c i (nt_store y) g, denying := ds\<rparr> \<and>
      set ds \<subseteq> set (denying (nt_tasks y))) \<or>
    (\<exists>c i g. nt_tasks (fst (tasks_node_step n y ev)) = (nt_tasks y)\<lparr>shared := allow_cut c i (nt_store y) g\<rparr> \<and> norm g \<noteq> h) \<or>
    (\<exists>k. nt_tasks (fst (tasks_node_step n y ev)) = (nt_tasks y)\<lparr>denying := drop_nth k (denying (nt_tasks y))\<rparr> \<or>
      nt_tasks (fst (tasks_node_step n y ev)) = (nt_tasks y)\<lparr>reading := drop_nth k (reading (nt_tasks y))\<rparr>)"
    (is "?P ev")
proof -
  have step: "\<exists>e. f = fst (task_step (nt_tasks y) e) \<and> \<not> allows h e"
    if "f = fst (task_step (nt_tasks y) (i, e))" and "\<And>hash. e \<noteq> AllowCall hash" for f i e
  proof -
    have "\<not> allows h (i, e)" using that(2) by (cases "(h, (i, e))" rule: allows.cases) auto
    with that(1) show ?thesis by blast
  qed
  note [simp del] = split_paired_Ex
  show ?thesis
  proof (cases "(n, y, ev)" rule: tasks_node_step.cases)
    case (1 n' y' ev')
    show ?thesis
    proof (cases "once ev'")
      case True
      then show ?thesis
      proof (cases rule: whole_step_tasks [where n = n and y = y])
        case (2 e hs hash)
        have "admin_token (gw_view (nt_view y)) = tok" using ok by (simp add: nt_ok_def sys_ok_def gw_inv_def)
        with 1 2 lift have "\<not> allows h (env_io e, AllowCall (norm hash))" by (auto simp: admin_ok_iff)
        moreover have "tasks_node_step n y ev = whole_step n y ev'" using 1 True by simp
        with 2(4) have "nt_tasks (fst (tasks_node_step n y ev)) = fst (task_step (nt_tasks y) (env_io e, AllowCall (norm hash)))"
          by (simp only:)
        ultimately show ?thesis by blast
      qed (use 1 True in simp)
    qed (use 1 in simp)
  next
    case (2 n' y' e hs hash)
    then show ?thesis using moves_start(1) [of y e "DeleteContent hs hash" hs hash] by (auto intro!: step)
  next
    case (3 n' y' e hs hash)
    then show ?thesis using moves_start(1) [of y e "PostDeny hs hash" hs hash] by (auto intro!: step)
  next
    case (8 n' y' k)
    then show ?thesis using moves_read(1) [of n y k] by (auto intro!: step)
  next
    case (12 n' y' k)
    then show ?thesis using moves_read(2) [of y k] by (auto intro!: step)
  next
    case (14 n' y' k ok)
    then show ?thesis using moves_read(3) [of n y k ok] by (auto intro!: step)
  next
    case (15 n' y' i)
    then show ?thesis using moves_start(2) [of y i] by (auto intro!: step)
  next
    case (20 n' y' k)
    then show ?thesis using moves_drop [of y k] by auto
  next
    case (22 n' y' c i k g)
    then have eq: "nt_tasks (fst (tasks_node_step n y ev)) = nt_tasks (cut_deny y c i k g)" by simp
    show ?thesis unfolding eq using moves_cut(1) [of y c i k g] by blast
  next
    case (23 n' y' c e hs hash)
    have tok: "admin_token (gw_view (nt_view y)) = tok" using ok by (simp add: nt_ok_def sys_ok_def gw_inv_def)
    have "norm hash \<noteq> h" if "admin_ok (gw_view (nt_view y)) hs"
      using that lift 23 tok by (auto simp: admin_ok_iff)
    moreover have eq: "nt_tasks (fst (tasks_node_step n y ev)) = nt_tasks (cut_allow y c e hs hash)" using 23 by simp
    ultimately show ?thesis unfolding eq using moves_cut(2) [of y c e hs hash] by metis
  qed (auto simp: moves drop_deny_def intro!: step)
qed

section \<open>A seal holds\<close>

text \<open>
  A hash that is denied; and, unless a put of it was past its denylist check when the takedown returned, sealed.
\<close>

definition barred :: "bool \<Rightarrow> string \<Rightarrow> store_tasks \<Rightarrow> bool" where
  "barred late h a \<longleftrightarrow> h \<in> denied (shared a) \<and> (late \<or> sealed h a)"

lemma denied_step:
  assumes "h \<in> denied (shared a)" and "\<not> allows h e"
  shows "h \<in> denied (shared (fst (task_step a e)))"
proof -
  obtain i ev where e: "e = (i, ev)" by fastforce
  show ?thesis
  proof (cases ev)
    case PutNext
    have "denied s' = denied s" if "put_step i s pc = (r, s')" for r s' s pc
      using that by (cases pc) (auto simp: Let_def split: if_splits prod.splits bool.splits)
    with assms(1) e PutNext show ?thesis
      by (auto simp: task_step.simps split: option.split prod.split sum.split)
  next
    case (DenyNext k)
    have "h \<in> denied s'" if "deny_step i s pc = (r, s')" "h \<in> denied s" for r s' s pc
      using that by (cases pc) (auto simp: Let_def split: if_splits option.splits prod.splits sum.splits)
    with assms(1) e DenyNext show ?thesis
      by (auto simp: task_step.simps split: prod.split sum.split)
  next
    case (AllowCall hash)
    obtain r s' where p: "store_allow i (shared a) hash = (r, s')" by fastforce
    then have "h \<in> denied s'"
    proof (cases rule: store_allow_cases)
    qed (use assms e AllowCall in auto)
    with e AllowCall p show ?thesis by (simp add: task_step.simps)
  qed (use assms e in \<open>auto simp: task_step.simps Let_def split: option.split\<close>)
qed

lemma barred_step: "barred late h a \<Longrightarrow> \<not> allows h e \<Longrightarrow> barred late h (fst (task_step a e))"
  using denied_step sealed_step unfolding barred_def by blast

lemma tasks_barred:
  assumes "nt_ok n tok Q X y" and "\<not> tasks_lifts tok ev h" and bar: "barred late h (nt_tasks y)"
  shows "barred late h (nt_tasks (fst (tasks_node_step n y ev)))"
proof -
  have "barred late h ((nt_tasks y)\<lparr>denying := ds\<rparr>)" "barred late h ((nt_tasks y)\<lparr>reading := hs\<rparr>)" for ds hs
    using bar by (auto simp: barred_def sealed_def late_put_def)
  moreover have "barred late h ((nt_tasks y)\<lparr>shared := deny_cut c i (nt_store y) g, denying := ds\<rparr>)" for c i g ds
    using bar by (auto simp: barred_def sealed_def late_put_def cut_denied)
  moreover have "barred late h ((nt_tasks y)\<lparr>shared := allow_cut c i (nt_store y) g\<rparr>)" if "norm g \<noteq> h" for c i g
    using bar that by (auto simp: barred_def sealed_def late_put_def cut_denied)
  ultimately show ?thesis using tasks_move [OF assms(1,2)] bar barred_step by metis
qed

text \<open>
  A takedown past its denylist change finds its hash on the denylist, as long as no allow lifts it.
\<close>

definition purges_denied :: "string \<Rightarrow> store_tasks \<Rightarrow> bool" where
  "purges_denied h a \<longleftrightarrow> h \<in> denied (shared a) \<or> (\<forall>pc \<in> set (denying a). deny_hash pc = h \<longrightarrow> pc = DenySet h)"

lemma purges_denied_step:
  assumes "purges_denied h a" and "\<not> allows h e"
  shows "purges_denied h (fst (task_step a e))"
proof (cases "h \<in> denied (shared a)")
  case True
  with denied_step [OF True assms(2)] show ?thesis by (simp add: purges_denied_def)
next
  case False
  then have ds: "\<forall>pc \<in> set (denying a). deny_hash pc = h \<longrightarrow> pc = DenySet h" using assms(1) by (simp add: purges_denied_def)
  obtain i ev where e: "e = (i, ev)" by fastforce
  show ?thesis
  proof (cases ev)
    case (DenyNext k)
    show ?thesis
    proof (cases "k < length (denying a)")
      case True
      let ?pc = "denying a ! k"
      obtain r s' where d: "deny_step i (shared a) ?pc = (r, s')" by fastforce
      have next_pc: "deny_hash pc' = h \<longrightarrow> h \<in> denied s'" if "r = Inl pc'" for pc'
      proof -
        have "deny_hash ?pc = h \<longrightarrow> ?pc = DenySet h" using ds True by simp
        with d that False show ?thesis
          by (cases ?pc) (auto simp: Let_def split: if_splits prod.splits sum.splits option.splits)
      qed
      show ?thesis
      proof (cases r)
        case (Inl pc')
        with next_pc ds d e DenyNext True set_update_subset_insert [of "denying a" k pc'] show ?thesis
          by (auto simp: purges_denied_def task_step.simps)
      next
        case (Inr x)
        with ds d e DenyNext True set_drop_nth [of k "denying a"] show ?thesis
          by (auto simp: purges_denied_def task_step.simps)
      qed
    qed (use assms(1) e DenyNext in \<open>simp add: task_step.simps\<close>)
  qed (use ds e in \<open>auto simp: purges_denied_def task_step.simps Let_def split: option.split prod.split sum.split\<close>)
qed

lemma unlifted_denied:
  assumes "nt_ok n tok UNIV UNIV y" and "purges_denied h (nt_tasks y)" and "list_all tasks_legal es"
    and "list_all (\<lambda>ev. \<not> tasks_lifts tok ev h) es"
  shows "purges_denied h (nt_tasks (fst (tasks_node_run n y es)))"
proof -
  have step: "purges_denied h (nt_tasks (fst (tasks_node_step n z ev)))"
    if "nt_ok n tok UNIV UNIV z" "\<not> tasks_lifts tok ev h" "purges_denied h (nt_tasks z)" for z ev
  proof -
    have "purges_denied h ((nt_tasks z)\<lparr>denying := drop_nth k (denying (nt_tasks z))\<rparr>)" "purges_denied h ((nt_tasks z)\<lparr>reading := hs\<rparr>)" for k hs
      using that(3) set_drop_nth [of k "denying (nt_tasks z)"] by (auto simp: purges_denied_def)
    moreover have "purges_denied h ((nt_tasks z)\<lparr>shared := deny_cut c i (nt_store z) g, denying := ds\<rparr>)"
      if "set ds \<subseteq> set (denying (nt_tasks z))" for c i g ds
      using \<open>purges_denied h (nt_tasks z)\<close> that by (auto simp: purges_denied_def cut_denied)
    moreover have "purges_denied h ((nt_tasks z)\<lparr>shared := allow_cut c i (nt_store z) g\<rparr>)" if "norm g \<noteq> h" for c i g
      using \<open>purges_denied h (nt_tasks z)\<close> that by (auto simp: purges_denied_def cut_denied)
    ultimately show ?thesis using tasks_move [OF that(1,2)] that(3) purges_denied_step by metis
  qed
  have "(nt_ok n tok UNIV UNIV (fst (tasks_node_run n y es)) \<and> purges_denied h (nt_tasks (fst (tasks_node_run n y es)))) \<and>
      (\<forall>x \<in> set (snd (tasks_node_run n y es)). True)"
  proof (rule tasks_run_induct)
    fix z e assume z: "nt_ok n tok UNIV UNIV z \<and> purges_denied h (nt_tasks z)" and "e \<in> set es"
    then have "tasks_legal e" "\<not> tasks_lifts tok e h" using assms(3,4) by (auto simp: list_all_iff)
    with z step tasks_node.step_inv show "(nt_ok n tok UNIV UNIV (fst (tasks_node_step n z e)) \<and>
        purges_denied h (nt_tasks (fst (tasks_node_step n z e)))) \<and> (\<forall>x \<in> set (snd (tasks_node_step n z e)). True)"
      by blast
  qed (use assms(1,2) in simp)
  then show ?thesis by blast
qed

section \<open>What is under way for a hash\<close>

text \<open>
  Who can still answer for a hash: GET and HEAD handlers past the denylist check, GET handlers that read the file, and
  the channels whose serve task reads the file, has read it, or has queued it. If a late put may store the blob again,
  those past the check that have not looked it up may still find it.
\<close>

datatype carrier = GetWaits header_map string | GetReads header_map string | HeadWaits string | HeadFinds string | Serves nat

definition late_carriers :: "string \<Rightarrow> node_tasks \<Rightarrow> carrier set" where
  "late_carriers h y =
     {GetReads hs hash | hs hash. (hs, hash, h) \<in> set (nt_gets y) \<union> set (nt_lookups y)} \<union>
     {HeadFinds hash | hash. (hash, h) \<in> set (nt_heads y)} \<union>
     {Serves channel | channel m. (channel, m, ServeChecked) \<in> set (nt_serves y) \<and> norm m = h}"

definition carriers :: "crypto \<Rightarrow> bool \<Rightarrow> string \<Rightarrow> node_tasks \<Rightarrow> carrier set" where
  "carriers c late h y =
     {GetWaits hs hash | hs hash. (hs, hash, h) \<in> set (nt_gets y) \<union> set (nt_lookups y)} \<union>
     {GetReads hs hash | hs hash. GetReader hs hash h \<in> set (nt_reads y)} \<union>
     {HeadWaits hash | hash. (hash, h) \<in> set (nt_heads y)} \<union>
     {Serves channel | channel m. ServeReader channel m \<in> set (nt_reads y) \<and> norm m = h} \<union>
     {Serves channel | channel m b. (channel, m, ServeReady (Some b)) \<in> set (nt_serves y) \<and> sha256_hex c b = h} \<union>
     {Serves channel | channel b. (channel, RespGet (Some b)) \<in> set (serve_queue (s_p2p (nt_sys y))) \<and> sha256_hex c b = h} \<union>
     (if late then late_carriers h y else {})"

fun from_carriers :: "crypto \<Rightarrow> string \<Rightarrow> carrier set \<Rightarrow> node_out \<Rightarrow> bool" where
  "from_carriers c h F (HttpReply (GetContent hs hash) r) =
     (norm hash = h \<longrightarrow>
        r = Some gone_reply \<or> GetReads hs hash \<in> F \<or>
        GetWaits hs hash \<in> F \<and> (\<exists>x. r = Some x \<and> reply_status x \<in> {404, 503}))"
| "from_carriers c h F (HttpReply (HeadContent hash) r) =
     (norm hash = h \<longrightarrow> r = Some gone_reply \<or> HeadFinds hash \<in> F \<or> HeadWaits hash \<in> F \<and> r = Some (plain 404))"
| "from_carriers c h F (P2pOut (SendResponse channel r)) = (Serves channel \<in> F \<or> \<not> carries c h r)"
| "from_carriers c h F out = True"

lemma from_carriers_mono: "from_carriers c h F x \<Longrightarrow> F \<subseteq> G \<Longrightarrow> from_carriers c h G x"
  by (cases "(c, h, F, x)" rule: from_carriers.cases) auto

text \<open>A step that adds no carrier and answers only for those that there were.\<close>

definition no_more :: "crypto \<Rightarrow> bool \<Rightarrow> string \<Rightarrow> node_tasks \<Rightarrow> node_tasks \<times> node_out list \<Rightarrow> bool" where
  "no_more c late h y r \<longleftrightarrow>
     carriers c late h (fst r) \<subseteq> carriers c late h y \<and> (\<forall>x \<in> set (snd r). from_carriers c h (carriers c late h y) x)"

lemma carriers_mono:
  assumes "set (nt_gets y') \<union> set (nt_lookups y') \<subseteq> set (nt_gets y) \<union> set (nt_lookups y)" and "set (nt_heads y') \<subseteq> set (nt_heads y)"
    and "set (nt_reads y') \<subseteq> set (nt_reads y)" and "set (nt_serves y') \<subseteq> set (nt_serves y)"
    and "set (serve_queue (s_p2p (nt_sys y'))) \<subseteq> set (serve_queue (s_p2p (nt_sys y)))"
  shows "carriers c late h y' \<subseteq> carriers c late h y"
proof -
  have split: "carriers c late h z = carriers c False h z \<union> (if late then late_carriers h z else {})" for z
    by (simp add: carriers_def)
  have "carriers c False h y' \<subseteq> carriers c False h y" using assms unfolding carriers_def if_False by blast
  moreover have "late_carriers h y' \<subseteq> late_carriers h y" using assms unfolding late_carriers_def by blast
  ultimately show ?thesis unfolding split [of y] split [of y'] by auto
qed

end
