(* ===== verification/Node_Tasks_Takedown.thy ===== *)
theory Node_Tasks_Takedown
  imports Node_Tasks_Run
begin

text \<open>
  After a takedown, at the granularity of awaits: every step of the node adds nobody who could still carry the hash,
  and answers with it only for those that were under way.
\<close>

declare task_step.simps [simp del]

text \<open>A serve task that got its body, or has queued it.\<close>

lemma carriers_split: "carriers c late h y = carriers c False h y \<union> (if late then late_carriers h y else {})"
  by (simp add: carriers_def)

lemma carriers_served:
  assumes "set (nt_gets y') \<union> set (nt_lookups y') \<subseteq> set (nt_gets y) \<union> set (nt_lookups y)" and "set (nt_heads y') \<subseteq> set (nt_heads y)"
    and "set (nt_reads y') \<subseteq> set (nt_reads y)" and "set (nt_serves y') \<subseteq> insert (channel, m, ServeReady body) (set (nt_serves y))"
    and "set (serve_queue (s_p2p (nt_sys y'))) \<subseteq> insert (channel, RespGet body) (set (serve_queue (s_p2p (nt_sys y))))"
    and body: "\<And>b. body = Some b \<Longrightarrow> sha256_hex c b = h \<Longrightarrow> Serves channel \<in> carriers c late h y"
  shows "carriers c late h y' \<subseteq> carriers c late h y"
proof -
  let ?S = "{z. z = Serves channel \<and> (\<exists>b. body = Some b \<and> sha256_hex c b = h)}"
  have "carriers c False h y' \<subseteq> carriers c False h y \<union> ?S"
    using assms(1-5) unfolding carriers_def if_False by blast
  moreover have "late_carriers h y' \<subseteq> late_carriers h y"
    using assms(1-5) unfolding late_carriers_def by blast
  moreover have "?S \<subseteq> carriers c late h y" using body by blast
  ultimately show ?thesis
    unfolding carriers_split [of c late h y'] using carriers_split [of c late h y] by (cases late) auto
qed

section \<open>The event loop\<close>

lemma p2p_step_queue:
  assumes "\<And>k. snd e \<noteq> ServeTask k"
  shows "set (serve_queue (fst (p2p_step cfg s e))) \<subseteq> set (serve_queue s) \<and>
    (\<forall>channel b. SendResponse channel (RespGet (Some b)) \<in> set (snd (p2p_step cfg s e)) \<longrightarrow>
      (channel, RespGet (Some b)) \<in> set (serve_queue s))"
proof (cases "(cfg, s, e)" rule: p2p_handle.cases)
  case (10 cfg' s' e' r channel)
  then show ?thesis by (cases r) (auto simp: p2p_step_def Let_def)
qed (use assms in \<open>auto simp: p2p_step_def on_serve_done_def on_want_def on_listen_def on_connected_def on_disconnected_def
       on_response_def on_failure_def Let_def publish_no_response split: option.split list.split\<close>)

lemma run_p2p_queue:
  assumes "\<And>k. snd e \<noteq> ServeTask k"
  shows "set (serve_queue (s_p2p (fst (run_p2p n v e)))) \<subseteq> set (serve_queue (s_p2p v)) \<and>
    (\<forall>channel b. P2pOut (SendResponse channel (RespGet (Some b))) \<in> set (snd (run_p2p n v e)) \<longrightarrow>
      (channel, RespGet (Some b)) \<in> set (serve_queue (s_p2p v))) \<and>
    (\<forall>x \<in> set (snd (run_p2p n v e)). \<exists>out. x = P2pOut out)"
  using p2p_step_queue [OF assms, of "node_cfg n" "p2p_view v"]
  by (auto simp: run_p2p_def split: prod.split)

lemma once_step_queue:
  assumes "once ev"
  shows "set (serve_queue (s_p2p (fst (node_step n v ev)))) \<subseteq> set (serve_queue (s_p2p v)) \<and>
    (\<forall>channel b. P2pOut (SendResponse channel (RespGet (Some b))) \<in> set (snd (node_step n v ev)) \<longrightarrow>
      (channel, RespGet (Some b)) \<in> set (serve_queue (s_p2p v))) \<and>
    (\<forall>x \<in> set (snd (node_step n v ev)). (\<exists>out. x = P2pOut out) \<or>
      (\<exists>rq r. x = HttpReply rq r \<and> (\<forall>hs hash. rq \<noteq> GetContent hs hash) \<and> (\<forall>hash. rq \<noteq> HeadContent hash)))"
proof (cases "(n, v, ev)" rule: node_step.cases)
  case (1 n' y' e rq)
  with assms show ?thesis by (cases rq) (auto split: prod.split)
next
  case (2 n' y' e ev')
  with assms have "snd (e, ev') \<noteq> ServeTask k" for k by (cases ev') auto
  from run_p2p_queue [OF this, of n v] 2 show ?thesis by auto
next
  case (3 n' y' e)
  show ?thesis
  proof (cases "s_cmds v = [] \<or> \<not> running (s_p2p v)")
    case True
    with 3 show ?thesis by (auto split: list.split)
  next
    case False
    then obtain cm cs where c: "s_cmds v = cm # cs" by (cases "s_cmds v") auto
    have "snd (e, cmd_event cm) \<noteq> ServeTask k" for k by (cases cm) auto
    from run_p2p_queue [OF this, of n "v\<lparr>s_cmds := cs\<rparr>"] 3 c False show ?thesis by auto
  qed
qed (use assms in \<open>simp_all add: ingest_step_queue\<close>)

lemma queued_carrier:
  "(channel, RespGet (Some b)) \<in> set (serve_queue (s_p2p (nt_sys y))) \<Longrightarrow> sha256_hex c b = h \<Longrightarrow> Serves channel \<in> carriers c late h y"
  by (auto simp: carriers_def late_carriers_def)

lemma whole_no_more:
  assumes "once ev"
  shows "no_more c late h y (whole_step n y ev)"
proof -
  note q = once_step_queue [OF assms, of n "nt_view y"]
  have "carriers c late h (fst (whole_step n y ev)) \<subseteq> carriers c late h y"
    using q by (intro carriers_mono) simp_all
  moreover have "from_carriers c h (carriers c late h y) x" if x: "x \<in> set (snd (node_step n (nt_view y) ev))" for x
  proof (cases "(c, h, carriers c late h y, x)" rule: from_carriers.cases)
    case (3 c' h' F channel r)
    have "Serves channel \<in> carriers c late h y" if "r = RespGet (Some b)" "sha256_hex c b = h" for b
      using q x 3 that by (intro queued_carrier) auto
    with 3 show ?thesis by (auto simp: carries_def)
  qed (use x q in auto)
  ultimately show ?thesis by (simp add: no_more_def)
qed

section \<open>Handlers\<close>

lemma no_more_same: "no_more c late h y (y, [])"
  by (simp add: no_more_def)


lemma takes_down_from: "takes_down rq k \<Longrightarrow> from_carriers c h F (HttpReply rq r)"
  by (cases rq) simp_all

lemma deny_no_more:
  assumes "takes_down rq k"
  shows "no_more c late h y (deny_start y e rq hs hash)"
  using takes_down_from [OF assms] by (auto simp: deny_start_def no_more_def carriers_def late_carriers_def split: option.split)

lemma deny_next_no_more:
  assumes ok: "nt_ok n tok Q X y"
  shows "no_more c late h y (deny_next y i k)"
proof (cases "k < length (denying (nt_tasks y))")
  case True
  then have "takes_down (nt_denies y ! k) (deny_hash (denying (nt_tasks y) ! k))"
    using ok by (simp add: nt_ok_def flight_ok_def list_all2_conv_all_nth)
  with takes_down_from show ?thesis
    by (auto simp: deny_next_def no_more_def carriers_def late_carriers_def split: prod.split list.split task_out.split)
qed (simp add: deny_next_def no_more_def task_step.simps)

lemma put_no_more: "no_more c late h y (put_start y i, [])" "no_more c late h y (put_next y i, [])"
proof -
  have "no_more c late h y (put_returns y r, [])" for r
  proof -
    have "carriers c late h (put_returns y r) \<subseteq> carriers c late h y"
      by (rule carriers_mono) (auto simp: put_returns_def pin_stored_def fail_pin_def
        split: prod.splits list.splits task_out.splits sum.splits ingest_pc.splits)
    then show ?thesis by (simp add: no_more_def)
  qed
  then show "no_more c late h y (put_start y i, [])" "no_more c late h y (put_next y i, [])"
    by (simp_all add: put_start_def put_next_def no_more_same split: ingest_pc.split)
qed

lemma gw_norm_denied: "gw_norm hash = Some g \<Longrightarrow> g = norm hash \<and> (store_is_denied s g \<longleftrightarrow> g \<in> denied s)"
  unfolding store_is_denied_def using gw_norm_Some by metis

lemma gw_norm_asked: "lower_hex64 h \<Longrightarrow> gw_norm hash = None \<Longrightarrow> norm hash \<noteq> h"
  by (auto simp: gw_norm_eq lower_hex64_valid split: if_splits)

lemma get_start_no_more:
  assumes "barred late h (nt_tasks y)" and "lower_hex64 h"
  shows "no_more c late h y (get_start y hs hash)"
  using assms(1) gw_norm_asked [OF assms(2), of hash]
  by (auto simp: get_start_def no_more_def barred_def carriers_def late_carriers_def gone_reply_def text_reply_def split: option.split
      dest!: gw_norm_denied [of _ _ "nt_store y"])

lemma head_start_no_more:
  assumes "barred late h (nt_tasks y)" and "lower_hex64 h"
  shows "no_more c late h y (head_start y hash)"
  using assms(1) gw_norm_asked [OF assms(2), of hash]
  by (auto simp: head_start_def no_more_def barred_def carriers_def late_carriers_def gone_reply_def split: option.split
      dest!: gw_norm_denied [of _ _ "nt_store y"])

lemma get_permit_no_more:
  assumes ok: "nt_ok n tok Q X y"
  shows "no_more c late h y (get_permit y k)"
proof (cases "k < length (nt_gets y)")
  case True
  obtain hs hash g where g: "nt_gets y ! k = (hs, hash, g)" by (cases "nt_gets y ! k")
  have "norm hash = g" using ok True list_all_nth [of _ "nt_gets y" k] g gw_norm_Some [of hash] by (fastforce simp: nt_ok_def flight_ok_def)
  moreover have i: "(hs, hash, g) \<in> set (nt_gets y)" using True g by (metis nth_mem)
  ultimately have w: "norm hash = h \<Longrightarrow> GetWaits hs hash \<in> carriers c late h y" by (auto simp: carriers_def late_carriers_def)
  have "carriers c late h (fst (get_permit y k)) \<subseteq> carriers c late h y"
    using True g i set_drop_nth [of k "nt_gets y"]
    by (intro carriers_mono) (auto simp: get_permit_def Let_def)
  with True g w show ?thesis by (auto simp: get_permit_def no_more_def text_reply_def Let_def)
qed (simp add: get_permit_def no_more_def)

lemma lookup_started: "task_step a (i, ReadCall m) = (a', []) \<Longrightarrow> norm m \<in> dom (index (shared a))"
  by (auto simp: task_step.simps Let_def split: if_splits)

text \<open>What a lookup can add, and what it can answer.\<close>

lemma get_lookup_cases:
  assumes "k < length (nt_lookups y)" and "nt_lookups y ! k = (hs, hash, g)"
  obtains (reads) a where "get_lookup n y k =
      (y\<lparr>nt_lookups := drop_nth k (nt_lookups y), nt_tasks := a, nt_reads := nt_reads y @ [GetReader hs hash g]\<rparr>, [])"
    "norm g \<in> dom (index (nt_store y))"
  | (none) a where "get_lookup n y k = (release (y\<lparr>nt_lookups := drop_nth k (nt_lookups y), nt_tasks := a\<rparr>),
      [HttpReply (GetContent hs hash) (get_finish (n_crypto n) hs g None)])"
proof -
  obtain a outs where t: "task_step (nt_tasks y) (no_io, ReadCall g) = (a, outs)" by fastforce
  show thesis
  proof (cases outs)
    case Nil
    with t lookup_started have "norm g \<in> dom (index (nt_store y))" by blast
    with t Nil assms reads show thesis by (simp add: get_lookup_def)
  next
    case (Cons x xs)
    with t assms none show thesis by (simp add: get_lookup_def get_reply_def)
  qed
qed

lemma get_lookup_no_more:
  assumes ok: "nt_ok n tok Q X y" and bar: "barred late h (nt_tasks y)"
  shows "no_more c late h y (get_lookup n y k)"
proof (cases "k < length (nt_lookups y)")
  case True
  obtain hs hash g where g: "nt_lookups y ! k = (hs, hash, g)" by (cases "nt_lookups y ! k")
  have norm: "norm hash = g" "norm g = g"
    using ok True list_all_nth [of _ "nt_lookups y" k] g gw_norm_Some [of hash g] by (fastforce simp: nt_ok_def flight_ok_def)+
  have i: "(hs, hash, g) \<in> set (nt_lookups y)" using True g by (metis nth_mem)
  from True g show ?thesis
  proof (cases rule: get_lookup_cases [where n = n])
    case (reads a)
    have "GetReads hs hash \<in> carriers c late h y" if "g = h"
    proof -
      have late using bar reads(2) norm(2) that by (auto simp: barred_def sealed_def)
      with i that show ?thesis by (auto simp: carriers_def late_carriers_def)
    qed
    moreover have "carriers c late h (y\<lparr>nt_lookups := drop_nth k (nt_lookups y), nt_tasks := a\<rparr>) \<subseteq> carriers c late h y"
      using set_drop_nth [of k "nt_lookups y"] by (intro carriers_mono) auto
    moreover have "carriers c late h (y\<lparr>nt_lookups := drop_nth k (nt_lookups y), nt_tasks := a, nt_reads := nt_reads y @ [GetReader hs hash g]\<rparr>)
        \<subseteq> carriers c late h (y\<lparr>nt_lookups := drop_nth k (nt_lookups y), nt_tasks := a\<rparr>) \<union> (if g = h then {GetReads hs hash} else {})"
      by (auto simp: carriers_def late_carriers_def)
    ultimately show ?thesis unfolding reads(1) no_more_def by (auto split: if_splits)
  next
    case (none a)
    have "carriers c late h (release (y\<lparr>nt_lookups := drop_nth k (nt_lookups y), nt_tasks := a\<rparr>)) \<subseteq> carriers c late h y"
      using set_drop_nth [of k "nt_lookups y"] by (intro carriers_mono) auto
    moreover have "GetWaits hs hash \<in> carriers c late h y" if "g = h" using i that by (auto simp: carriers_def)
    ultimately show ?thesis
      using norm(1) unfolding none no_more_def by (auto simp: get_finish_def text_reply_def)
  qed
qed (simp add: get_lookup_def no_more_def)

lemma head_lookup_no_more:
  assumes ok: "nt_ok n tok Q X y" and bar: "barred late h (nt_tasks y)"
  shows "no_more c late h y (head_lookup y k)"
proof (cases "k < length (nt_heads y)")
  case True
  obtain hash g where g: "nt_heads y ! k = (hash, g)" by (cases "nt_heads y ! k")
  have norm: "norm hash = g" "norm g = g"
    using ok True list_all_nth [of _ "nt_heads y" k] g gw_norm_Some [of hash g] by (fastforce simp: nt_ok_def flight_ok_def)+
  have i: "(hash, g) \<in> set (nt_heads y)" using True g by (metis nth_mem)
  have "HeadFinds hash \<in> carriers c late h y \<or>
      HeadWaits hash \<in> carriers c late h y \<and> head_finish g (store_has (nt_store y) g) = Some (plain 404)" if "g = h"
  proof (cases late)
    case True
    with i that show ?thesis by (auto simp: carriers_def late_carriers_def)
  next
    case False
    then have "store_has (nt_store y) g = None" using bar norm(2) that by (auto simp: barred_def sealed_def store_has_def domIff)
    with i that show ?thesis by (auto simp: carriers_def head_finish_def)
  qed
  moreover have "carriers c late h (fst (head_lookup y k)) \<subseteq> carriers c late h y"
    using True g set_drop_nth [of k "nt_heads y"] by (intro carriers_mono) (auto simp: head_lookup_def)
  ultimately show ?thesis using True g norm(1) by (auto simp: head_lookup_def no_more_def)
qed (simp add: head_lookup_def no_more_def)

section \<open>Serve tasks and reads\<close>

lemma serve_check_no_more:
  assumes bar: "barred late h (nt_tasks y)"
  shows "no_more c late h y (serve_check y k, [])"
proof -
  have "carriers c False h (serve_check y k) \<subseteq> carriers c False h y"
    by (auto simp: serve_check_def carriers_def split: prod.split if_splits)
  moreover have "late_carriers h (serve_check y k) \<subseteq> late_carriers h y"
    using bar by (auto simp: serve_check_def late_carriers_def barred_def store_is_denied_def split: prod.splits if_splits)
  ultimately show ?thesis
    unfolding no_more_def using carriers_split [of c late h "serve_check y k"] carriers_split [of c late h y] by auto
qed

lemma serve_lookup_cases:
  assumes "j < length (nt_serves y)" and "nt_serves y ! j = (channel, m, ServeChecked)"
  obtains (reads) a where "serve_lookup y j =
      y\<lparr>nt_tasks := a, nt_serves := drop_nth j (nt_serves y), nt_reads := nt_reads y @ [ServeReader channel m]\<rparr>"
    "norm m \<in> dom (index (nt_store y))"
  | (none) a where "serve_lookup y j = y\<lparr>nt_tasks := a, nt_serves := (nt_serves y)[j := (channel, m, ServeReady None)]\<rparr>"
proof -
  obtain a outs where t: "task_step (nt_tasks y) (no_io, ReadCall m) = (a, outs)" by fastforce
  show thesis
  proof (cases outs)
    case Nil
    with t lookup_started have "norm m \<in> dom (index (nt_store y))" by blast
    with t Nil assms reads show thesis by (simp add: serve_lookup_def)
  next
    case (Cons x xs)
    with t assms none show thesis by (simp add: serve_lookup_def)
  qed
qed

lemma serve_lookup_no_more:
  assumes bar: "barred late h (nt_tasks y)"
  shows "no_more c late h y (serve_lookup y j, [])"
proof (cases "j < length (nt_serves y) \<and> (\<exists>channel m. nt_serves y ! j = (channel, m, ServeChecked))")
  case True
  then obtain channel m where j: "j < length (nt_serves y)" "nt_serves y ! j = (channel, m, ServeChecked)" by auto
  have i: "(channel, m, ServeChecked) \<in> set (nt_serves y)" using j by (metis nth_mem)
  from j show ?thesis
  proof (cases rule: serve_lookup_cases)
    case (reads a)
    have "Serves channel \<in> carriers c late h y" if "norm m = h"
    proof -
      have late using bar reads(2) that by (auto simp: barred_def sealed_def)
      with i that show ?thesis by (auto simp: carriers_def late_carriers_def)
    qed
    moreover have "carriers c late h (y\<lparr>nt_tasks := a, nt_serves := drop_nth j (nt_serves y)\<rparr>) \<subseteq> carriers c late h y"
      using set_drop_nth [of j "nt_serves y"] by (intro carriers_mono) auto
    moreover have "carriers c late h (y\<lparr>nt_tasks := a, nt_serves := drop_nth j (nt_serves y), nt_reads := nt_reads y @ [ServeReader channel m]\<rparr>)
        \<subseteq> carriers c late h (y\<lparr>nt_tasks := a, nt_serves := drop_nth j (nt_serves y)\<rparr>) \<union> (if norm m = h then {Serves channel} else {})"
      by (auto simp: carriers_def late_carriers_def)
    ultimately show ?thesis unfolding reads(1) no_more_def by (auto split: if_splits)
  next
    case (none a)
    have "set ((nt_serves y)[j := (channel, m, ServeReady None)]) \<subseteq> insert (channel, m, ServeReady None) (set (nt_serves y))"
      by (rule set_update_subset_insert)
    then have "carriers c late h (serve_lookup y j) \<subseteq> carriers c late h y"
      unfolding none carriers_def late_carriers_def by auto blast+
    then show ?thesis by (simp add: no_more_def)
  qed
next
  case False
  then have "serve_lookup y j = y" by (auto simp: serve_lookup_def split: prod.splits serve_pc.splits)
  then show ?thesis by (simp add: no_more_def)
qed

lemma serve_send_no_more: "no_more c late h y (serve_send y j k, [])"
proof (cases "serve_send y j k = y")
  case False
  let ?p = "s_p2p (nt_sys y)"
  obtain channel m pc where s: "nt_serves y ! j = (channel, m, pc)" by (cases "nt_serves y ! j")
  with False obtain body where send: "pc = ServeReady body" "j < length (nt_serves y)" "serving ?p ! k = (channel, m)"
    "serve_send y j k = y\<lparr>nt_sys := (nt_sys y)\<lparr>s_p2p := serve_finish ?p k body\<rparr>, nt_serves := drop_nth j (nt_serves y)\<rparr>"
    by (cases pc) (auto simp: serve_send_def Let_def split: if_splits)
  have q: "set (serve_queue (serve_finish ?p k body)) \<subseteq> insert (channel, RespGet body) (set (serve_queue ?p))"
    using send(3) by (auto simp: serve_finish_def)
  have "(channel, m, ServeReady body) \<in> set (nt_serves y)" using s send(1,2) by (metis nth_mem)
  then have "Serves channel \<in> carriers c late h y" if "body = Some b" "sha256_hex c b = h" for b
    using that by (auto simp: carriers_def)
  with q set_drop_nth [of j "nt_serves y"] have "carriers c late h (serve_send y j k) \<subseteq> carriers c late h y"
    unfolding send(4) by (intro carriers_served [where channel = channel and m = m and body = body]) auto
  then show ?thesis by (simp add: no_more_def)
qed (simp add: no_more_def)

lemma read_file_no_more:
  assumes ok: "nt_ok n tok Q X y"
  shows "no_more (n_crypto n) late h y (read_file n y k r)"
proof (cases "k < length (reading (nt_tasks y))")
  case True
  let ?h = "reading (nt_tasks y) ! k"
  let ?body = "fs_read r (blob_path ?h) (files (nt_store y))"
  have tasks: "tasks_ok X (n_crypto n) (nt_tasks y)" and reads: "map reader_hash (nt_reads y) = reading (nt_tasks y)"
    using ok by (simp_all add: nt_ok_def flight_ok_def)
  have len: "k < length (nt_reads y)" using True reads by (metis length_map)
  have hash: "reader_hash (nt_reads y ! k) = ?h" using reads len by (metis nth_map)
  have mem: "nt_reads y ! k \<in> set (nt_reads y)" using len by simp
  obtain a where step: "task_step (nt_tasks y) (no_io, ReadNext k r) = (a, [ReadReturns ?h ?body])"
    using True by (simp add: task_step.simps)
  show ?thesis
  proof (cases "nt_reads y ! k")
    case (GetReader hs hash' g)
    then have "norm hash' = g"
      using ok list_all_nth [OF _ len, of reader_ok] gw_norm_Some [of hash' g] by (fastforce simp: nt_ok_def flight_ok_def)
    moreover have "g = h \<Longrightarrow> GetReads hs hash' \<in> carriers (n_crypto n) late h y" using mem GetReader by (auto simp: carriers_def late_carriers_def)
    ultimately show ?thesis
      using step GetReader
      using carriers_mono [of "release (y\<lparr>nt_tasks := a, nt_reads := drop_nth k (nt_reads y)\<rparr>)" y] set_drop_nth [of k "nt_reads y"]
      by (simp add: read_file_def get_reply_def no_more_def)
  next
    case (ServeReader channel m)
    have "sha256_hex (n_crypto n) b = norm m" if "?body = Some b" for b
      using read_returns [OF tasks, of ?h b "(no_io, ReadNext k r)"] step that hash ServeReader by simp
    then have "Serves channel \<in> carriers (n_crypto n) late h y" if "?body = Some b" "sha256_hex (n_crypto n) b = h" for b
      using that mem ServeReader by (auto simp: carriers_def)
    then have "carriers (n_crypto n) late h (y\<lparr>nt_tasks := a, nt_reads := drop_nth k (nt_reads y), nt_serves := nt_serves y @ [(channel, m, ServeReady ?body)]\<rparr>)
        \<subseteq> carriers (n_crypto n) late h y"
      using set_drop_nth [of k "nt_reads y"] by (intro carriers_served [where channel = channel and m = m and body = ?body]) auto
    with step ServeReader show ?thesis by (simp add: read_file_def no_more_def)
  qed
qed (simp add: read_file_def no_more_def task_step.simps)

lemma drop_no_more:
  "no_more c late h y (drop_deny y k, [])" "no_more c late h y (y\<lparr>nt_gets := drop_nth k (nt_gets y)\<rparr>, [])"
  "no_more c late h y (drop_lookup y k, [])" "no_more c late h y (drop_read y k, [])"
  "no_more c late h y (y\<lparr>nt_heads := drop_nth k (nt_heads y)\<rparr>, [])"
  by (auto simp: no_more_def drop_deny_def drop_lookup_def drop_read_def carriers_def late_carriers_def split: reader.split
      dest!: set_drop_nth [THEN subsetD])

lemma cut_no_more: "no_more c late h y (cut_deny y cu i k g, [])" "no_more c late h y (cut_allow y cu e hs hash, [])"
  by (auto simp: no_more_def cut_deny_def cut_allow_def drop_deny_def carriers_def late_carriers_def split: option.split)

section \<open>Every step, every run\<close>

lemma tasks_step_no_more:
  assumes ok: "nt_ok n tok Q X y" and bar: "barred late h (nt_tasks y)" and h: "lower_hex64 h"
  shows "no_more (n_crypto n) late h y (tasks_node_step n y ev)"
proof (cases "(n, y, ev)" rule: tasks_node_step.cases)
  case (2 n' y' e hs hash)
  then show ?thesis using deny_no_more [of "DeleteContent hs hash" "norm hash"] by simp
next
  case (3 n' y' e hs hash)
  then show ?thesis using deny_no_more [of "PostDeny hs hash" "norm hash"] by simp
qed (use assms in \<open>auto simp: no_more_same whole_no_more deny_next_no_more put_no_more get_start_no_more head_start_no_more
       get_permit_no_more get_lookup_no_more head_lookup_no_more serve_check_no_more serve_lookup_no_more
       serve_send_no_more read_file_no_more drop_no_more cut_no_more\<close>)

lemma tasks_run_barred:
  assumes "nt_ok n tok UNIV UNIV y" and "barred late h (nt_tasks y)" and "lower_hex64 h" and "list_all tasks_legal es"
    and "list_all (\<lambda>ev. \<not> tasks_lifts tok ev h) es"
  shows "barred late h (nt_tasks (fst (tasks_node_run n y es))) \<and>
    (\<forall>x \<in> set (snd (tasks_node_run n y es)). from_carriers (n_crypto n) h (carriers (n_crypto n) late h y) x)"
proof -
  let ?F = "carriers (n_crypto n) late h y"
  let ?I = "\<lambda>z. nt_ok n tok UNIV UNIV z \<and> barred late h (nt_tasks z) \<and> carriers (n_crypto n) late h z \<subseteq> ?F"
  have "?I (fst (tasks_node_run n y es)) \<and> (\<forall>x \<in> set (snd (tasks_node_run n y es)). from_carriers (n_crypto n) h ?F x)"
  proof (rule tasks_run_induct)
    fix z e assume z: "?I z" and e: "e \<in> set es"
    then have "tasks_legal e" "\<not> tasks_lifts tok e h" using assms(4,5) by (auto simp: list_all_iff)
    then have "nt_ok n tok UNIV UNIV (fst (tasks_node_step n z e))" "barred late h (nt_tasks (fst (tasks_node_step n z e)))"
      using z tasks_node.step_inv tasks_barred by blast+
    moreover have "no_more (n_crypto n) late h z (tasks_node_step n z e)" using z assms(3) tasks_step_no_more by blast
    ultimately show "?I (fst (tasks_node_step n z e)) \<and>
        (\<forall>x \<in> set (snd (tasks_node_step n z e)). from_carriers (n_crypto n) h ?F x)"
      using z from_carriers_mono unfolding no_more_def by blast
  qed (use assms(1,2) in simp)
  then show ?thesis by blast
qed

end
