(* ===== verification/Node_Tasks_Sim.thy ===== *)
theory Node_Tasks_Sim
  imports Node_Tasks_Run
begin

text \<open>
  The node whose handlers run to their end at once (\<open>Node_System\<close>) is the node with overlapping handlers when the
  scheduler lets each handler finish: every run of the former is a run of the latter, with the same outputs.
\<close>

declare task_step.simps [simp del]

section \<open>Stale copies\<close>

text \<open>The copies of the store and of the peer table inside the components play no role: steps see the views.\<close>

definition stale :: "store \<Rightarrow> (string \<rightharpoonup> string) \<Rightarrow> store \<Rightarrow> node_sys \<Rightarrow> node_sys" where
  "stale a ps b v = v\<lparr>s_gw := (s_gw v)\<lparr>gw_store := a, gw_peers := ps\<rparr>, s_p2p := (s_p2p v)\<lparr>p_store := b\<rparr>\<rparr>"

definition fresh :: "node_sys \<Rightarrow> node_sys" where
  "fresh v = v\<lparr>s_gw := gw_view v, s_p2p := p2p_view v\<rparr>"

lemma fresh_stale: "fresh v = stale (s_store v) (peer_status (s_p2p v)) (s_store v) v"
  by (simp add: fresh_def stale_def gw_view_def p2p_view_def)

lemma stale_fields [simp]:
  "s_store (stale a ps b v) = s_store v" "s_cmds (stale a ps b v) = s_cmds v" "s_pc (stale a ps b v) = s_pc v"
  "running (s_p2p (stale a ps b v)) = running (s_p2p v)" "gw_view (stale a ps b v) = gw_view v"
  "p2p_view (stale a ps b v) = p2p_view v" "fresh (stale a ps b v) = fresh v"
  by (simp_all add: stale_def fresh_def gw_view_def p2p_view_def)

lemma take_reply_stale: "take_reply out (stale a ps b v) = stale a ps b (take_reply out v)"
  by (cases out) (auto simp: stale_def split: ingest_pc.split option.split)

lemma take_replies_stale: "fold take_reply outs (stale a ps b v) = stale a ps b (fold take_reply outs v)"
  by (induction outs arbitrary: v) (simp_all add: take_reply_stale)

lemma run_p2p_stale:
  "fresh (fst (run_p2p n (stale a ps b v) e)) = fresh (fst (run_p2p n v e)) \<and> snd (run_p2p n (stale a ps b v) e) = snd (run_p2p n v e)"
proof -
  obtain p outs where p: "p2p_step (node_cfg n) (p2p_view v) e = (p, outs)" by fastforce
  have "(stale a ps b v)\<lparr>s_p2p := p, s_store := p_store p\<rparr> = stale a ps (p_store p) (v\<lparr>s_p2p := p, s_store := p_store p\<rparr>)"
    by (simp add: stale_def)
  with p show ?thesis by (simp add: run_p2p_def take_replies_stale)
qed

lemma ingest_stale:
  "pass_begin n (stale a ps b v) x = stale a ps b (pass_begin n v x)" "pass_dial (stale a ps b v) = stale a ps b (pass_dial v)"
  "pass_list n (stale a ps b v) x = stale a ps b (pass_list n v x)" "pin_denied (stale a ps b v) = stale a ps b (pin_denied v)"
  "pin_held (stale a ps b v) = stale a ps b (pin_held v)" "pin_acquire n (stale a ps b v) net = stale a ps b (pin_acquire n v net)"
  "pin_want (stale a ps b v) = stale a ps b (pin_want v)" "pin_stored (stale a ps b v) r = stale a ps b (pin_stored v r)"
  by (simp_all add: stale_def pass_begin_def pass_dial_def pass_list_def pin_denied_def pin_held_def pin_acquire_def pin_want_def
      pin_stored_def fail_pin_def split: ingest_pc.split list.split sum.split option.split)

lemma stale_update [simp]:
  "(stale a ps b v)\<lparr>s_store := s\<rparr> = stale a ps b (v\<lparr>s_store := s\<rparr>)" "(stale a ps b v)\<lparr>s_cmds := cs\<rparr> = stale a ps b (v\<lparr>s_cmds := cs\<rparr>)"
  by (simp_all add: stale_def)

lemma node_step_stale:
  "fresh (fst (node_step n (stale a ps b v) ev)) = fresh (fst (node_step n v ev)) \<and>
    snd (node_step n (stale a ps b v) ev) = snd (node_step n v ev)"
proof (cases "(n, v, ev)" rule: node_step.cases)
  case (1 n' y' e rq)
  obtain r g where "gw_handle (n_crypto n) e (gw_view v) rq = (r, g)" by fastforce
  moreover have "fresh ((stale a ps b v)\<lparr>s_store := s, s_gw := g\<rparr>) = fresh (v\<lparr>s_store := s, s_gw := g\<rparr>)" for s g
    by (simp add: stale_def fresh_def gw_view_def p2p_view_def)
  ultimately show ?thesis using 1 by simp
next
  case (11 n' y' i)
  then show ?thesis by (simp add: pin_store_def ingest_stale split: ingest_pc.split prod.split)
qed (simp_all add: run_p2p_stale ingest_stale split: list.split)

lemma node_step_same:
  assumes "fresh v = fresh w"
  shows "fresh (fst (node_step n v ev)) = fresh (fst (node_step n w ev)) \<and> snd (node_step n v ev) = snd (node_step n w ev)"
  using node_step_stale [of n "s_store v" "peer_status (s_p2p v)" "s_store v" v ev]
    node_step_stale [of n "s_store w" "peer_status (s_p2p w)" "s_store w" w ev] assms
  unfolding fresh_stale [symmetric] by metis

section \<open>A node at rest\<close>

definition rests :: "node_tasks \<Rightarrow> node_sys \<Rightarrow> bool" where
  "rests y v \<longleftrightarrow>
     nt_tasks y = idle (s_store v) \<and> nt_denies y = [] \<and> nt_reads y = [] \<and> nt_gets y = [] \<and> nt_lookups y = [] \<and>
     nt_heads y = [] \<and> nt_serves y = [] \<and> fresh (nt_view y) = fresh v"

lemma rests_at_rest: "rests (at_rest v) v"
  by (simp add: rests_def at_rest_def nt_view_def idle_def)

lemma idle_fields [simp]: "shared (idle s) = s" "putting (idle s) = None" "denying (idle s) = []" "reading (idle s) = []"
  by (simp_all add: idle_def)

lemma idle_shared [simp]: "(idle s)\<lparr>shared := t\<rparr> = idle t"
  by (simp add: idle_def)

lemma rests_once:
  assumes "once ev" and rest: "rests y v"
  shows "rests (fst (whole_step n y ev)) (fst (node_step n v ev)) \<and> snd (whole_step n y ev) = snd (node_step n v ev)"
proof -
  have same: "fresh (nt_view y) = fresh v" using rest by (simp add: rests_def)
  note step = node_step_same [OF same, of n ev]
  then have "s_store (fst (node_step n (nt_view y) ev)) = s_store (fst (node_step n v ev))" by (metis fresh_stale stale_fields(1))
  moreover have "nt_view (fst (whole_step n y ev)) = fst (node_step n (nt_view y) ev)"
    by (simp add: nt_view_def whole_step_def split: prod.split)
  moreover have t: "nt_tasks (fst (whole_step n y ev)) = (nt_tasks y)\<lparr>shared := s_store (fst (node_step n (nt_view y) ev))\<rparr>"
    by (simp add: whole_step_def split: prod.split)
  ultimately show ?thesis
    using rest step by (simp add: rests_def)
qed

section \<open>Handlers that run to their end\<close>

lemma run_snoc: "tasks_node_run n y [e] = tasks_node_step n y e"
  by (simp split: prod.split)

lemma rests_views:
  assumes "rests y v"
  shows "nt_store y = s_store v" "conns (s_gw (nt_sys y)) = conns (gw_view v)" "admin_ok (gw_view (nt_view y)) hs = admin_ok (gw_view v) hs"
    "s_pc (nt_sys y) = s_pc v" "serving (s_p2p (nt_sys y)) = serving (s_p2p v)" "serve_queue (s_p2p (nt_sys y)) = serve_queue (s_p2p v)"
proof -
  have f: "fresh (nt_view y) = fresh v" "nt_tasks y = idle (s_store v)" using assms by (simp_all add: rests_def)
  then show "nt_store y = s_store v" by simp
  have g: "gw_view (nt_view y) = gw_view v" "p2p_view (nt_view y) = p2p_view v" "s_pc (nt_view y) = s_pc v"
    using f(1) by (metis fresh_stale stale_fields(5), metis fresh_stale stale_fields(6), metis fresh_stale stale_fields(3))
  then show "admin_ok (gw_view (nt_view y)) hs = admin_ok (gw_view v) hs" by simp
  show "conns (s_gw (nt_sys y)) = conns (gw_view v)" using arg_cong [OF g(1), of conns] by (simp add: gw_view_def)
  show "s_pc (nt_sys y) = s_pc v" using g(3) by simp
  show "serving (s_p2p (nt_sys y)) = serving (s_p2p v)" "serve_queue (s_p2p (nt_sys y)) = serve_queue (s_p2p v)"
    using arg_cong [OF g(2), of serving] arg_cong [OF g(2), of serve_queue] by (simp_all add: p2p_view_def)
qed

text \<open>The node between two handlers that changed nothing.\<close>

lemma rests_http:
  assumes "rests y v" and "gw_handle (n_crypto n) e (gw_view v) rq = (r, gw_view v)"
  shows "rests y (fst (node_step n v (Http e rq))) \<and> snd (node_step n v (Http e rq)) = [HttpReply rq r]"
proof -
  have "fresh (v\<lparr>s_store := gw_store (gw_view v), s_gw := gw_view v\<rparr>) = fresh v"
    by (simp add: fresh_def gw_view_def p2p_view_def)
  with assms show ?thesis by (simp add: rests_def)
qed

lemma rests_head:
  assumes "rests y v"
  shows "tasks_node_run n y [HeadStart hash, HeadLookup 0] = (y, snd (node_step n v (Http e (HeadContent hash))))"
  using assms rests_views(1) [OF assms]
  by (auto simp: rests_def head_start_def head_lookup_def head_content_def drop_nth_def split: option.split)

lemma rests_get:
  assumes rest: "rests y v"
  shows "tasks_node_run n y [GetStart hs hash, GetPermit 0, GetLookup 0, ReadFile 0 (env_read e)] =
    (y, snd (node_step n v (Http e (GetContent hs hash))))"
proof -
  note views = rests_views(1,2) [OF rest] and lists = rest [unfolded rests_def]
  consider "gw_norm hash = None" | h where "gw_norm hash = Some h" "store_is_denied (s_store v) h"
    | (busy) h where "gw_norm hash = Some h" "\<not> store_is_denied (s_store v) h" "conns (gw_view v) = 0"
    | (read) h where "gw_norm hash = Some h" "\<not> store_is_denied (s_store v) h" "conns (gw_view v) \<noteq> 0"
    by blast
  then show ?thesis
  proof cases
    case busy
    with views lists show ?thesis
      by (simp add: get_start_def get_permit_def get_lookup_def read_file_def get_content_def get_admit_def task_step.simps drop_nth_def Let_def)
  next
    case read
    have h: "norm h = h" "is_valid_hash h" using gw_norm_Some [OF read(1)] by (auto simp: lower_hex64_valid)
    show ?thesis
    proof (cases "h \<in> dom (index (s_store v))")
      case True
      with views lists read h show ?thesis
        by (simp add: get_start_def get_permit_def get_lookup_def read_file_def get_reply_def get_content_def get_admit_def get_serve_def
          store_get_def task_step.simps drop_nth_def release_def Let_def)
    next
      case False
      with views lists read h show ?thesis
        by (simp add: get_start_def get_permit_def get_lookup_def read_file_def get_reply_def get_content_def get_admit_def get_serve_def
          store_get_def task_step.simps drop_nth_def release_def Let_def)
    qed
  qed (use views lists in \<open>simp_all add: get_start_def get_permit_def get_lookup_def read_file_def get_content_def get_admit_def
         task_step.simps Let_def\<close>)
qed

section \<open>Takedowns and puts that run to their end\<close>

text \<open>The one handler under way gets its result when the steps of its task end.\<close>

lemma deny_nexts_idle: "denying (nt_tasks y) = [] \<Longrightarrow> tasks_node_run n y (replicate k (DenyNextStep i 0)) = (y, [])"
  by (induction k) (simp_all add: deny_next_def task_step.simps)

lemma deny_nexts:
  assumes "task_run (nt_tasks y) (replicate k (i, DenyNext 0)) = (a, [DenyReturns h r])"
    and "length (denying (nt_tasks y)) = 1" and "nt_denies y = [rq]"
  shows "tasks_node_run n y (replicate k (DenyNextStep i 0)) = (y\<lparr>nt_tasks := a, nt_denies := []\<rparr>, [HttpReply rq (Some (deny_reply r))])"
  using assms
proof (induction k arbitrary: y)
  case (Suc k)
  obtain pc where pc: "denying (nt_tasks y) = [pc]" using Suc.prems(2) by (auto simp: length_Suc_conv)
  obtain x s where d: "deny_step i (nt_store y) pc = (x, s)" by fastforce
  show ?case
  proof (cases x)
    case (Inl pc')
    let ?y = "y\<lparr>nt_tasks := (nt_tasks y)\<lparr>shared := s, denying := [pc']\<rparr>\<rparr>"
    have "tasks_node_run n ?y (replicate k (DenyNextStep i 0)) =
        (?y\<lparr>nt_tasks := a, nt_denies := []\<rparr>, [HttpReply rq (Some (deny_reply r))])"
      using Suc.prems pc d Inl by (intro Suc.IH) (simp_all add: task_step.simps split: prod.splits)
    with pc d Inl show ?thesis by (simp add: deny_next_def task_step.simps)
  next
    case (Inr q)
    let ?a = "(nt_tasks y)\<lparr>shared := s, denying := []\<rparr>"
    have "task_run b (replicate k (i, DenyNext 0)) = (b, [])" if "denying b = []" for b
      using that by (induction k) (simp_all add: task_step.simps)
    from this [of ?a] have "a = ?a" "r = q"
      using Suc.prems(1) pc d Inr by (simp_all add: task_step.simps drop_nth_def)
    with pc d Inr Suc.prems(3) show ?thesis
      by (simp add: deny_next_def task_step.simps drop_nth_def deny_nexts_idle)
  qed
qed simp

lemma deny_reply_eq:
  "admin_ok st hs \<Longrightarrow> gw_norm hash = Some h \<Longrightarrow>
    deny_content i st hs hash = (deny_reply (fst (store_deny i (gw_store st) h)), st\<lparr>gw_store := snd (store_deny i (gw_store st) h)\<rparr>)"
  by (auto simp: deny_content_def split: prod.split sum.split)

lemma rests_deny:
  assumes rest: "rests y v" and rq: "rq = DeleteContent hs hash \<or> rq = PostDeny hs hash"
  shows "\<exists>y'. tasks_node_run n y (DenyStart e rq # replicate 3 (DenyNextStep (env_io e) 0)) = (y', snd (node_step n v (Http e rq))) \<and>
    rests y' (fst (node_step n v (Http e rq)))"
proof -
  note views = rests_views(1,3) [OF rest] and lists = rest [unfolded rests_def]
  have start: "tasks_node_step n y (DenyStart e rq) = deny_start y e rq hs hash" using rq by auto
  have handle: "gw_handle (n_crypto n) e (gw_view v) rq = apfst Some (deny_content (env_io e) (gw_view v) hs hash)" using rq by auto
  show ?thesis
  proof (cases "admin_ok (gw_view v) hs \<and> gw_norm hash \<noteq> None")
    case True
    then obtain h where h: "admin_ok (gw_view v) hs" "gw_norm hash = Some h" by auto
    have hex: "norm h = h" "is_valid_hash h" using gw_norm_Some [OF h(2)] by (auto simp: lower_hex64_valid)
    let ?r = "store_deny (env_io e) (s_store v) h"
    let ?y = "y\<lparr>nt_tasks := (idle (s_store v))\<lparr>denying := [DenySet h]\<rparr>, nt_denies := [rq]\<rparr>"
    have "tasks_node_step n y (DenyStart e rq) = (?y, [])"
      using lists views h hex by (simp add: start deny_start_def task_step.simps Let_def)
    moreover have "task_run (nt_tasks ?y) (replicate 3 (env_io e, DenyNext 0)) = (idle (snd ?r), [DenyReturns h (fst ?r)])"
      using deny_alone [of "idle (s_store v)" "env_io e" h] hex by (simp add: task_step.simps Let_def split: prod.splits)
    then have "tasks_node_run n ?y (replicate 3 (DenyNextStep (env_io e) 0)) =
        (?y\<lparr>nt_tasks := idle (snd ?r), nt_denies := []\<rparr>, [HttpReply rq (Some (deny_reply (fst ?r)))])"
      by (rule deny_nexts) simp_all
    ultimately have run: "tasks_node_run n y (DenyStart e rq # replicate 3 (DenyNextStep (env_io e) 0)) =
        (?y\<lparr>nt_tasks := idle (snd ?r), nt_denies := []\<rparr>, [HttpReply rq (Some (deny_reply (fst ?r)))])"
      by (simp del: replicate.simps)
    have step: "node_step n v (Http e rq) =
        (v\<lparr>s_store := snd ?r, s_gw := (gw_view v)\<lparr>gw_store := snd ?r\<rparr>\<rparr>, [HttpReply rq (Some (deny_reply (fst ?r)))])"
      using handle deny_reply_eq [OF h, of "env_io e"] by simp
    have "fresh ((nt_view y)\<lparr>s_store := t\<rparr>) = fresh (v\<lparr>s_store := t\<rparr>)" for t
      using lists by (metis fresh_stale stale_fields(7) stale_update(1))
    moreover have "fresh (v\<lparr>s_store := t, s_gw := (gw_view v)\<lparr>gw_store := t\<rparr>\<rparr>) = fresh (v\<lparr>s_store := t\<rparr>)" for t
      by (simp add: fresh_def gw_view_def p2p_view_def)
    ultimately have "rests (?y\<lparr>nt_tasks := idle (snd ?r), nt_denies := []\<rparr>) (fst (node_step n v (Http e rq)))"
      using lists by (simp add: step rests_def nt_view_def del: node_step.simps)
    with run step show ?thesis by (simp del: tasks_node_run.simps replicate.simps node_step.simps)
  next
    case False
    obtain r where "deny_content (env_io e) (gw_view v) hs hash = (r, gw_view v)" "tasks_node_step n y (DenyStart e rq) = (y, [HttpReply rq (Some r)])"
      using False views that by (cases "admin_ok (gw_view v) hs") (auto simp: start deny_start_def deny_content_def)
    moreover from this have "rests y (fst (node_step n v (Http e rq))) \<and> snd (node_step n v (Http e rq)) = [HttpReply rq (Some r)]"
      using handle by (intro rests_http [OF rest]) simp
    ultimately show ?thesis
      using lists deny_nexts_idle [of y n 3 "env_io e"] by (auto simp del: replicate.simps node_step.simps)
  qed
qed

text \<open>The same for the put of the ingest task.\<close>

lemma put_nexts_idle: "putting (nt_tasks y) = None \<Longrightarrow> tasks_node_run n y (replicate k (PutNextStep i)) = (y, [])"
  by (induction k) (simp_all add: put_next_def put_returns_def task_step.simps)

lemma task_put_next:
  "task_step a (i, PutNext) =
    (case putting a of
       None \<Rightarrow> (a, [])
     | Some pc \<Rightarrow>
         (case put_step i (shared a) pc of
            (Inl pc', s) \<Rightarrow> (a\<lparr>shared := s, putting := Some pc'\<rparr>, [])
          | (Inr r, s) \<Rightarrow> (a\<lparr>shared := s, putting := None\<rparr>, [PutReturns r])))"
  by (simp add: task_step.simps)

lemma put_nexts:
  assumes "task_run (nt_tasks y) (replicate k (i, PutNext)) = (a, [PutReturns r])"
  shows "tasks_node_run n y (replicate k (PutNextStep i)) = (y\<lparr>nt_tasks := a, nt_sys := pin_stored (nt_sys y) r\<rparr>, [])"
  using assms
proof (induction k arbitrary: y)
  case (Suc k)
  show ?case
  proof (cases "putting (nt_tasks y)")
    case None
    with Suc.prems task_put_idle [OF None, of "Suc k" i] show ?thesis by simp
  next
    case (Some pc)
    obtain x s where d: "put_step i (nt_store y) pc = (x, s)" by fastforce
    show ?thesis
    proof (cases x)
      case (Inl pc')
      let ?y = "y\<lparr>nt_tasks := (nt_tasks y)\<lparr>shared := s, putting := Some pc'\<rparr>\<rparr>"
      have "tasks_node_run n ?y (replicate k (PutNextStep i)) = (?y\<lparr>nt_tasks := a, nt_sys := pin_stored (nt_sys ?y) r\<rparr>, [])"
        using Suc.prems Some d Inl by (intro Suc.IH) (simp add: task_put_next split: prod.splits)
      with Some d Inl show ?thesis by (simp add: put_next_def put_returns_def task_put_next)
    next
      case (Inr q)
      let ?a = "(nt_tasks y)\<lparr>shared := s, putting := None\<rparr>"
      have "a = ?a" "r = q"
        using Suc.prems(1) Some d Inr task_put_idle [of ?a k i] by (simp_all add: task_put_next)
      with Some d Inr show ?thesis
        by (simp add: put_next_def put_returns_def task_put_next put_nexts_idle)
    qed
  qed
qed simp

lemma pin_stored_update: "pin_stored (v\<lparr>s_store := s\<rparr>) r = (pin_stored v r)\<lparr>s_store := s\<rparr>"
  by (simp add: pin_stored_def fail_pin_def split: ingest_pc.split sum.split)

lemma rests_put:
  assumes rest: "rests y v"
  shows "\<exists>y'. tasks_node_run n y (PutStart i # replicate 6 (PutNextStep i)) = (y', []) \<and> rests y' (pin_store v i)"
proof (cases "\<exists>p b via ps. s_pc v = Storing p b via ps")
  case True
  then obtain p b via ps where pc: "s_pc v = Storing p b via ps" by blast
  note views = rests_views(4) [OF rest] and lists = rest [unfolded rests_def]
  let ?r = "store_put i (s_store v) (payload_hash p) b"
  have alone: "task_run (idle (s_store v)) ((i, PutCall (payload_hash p) b) # replicate 6 (i, PutNext)) =
      (idle (snd ?r), [PutReturns (fst ?r)])"
    using put_alone [of "idle (s_store v)" i "payload_hash p" b] by (simp del: replicate.simps task_run.simps)
  let ?y = "y\<lparr>nt_tasks := idle (snd ?r), nt_sys := pin_stored (nt_sys y) (fst ?r)\<rparr>"
  have run: "tasks_node_run n y (PutStart i # replicate 6 (PutNextStep i)) = (?y, [])"
  proof (cases "is_valid_hash (norm (payload_hash p))")
    case True
    let ?a = "(idle (s_store v))\<lparr>putting := Some (PutCheck (norm (payload_hash p)) b)\<rparr>"
    have s: "task_step (idle (s_store v)) (i, PutCall (payload_hash p) b) = (?a, [])" using True by (simp add: task_step.simps Let_def)
    with alone have "task_run ?a (replicate 6 (i, PutNext)) = (idle (snd ?r), [PutReturns (fst ?r)])"
      by (simp del: replicate.simps split: prod.splits)
    then have "tasks_node_run n (y\<lparr>nt_tasks := ?a\<rparr>) (replicate 6 (PutNextStep i)) = (?y, [])"
      by (subst put_nexts) simp_all
    moreover have "tasks_node_step n y (PutStart i) = (y\<lparr>nt_tasks := ?a\<rparr>, [])"
      using pc views lists s by (simp add: put_start_def put_returns_def)
    ultimately show ?thesis by (simp del: replicate.simps)
  next
    case False
    then have s: "task_step (idle (s_store v)) (i, PutCall (payload_hash p) b) = (idle (s_store v), [PutReturns (Inl NonHexKey)])"
      by (simp add: task_step.simps Let_def)
    moreover from this alone have "idle (snd ?r) = idle (s_store v)" "fst ?r = Inl NonHexKey"
      using task_put_idle [of "idle (s_store v)" 6 i] by (simp_all del: replicate.simps)
    ultimately have "tasks_node_step n y (PutStart i) = (?y, [])"
      using pc views lists by (simp add: put_start_def put_returns_def)
    then show ?thesis using put_nexts_idle [of ?y n 6 i] by (simp del: replicate.simps)
  qed
  have "fresh (pin_stored ((nt_view y)\<lparr>s_store := t\<rparr>) r) = fresh (pin_stored (v\<lparr>s_store := t\<rparr>) r)" for t r
    using lists by (metis fresh_stale stale_fields(7) stale_update(1) ingest_stale(8))
  then have "rests ?y (pin_store v i)"
    using lists pc by (simp add: rests_def pin_store_def nt_view_def pin_stored_update split: prod.split)
  with run show ?thesis by blast
next
  case False
  then have "pin_store v i = v" "put_start y i = y"
    using rests_views(4) [OF rest] by (auto simp: pin_store_def put_start_def split: ingest_pc.split)
  with rest show ?thesis using put_nexts_idle [of y n 6 i] by (simp add: rests_def del: replicate.simps)
qed

section \<open>Serve tasks that run to their end\<close>

lemma rests_serve:
  assumes rest: "rests y v"
  shows "\<exists>fs y'. list_all tasks_legal fs \<and> tasks_node_run n y fs = (y', snd (node_step n v (P2pEvent e (ServeTask k)))) \<and>
    rests y' (fst (node_step n v (P2pEvent e (ServeTask k))))"
proof -
  note views = rests_views(1,5,6) [OF rest] and lists = rest [unfolded rests_def]
  let ?p = "s_p2p v"
  let ?n = "snd (serving ?p ! k)"
  let ?body = "if store_is_denied (s_store v) ?n then None else store_get (ev_read e) (s_store v) ?n"
  have step: "node_step n v (P2pEvent e (ServeTask k)) =
      (if running ?p then (v\<lparr>s_p2p := serve_finish (p2p_view v) k ?body\<rparr>, []) else (v\<lparr>s_p2p := p2p_view v\<rparr>, []))"
    by (simp add: run_p2p_def p2p_step_def on_serve_task_def p2p_view_def) (auto simp: serve_finish_def Let_def)
  have stale: "fresh (v\<lparr>s_p2p := p2p_view v\<rparr>) = fresh v" by (simp add: fresh_def gw_view_def p2p_view_def)
  show ?thesis
  proof (cases "running ?p \<and> k < length (serving ?p) \<and> length (serve_queue ?p) < MAX_CONCURRENT_SERVES")
    case True
    obtain channel m where k: "serving ?p ! k = (channel, m)" by fastforce
    then have "count_list (serving ?p) (channel, m) \<noteq> 0" using True by (metis count_list_0_iff nth_mem)
    then have check: "started y (channel, m) < count_list (serving ?p) (channel, m)" using lists by (simp add: started_def)
    let ?es = "[ServeCheck k, ServeLookup 0, ReadFile 0 (ev_read e), ServeSend 0 k]"
    let ?y = "y\<lparr>nt_sys := (nt_sys y)\<lparr>s_p2p := serve_finish (s_p2p (nt_sys y)) k ?body\<rparr>\<rparr>"
    have run: "tasks_node_run n y ?es = (?y, [])"
    proof (cases "store_is_denied (s_store v) m \<or> \<not> is_valid_hash (norm m) \<or> norm m \<notin> dom (index (s_store v))")
      case found: True
      then have "?body = None" using k by (auto simp: store_get_def Let_def)
      with found True views lists k check show ?thesis
        by (auto simp: serve_check_def serve_lookup_def read_file_def serve_send_def task_step.simps drop_nth_def Let_def)
    next
      case False
      then have "?body = fs_read (ev_read e) (blob_path (norm m)) (files (s_store v))" using k by (simp add: store_get_def)
      with False True views lists k check show ?thesis
        by (simp add: serve_check_def serve_lookup_def read_file_def serve_send_def task_step.simps drop_nth_def Let_def)
    qed
    have "fresh ((stale a ps b w)\<lparr>s_p2p := serve_finish (s_p2p (stale a ps b w)) k x\<rparr>) =
        fresh (w\<lparr>s_p2p := serve_finish (s_p2p w) k x\<rparr>)" for a ps b w x
      by (simp add: stale_def fresh_def gw_view_def p2p_view_def serve_finish_def)
    then have "fresh (w\<lparr>s_p2p := serve_finish (s_p2p w) k x\<rparr>) = fresh (w'\<lparr>s_p2p := serve_finish (s_p2p w') k x\<rparr>)"
      if "fresh w = fresh w'" for w w' x using that by (metis fresh_stale)
    then have "fresh ((nt_view y)\<lparr>s_p2p := serve_finish (s_p2p (nt_sys y)) k ?body\<rparr>) = fresh (v\<lparr>s_p2p := serve_finish ?p k ?body\<rparr>)"
      using lists by (metis nt_view_fields(3))
    moreover have "fresh (v\<lparr>s_p2p := serve_finish ?p k x\<rparr>) = fresh (v\<lparr>s_p2p := serve_finish (p2p_view v) k x\<rparr>)" for x
      by (simp add: fresh_def gw_view_def p2p_view_def serve_finish_def)
    moreover have "nt_view ?y = (nt_view y)\<lparr>s_p2p := serve_finish (s_p2p (nt_sys y)) k ?body\<rparr>" by (simp add: nt_view_def)
    ultimately have "fresh (nt_view ?y) = fresh (v\<lparr>s_p2p := serve_finish (p2p_view v) k ?body\<rparr>)" by (simp only:)
    then have "rests ?y (v\<lparr>s_p2p := serve_finish (p2p_view v) k ?body\<rparr>)"
      using lists unfolding rests_def by (simp del: if_split)
    moreover have "node_step n v (P2pEvent e (ServeTask k)) = (v\<lparr>s_p2p := serve_finish (p2p_view v) k ?body\<rparr>, [])"
      using True unfolding step by simp
    moreover have "list_all tasks_legal ?es" by simp
    ultimately show ?thesis using run by (metis fst_conv snd_conv)
  next
    case False
    then have "serve_finish (p2p_view v) k ?body = p2p_view v \<or> \<not> running ?p" by (auto simp: serve_finish_def p2p_view_def)
    then have "node_step n v (P2pEvent e (ServeTask k)) = (v\<lparr>s_p2p := p2p_view v\<rparr>, [])" unfolding step by metis
    with lists stale show ?thesis
      by (intro exI [of _ "[]"] exI [of _ y]) (simp add: rests_def del: node_step.simps)
  qed
qed

section \<open>Every run\<close>

lemma rests_step:
  assumes rest: "rests y v" and legal: "node_legal ev"
  shows "\<exists>fs y'. list_all tasks_legal fs \<and> tasks_node_run n y fs = (y', snd (node_step n v ev)) \<and> rests y' (fst (node_step n v ev))"
proof (cases "once ev")
  case True
  have "tasks_node_run n y [Whole ev] = (fst (whole_step n y ev), snd (whole_step n y ev))"
    using True run_snoc [of n y "Whole ev"] by (simp del: tasks_node_run.simps whole_step_fields)
  with rests_once [OF True rest, of n] legal show ?thesis
    by (intro exI [of _ "[Whole ev]"] exI [of _ "fst (whole_step n y ev)"]) (simp del: tasks_node_run.simps whole_step_fields)
next
  case False
  show ?thesis
  proof (cases "(ev)" rule: once.cases)
    case (1 e hs hash)
    with rests_get [OF rest, of n hs hash e] rests_http [OF rest, of n e "GetContent hs hash"] show ?thesis
      by (intro exI [of _ "[GetStart hs hash, GetPermit 0, GetLookup 0, ReadFile 0 (env_read e)]"] exI [of _ y])
        (simp del: tasks_node_run.simps node_step.simps)
  next
    case (2 e hash)
    with rests_head [OF rest, of n hash e] rests_http [OF rest, of n e "HeadContent hash"] show ?thesis
      by (intro exI [of _ "[HeadStart hash, HeadLookup 0]"] exI [of _ y]) (simp del: tasks_node_run.simps node_step.simps)
  next
    case (3 e hs hash)
    with rests_deny [OF rest, of "DeleteContent hs hash" hs hash n e] legal show ?thesis
      by (intro exI [of _ "DenyStart e (DeleteContent hs hash) # replicate 3 (DenyNextStep (env_io e) 0)"])
        (simp add: list_all_iff del: tasks_node_run.simps node_step.simps)
  next
    case (4 e hs hash)
    with rests_deny [OF rest, of "PostDeny hs hash" hs hash n e] legal show ?thesis
      by (intro exI [of _ "DenyStart e (PostDeny hs hash) # replicate 3 (DenyNextStep (env_io e) 0)"])
        (simp add: list_all_iff del: tasks_node_run.simps node_step.simps)
  next
    case (5 e k)
    with rests_serve [OF rest] show ?thesis by blast
  next
    case (6 i)
    let ?i = "i\<lparr>set_order := sorted_list_of_set\<rparr>"
    have io: "write_out ?i = write_out i" "rename_ok ?i = rename_ok i" by simp_all
    have "store_put ?i s h b = store_put i s h b" for s h b unfolding store_put_def io ..
    then have "pin_store v ?i = pin_store v i" by (simp add: pin_store_def split: ingest_pc.split)
    moreover have "order_ok ?i" using order_ok_no_io by (simp add: order_ok_def no_io_def)
    ultimately show ?thesis
      using rests_put [OF rest, of n ?i] 6
      by (intro exI [of _ "PutStart ?i # replicate 6 (PutNextStep ?i)"]) (simp add: list_all_iff del: tasks_node_run.simps)
  qed (use False in simp_all)
qed

lemma rests_run:
  assumes "rests y v" and "list_all node_legal es"
  shows "\<exists>fs y'. list_all tasks_legal fs \<and> tasks_node_run n y fs = (y', snd (node_run n v es)) \<and> rests y' (fst (node_run n v es))"
  using assms
proof (induction es arbitrary: y v)
  case Nil
  then show ?case by (intro exI [of _ "[]"] exI [of _ y]) simp
next
  case (Cons e es)
  obtain v1 o1 where v1: "node_step n v e = (v1, o1)" by fastforce
  obtain v2 o2 where v2: "node_run n v1 es = (v2, o2)" by fastforce
  obtain fs1 y1 where 1: "list_all tasks_legal fs1" "tasks_node_run n y fs1 = (y1, o1)" "rests y1 v1"
    using rests_step [OF Cons.prems(1), of e n] Cons.prems(2) v1 by auto
  obtain fs2 y2 where 2: "list_all tasks_legal fs2" "tasks_node_run n y1 fs2 = (y2, o2)" "rests y2 v2"
    using Cons.IH [OF 1(3)] Cons.prems(2) v2 by auto
  from 1 2 v1 v2 show ?case
    by (intro exI [of _ "fs1 @ fs2"] exI [of _ y2]) (simp add: tasks_node_run_append)
qed

end
