(* ===== verification/Node_System_Live.thy ===== *)
theory Node_System_Live
  imports Node_System_Run
begin

text \<open>
  The ingest task of the running node makes progress: a \<open>Want\<close> it waits for is answered once the peer-to-peer
  task has taken it from the channel and libp2p has answered or failed the request; and, when nothing else runs in
  between, its steps for one pin are \<open>ingest_pin\<close>, its steps for a pass \<open>ingest_pass\<close>.
\<close>

section \<open>A want is answered\<close>

text \<open>The oneshot of a waiting ingest task is in the channel or with an outstanding request.\<close>

lemma waiting_somewhere:
  assumes "sys_ok n tok Q D y" and "s_pc y = Waiting r p ps"
  shows "running (s_p2p y)"
    and "s_cmds y = [] \<Longrightarrow> lower_hex64 (norm (payload_hash p)) \<and>
      (\<exists>rid. pending (s_p2p y) rid = Some (norm (payload_hash p), r))"
proof -
  have w: "want_ok y" using assms(1) by (simp add: sys_ok_def)
  then show "running (s_p2p y)" using assms(2) by (simp add: want_ok_def)
  assume "s_cmds y = []"
  with w assms(2) have "waiting (s_p2p y) = {#r#}" by (simp add: want_ok_def)
  then have "dom (pending (s_p2p y)) \<noteq> {}" by (auto simp: waiting_def)
  then obtain rid x where x: "pending (s_p2p y) rid = Some x" by blast
  moreover have "x \<in> pc_want (s_pc y)" "lower_hex64 (fst x)"
    using w ranI [of "pending (s_p2p y)" rid x] x by (auto simp: want_ok_def pending_wanted_def)
  ultimately have "pending (s_p2p y) rid = Some (norm (payload_hash p), r)" "lower_hex64 (norm (payload_hash p))"
    using assms(2) by simp_all
  then show "lower_hex64 (norm (payload_hash p)) \<and> (\<exists>rid. pending (s_p2p y) rid = Some (norm (payload_hash p), r))" by blast
qed

text \<open>One command is taken: the channel shrinks, and the ingest task still waits or was answered that there is no provider.\<close>

lemma command_step:
  assumes "s_cmds y = c # cs" and "running (s_p2p y)"
  shows "s_cmds (fst (node_step n y (P2pCommand e))) = cs \<and> running (s_p2p (fst (node_step n y (P2pCommand e)))) \<and>
    (s_pc (fst (node_step n y (P2pCommand e))) = s_pc y \<or>
     (\<exists>r p ps. s_pc y = Waiting r p ps \<and> s_pc (fst (node_step n y (P2pCommand e))) = AtPin ps))"
proof -
  let ?s = "p2p_view (y\<lparr>s_cmds := cs\<rparr>)"
  obtain p outs where step: "p2p_step (node_cfg n) ?s (e, cmd_event c) = (p, outs)" by fastforce
  have outs: "running p \<and> (\<exists>reply. outs = [Deliver reply None] \<or> sum_of delivered outs = {#})"
    using step assms(2)
    by (cases c) (auto simp: p2p_step_def on_want_def Let_def split: option.splits list.splits)
  have wake: "s_pc (take_reply (Deliver reply None) z) = s_pc z \<or>
      (\<exists>r p ps. s_pc z = Waiting r p ps \<and> s_pc (take_reply (Deliver reply None) z) = AtPin ps)" for reply z
    by (cases "s_pc z") simp_all
  have "fst (node_step n y (P2pCommand e)) = fold take_reply outs (y\<lparr>s_cmds := cs, s_p2p := p, s_store := p_store p\<rparr>)"
    using assms step by (simp add: run_p2p_def)
  moreover obtain reply where "running p" "outs = [Deliver reply None] \<or> sum_of delivered outs = {#}"
    using outs by blast
  ultimately show ?thesis
    using take_replies_none [of outs] wake [of reply "y\<lparr>s_cmds := cs, s_p2p := p, s_store := p_store p\<rparr>"]
    by (elim disjE) (simp_all del: node_step.simps take_reply.simps)
qed

lemma drain:
  assumes "length (s_cmds y) = length es" and "running (s_p2p y)" and "s_pc y = Waiting r p ps \<or> s_pc y = AtPin ps"
  shows "s_cmds (fst (node_run n y (map P2pCommand es))) = [] \<and> running (s_p2p (fst (node_run n y (map P2pCommand es)))) \<and>
    (s_pc (fst (node_run n y (map P2pCommand es))) = Waiting r p ps \<or> s_pc (fst (node_run n y (map P2pCommand es))) = AtPin ps)"
  using assms unfolding node_run_state
proof (induction es arbitrary: y)
  case (Cons e es)
  obtain c cs where c: "s_cmds y = c # cs" using Cons.prems(1) by (cases "s_cmds y") simp_all
  note step = command_step [OF c Cons.prems(2), of n e]
  have "length (s_cmds (fst (node_step n y (P2pCommand e)))) = length es"
    using step Cons.prems(1) c by simp
  moreover have "s_pc (fst (node_step n y (P2pCommand e))) = Waiting r p ps \<or> s_pc (fst (node_step n y (P2pCommand e))) = AtPin ps"
    using step Cons.prems(3) by (elim conjE disjE exE) simp_all
  ultimately show ?case using Cons.IH step by (simp del: node_step.simps)
qed simp

text \<open>The answer to the outstanding request, or its failure, wakes the task.\<close>

lemma answered:
  assumes "running (s_p2p y)" and "s_pc y = Waiting r p ps" and "pending (s_p2p y) rid = Some (h, r)"
  shows "s_pc (fst (node_step n y (P2pEvent e (OutboundFailure rid)))) = AtPin ps"
    and "s_pc (fst (node_step n y (P2pEvent e (Response rid x)))) =
      (case accept_get (n_crypto n) h x (max_object (n_config n)) of None \<Rightarrow> AtPin ps | Some b \<Rightarrow> Storing p b True ps)"
  using assms by (simp_all add: run_p2p_def p2p_step_def on_failure_def on_response_def node_cfg_def split: option.split)

section \<open>The ingest task alone\<close>

text \<open>Nothing is under way with the peer-to-peer task, and it knows the providers \<open>pv\<close>.\<close>

definition alone :: "(string \<rightharpoonup> string set) \<Rightarrow> node_sys \<Rightarrow> bool" where
  "alone pv y \<longleftrightarrow> s_cmds y = [] \<and> running (s_p2p y) \<and> pending (s_p2p y) = Map.empty \<and> providers (s_p2p y) = pv"

text \<open>Whether the task asks a peer for a hash, and what libp2p reports for the request.\<close>

definition has_provider :: "p2p_env \<Rightarrow> (string \<rightharpoonup> string set) \<Rightarrow> string \<Rightarrow> bool" where
  "has_provider e pv h \<longleftrightarrow> (case pv h of None \<Rightarrow> False | Some S \<Rightarrow> ev_order e S \<noteq> [])"

fun answer :: "nat \<Rightarrow> resp option \<Rightarrow> p2p_event" where
  "answer rid (Some r) = Response rid r"
| "answer rid None = OutboundFailure rid"

definition pin_events :: "p2p_env \<Rightarrow> nat \<Rightarrow> pin_env \<Rightarrow> node_event list" where
  "pin_events ev rid e =
     [PinDenied, PinHeld, PinAcquire (pin_net e), PinWant, P2pCommand ev, P2pEvent ev (answer rid (pin_peer e)), PinStore (pin_io e)]"

lemma pin_events_legal: "p2p_legal (ev, OtherEvent) \<Longrightarrow> list_all node_legal (pin_events ev rid e)"
  by (cases "pin_peer e") (simp_all add: pin_events_def p2p_legal_def)

text \<open>Events that find nothing to do (up to the copy of the store in the task's state).\<close>

definition synced :: "node_sys \<Rightarrow> node_sys" where
  "synced y = y\<lparr>s_p2p := p2p_view y\<rparr>"

lemma synced_fields [simp]:
  "s_store (synced y) = s_store y" "s_pc (synced y) = s_pc y" "s_counts (synced y) = s_counts y"
  "s_templates (synced y) = s_templates y" "s_self (synced y) = s_self y" "alone pv (synced y) = alone pv y"
  by (simp_all add: synced_def alone_def)

lemma idle_command: "alone pv y \<Longrightarrow> node_step n y (P2pCommand e) = (y, [])"
  by (simp add: alone_def)

lemma idle_answer: "alone pv y \<Longrightarrow> fst (node_step n y (P2pEvent e (answer rid r))) = synced y"
  by (cases r) (simp_all add: alone_def run_p2p_def p2p_step_def on_failure_def on_response_def synced_def)

text \<open>The seven steps of one pin are \<open>ingest_pin\<close> with the peer's answer, if a peer was asked.\<close>

definition pin_done :: "(string \<rightharpoonup> string set) \<Rightarrow> pin_item list \<Rightarrow> node_sys \<Rightarrow> store \<times> counts \<Rightarrow> node_sys \<Rightarrow> bool" where
  "pin_done pv ps y sc y' \<longleftrightarrow>
     alone pv y' \<and> s_pc y' = AtPin ps \<and> s_templates y' = s_templates y \<and> s_self y' = s_self y \<and> (s_store y', s_counts y') = sc"

lemma skipped_pin:
  assumes "alone pv y" and "s_pc y = AtPin ps"
  shows "pin_done pv ps y (s_store y, s_counts y)
    (foldl (\<lambda>y e. fst (node_step n y e)) y [P2pCommand ev, P2pEvent ev (answer rid r), PinStore i])"
  using assms by (simp add: idle_command [OF assms(1)] idle_answer [OF assms(1)] pin_store_def pin_stored_def pin_done_def
      del: node_step.simps(2,3))

lemma stored_pin:
  assumes "alone pv y" and "s_pc y = Storing p b v ps"
    and "s_store y = s" "s_counts y = k" "s_templates y = s_templates y0" "s_self y = s_self y0"
  shows "pin_done pv ps y0
    (case store_put i s (payload_hash p) b of
       (Inr _, s) \<Rightarrow> (s, if v then k\<lparr>n_from_peer := n_from_peer k + 1\<rparr> else k\<lparr>n_fetched := n_fetched k + 1\<rparr>)
     | (Inl _, s) \<Rightarrow> (s, k\<lparr>n_failed := n_failed k + 1\<rparr>))
    (pin_store y i)"
  using assms by (auto simp: pin_store_def pin_stored_def fail_pin_def pin_done_def alone_def split: prod.split sum.split)

text \<open>The pin is put to the peers: what the command, the answer and the put make of it.\<close>

lemma asked_pin:
  assumes "alone pv y" and "s_pc y = Asking p ps"
    and "pin_peer e \<noteq> None \<Longrightarrow> has_provider ev pv (norm (payload_hash p))"
    and s: "s_store y = s" "s_counts y = k" "next_rid (s_p2p y) = rid" "s_templates y = s_templates y0" "s_self y = s_self y0"
  shows "pin_done pv ps y0
    (case want_from_peers n (payload_hash p) (pin_peer e) of
       None \<Rightarrow> (s, k\<lparr>n_failed := n_failed k + 1\<rparr>)
     | Some b \<Rightarrow>
         (case store_put (pin_io e) s (payload_hash p) b of
            (Inr _, s) \<Rightarrow> (s, k\<lparr>n_from_peer := n_from_peer k + 1\<rparr>)
          | (Inl _, s) \<Rightarrow> (s, k\<lparr>n_failed := n_failed k + 1\<rparr>)))
    (foldl (\<lambda>y e. fst (node_step n y e)) y
      [PinWant, P2pCommand ev, P2pEvent ev (answer rid (pin_peer e)), PinStore (pin_io e)])"
proof -
  let ?r = "s_reply y" and ?h = "norm (payload_hash p)"
  let ?y1 = "y\<lparr>s_cmds := [WantCmd (payload_hash p) ?r], s_pc := Waiting ?r p ps, s_reply := Suc ?r\<rparr>"
  have y1: "pin_want y = ?y1"
    using assms(1,2) by (simp add: pin_want_def alone_def CMD_CAP_def)
  have run: "running (s_p2p y)" "pending (s_p2p y) = Map.empty" "providers (s_p2p y) = pv" "s_cmds y = []"
    using assms(1) by (simp_all add: alone_def)
  note run = run s
  show ?thesis
  proof (cases "has_provider ev pv ?h")
    case True
    then obtain S q qs where S: "pv ?h = Some S" "ev_order ev S = q # qs"
      by (auto simp: has_provider_def split: option.splits) (metis neq_Nil_conv)
    let ?y2 = "?y1\<lparr>s_cmds := [], s_p2p := (p2p_view y)\<lparr>pending := [rid \<mapsto> (?h, ?r)], next_rid := Suc rid\<rparr>\<rparr>"
    have y2: "fst (node_step n ?y1 (P2pCommand ev)) = ?y2"
      using run S by (simp add: run_p2p_def p2p_step_def on_want_def p2p_view_def Let_def)
    let ?y3 = "?y2\<lparr>s_p2p := (p2p_view y)\<lparr>next_rid := Suc rid\<rparr>\<rparr>"
    have alone3: "alone pv ?y3" using run by (simp add: alone_def p2p_view_def)
    have y3: "fst (node_step n ?y2 (P2pEvent ev (answer rid (pin_peer e)))) =
        (case want_from_peers n (payload_hash p) (pin_peer e) of
           None \<Rightarrow> ?y3\<lparr>s_pc := AtPin ps, s_counts := k\<lparr>n_failed := n_failed k + 1\<rparr>\<rparr>
         | Some b \<Rightarrow> ?y3\<lparr>s_pc := Storing p b True ps\<rparr>)"
      using run
      by (cases "pin_peer e")
        (auto simp: run_p2p_def p2p_step_def on_failure_def on_response_def p2p_view_def node_cfg_def want_from_peers_def
          split: option.split)
    note steps = foldl.simps node_step.simps(10,11) fst_conv y1 y2 y3
    show ?thesis
    proof (cases "want_from_peers n (payload_hash p) (pin_peer e)")
      case None
      then show ?thesis
        unfolding steps using alone3 s by (simp add: pin_done_def pin_store_def pin_stored_def alone_def)
    next
      case (Some b)
      let ?y4 = "?y3\<lparr>s_pc := Storing p b True ps\<rparr>"
      have "alone pv ?y4" using alone3 by (simp add: alone_def)
      from stored_pin [OF this, of p b True ps s k y0 "pin_io e", unfolded if_True] show ?thesis
        unfolding steps Some using s by simp
    qed
  next
    case False
    then have none: "pin_peer e = None" using assms(3) by blast
    let ?y2 = "?y1\<lparr>s_cmds := [], s_p2p := p2p_view y, s_pc := AtPin ps, s_counts := k\<lparr>n_failed := n_failed k + 1\<rparr>\<rparr>"
    have y2: "fst (node_step n ?y1 (P2pCommand ev)) = ?y2"
      using run False
      by (auto simp: run_p2p_def p2p_step_def on_want_def p2p_view_def has_provider_def Let_def split: option.split)
    have "alone pv ?y2" using run by (simp add: alone_def p2p_view_def)
    note idle = idle_answer [OF this]
    show ?thesis
      unfolding foldl.simps node_step.simps(10,11) fst_conv y1 y2 idle
      using \<open>alone pv ?y2\<close> s by (simp add: none want_from_peers_def pin_done_def pin_store_def pin_stored_def)
  qed
qed

lemma pin_alone:
  assumes "alone pv y" and "s_pc y = AtPin (p # ps)" and "quiet e"
    and "pin_peer e \<noteq> None \<Longrightarrow> has_provider ev pv (norm (payload_hash p))"
  shows "pin_done pv ps y (ingest_pin n (s_templates y) (e, p) (s_store y, s_counts y))
    (fst (node_run n y (pin_events ev (next_rid (s_p2p y)) e)))"
proof -
  let ?tail = "[P2pCommand ev, P2pEvent ev (answer (next_rid (s_p2p y)) (pin_peer e)), PinStore (pin_io e)]"
  let ?acq = "ok_bytes (acquire (n_crypto n) (pin_net e) (payload_hash p) (pin_urls n (s_templates y) p) (max_object (n_config n)))"
  note skip = skipped_pin [where rid = "next_rid (s_p2p y)" and r = "pin_peer e" and i = "pin_io e" and ev = ev and n = n]
  note steps = pin_events_def node_run_state foldl.simps node_step.simps(7-11) fst_conv
  show ?thesis
  proof (cases "store_is_denied (s_store y) (payload_hash p)")
    case True
    let ?y = "y\<lparr>s_pc := AtPin ps\<rparr>"
    have pc: "pin_denied y = ?y" "pin_held ?y = ?y" "pin_acquire n ?y (pin_net e) = ?y" "pin_want ?y = ?y"
      using assms(2) True by (simp_all add: pin_denied_def pin_held_def pin_acquire_def pin_want_def)
    have "alone pv ?y" using assms(1) by (simp add: alone_def)
    from skip [OF this, of ps] True show ?thesis
      unfolding steps pc by (simp add: ingest_pin_def pin_done_def del: node_step.simps)
  next
    case denied: False
    let ?y1 = "y\<lparr>s_pc := Checked p ps\<rparr>"
    have y1: "pin_denied y = ?y1" using assms(2) denied by (simp add: pin_denied_def)
    show ?thesis
    proof (cases "store_has (s_store y) (payload_hash p) = None")
      case False
      let ?y = "y\<lparr>s_pc := AtPin ps, s_counts := (s_counts y)\<lparr>n_held := n_held (s_counts y) + 1\<rparr>\<rparr>"
      have pc: "pin_held ?y1 = ?y" "pin_acquire n ?y (pin_net e) = ?y" "pin_want ?y = ?y"
        using False by (simp_all add: pin_held_def pin_acquire_def pin_want_def)
      have "alone pv ?y" using assms(1) by (simp add: alone_def)
      from skip [OF this, of ps] denied False show ?thesis
        unfolding steps y1 pc by (simp add: ingest_pin_def pin_done_def del: node_step.simps)
    next
      case True
      let ?y2 = "y\<lparr>s_pc := Acquiring p ps\<rparr>"
      have y2: "pin_held ?y1 = ?y2" using True by (simp add: pin_held_def)
      note todo = denied True assms(3)
      show ?thesis
      proof (cases ?acq)
        case (Some b)
        let ?y3 = "y\<lparr>s_pc := Storing p b False ps\<rparr>"
        have pc: "pin_acquire n ?y2 (pin_net e) = ?y3" "pin_want ?y3 = ?y3"
          using Some by (simp_all add: pin_acquire_def pin_want_def)
        have a: "alone pv ?y3" using assms(1) by (simp add: alone_def)
        have "alone pv (synced ?y3)" using a by simp
        from stored_pin [OF this, of p b False ps "s_store y" "s_counts y" y "pin_io e", unfolded if_False] todo Some
        show ?thesis
          unfolding steps y1 y2 pc idle_command [OF a] idle_answer [OF a]
          by (simp add: ingest_pin_def quiet_def fetch_pin_def cong: option.case_cong)
      next
        case None
        let ?y3 = "y\<lparr>s_pc := Asking p ps\<rparr>"
        have pc: "pin_acquire n ?y2 (pin_net e) = ?y3" using None by (simp add: pin_acquire_def)
        have "alone pv ?y3" using assms(1) by (simp add: alone_def)
        note asked = asked_pin [OF this, of p ps e ev "s_store y" "s_counts y" "next_rid (s_p2p y)" y n]
        have "ingest_pin n (s_templates y) (e, p) (s_store y, s_counts y) =
            (case want_from_peers n (payload_hash p) (pin_peer e) of
               None \<Rightarrow> (s_store y, (s_counts y)\<lparr>n_failed := n_failed (s_counts y) + 1\<rparr>)
             | Some b \<Rightarrow>
                 (case store_put (pin_io e) (s_store y) (payload_hash p) b of
                    (Inr _, s) \<Rightarrow> (s, (s_counts y)\<lparr>n_from_peer := n_from_peer (s_counts y) + 1\<rparr>)
                  | (Inl _, s) \<Rightarrow> (s, (s_counts y)\<lparr>n_failed := n_failed (s_counts y) + 1\<rparr>)))"
          using todo None by (simp add: ingest_pin_def quiet_def fetch_pin_def split: option.split)
        with asked assms(4) show ?thesis
          unfolding steps y1 y2 pc by (simp add: pin_done_def del: node_step.simps)
      qed
    qed
  qed
qed

text \<open>All pins of a pass, one after the other.\<close>

lemma pins_alone:
  assumes "alone pv y" and "s_pc y = AtPin ps" and "p2p_legal (ev, OtherEvent)"
    and "\<And>i. i < length ps \<Longrightarrow> quiet (env (k + i)) \<and>
      (pin_peer (env (k + i)) \<noteq> None \<longrightarrow> has_provider ev pv (norm (payload_hash (ps ! i))))"
  shows "\<exists>es. list_all node_legal es \<and>
    pin_done pv [] y (fold (ingest_pin n (s_templates y)) (map (\<lambda>(i, p). (env i, p)) (List.enumerate k ps)) (s_store y, s_counts y))
      (fst (node_run n y es))"
  using assms
proof (induction ps arbitrary: y k)
  case Nil
  then show ?case by (intro exI [of _ "[]"]) (simp add: pin_done_def)
next
  case (Cons p ps)
  let ?es = "pin_events ev (next_rid (s_p2p y)) (env k)"
  let ?y = "fst (node_run n y ?es)"
  have first: "pin_done pv ps y (ingest_pin n (s_templates y) (env k, p) (s_store y, s_counts y)) ?y"
    using Cons.prems(1,2) Cons.prems(4) [of 0] by (intro pin_alone) simp_all
  have rest: "quiet (env (Suc k + i)) \<and> (pin_peer (env (Suc k + i)) \<noteq> None \<longrightarrow> has_provider ev pv (norm (payload_hash (ps ! i))))"
    if "i < length ps" for i
    using Cons.prems(4) [of "Suc i"] that by simp
  have "alone pv ?y" "s_pc ?y = AtPin ps" using first by (simp_all add: pin_done_def)
  from Cons.IH [OF this Cons.prems(3) rest] obtain es where es: "list_all node_legal es"
    "pin_done pv [] ?y (fold (ingest_pin n (s_templates ?y)) (map (\<lambda>(i, p). (env i, p)) (List.enumerate (Suc k) ps)) (s_store ?y, s_counts ?y))
      (fst (node_run n ?y es))"
    by blast
  then have "pin_done pv [] y (fold (ingest_pin n (s_templates y)) (map (\<lambda>(i, p). (env i, p)) (List.enumerate k (p # ps))) (s_store y, s_counts y))
      (fst (node_run n y (?es @ es)))"
    using first by (simp add: node_run_state pin_done_def)
  then show ?case using es(1) pin_events_legal [OF Cons.prems(3)] by (intro exI [of _ "?es @ es"]) simp
qed

lemma dials_alone:
  assumes "alone pv y" and "s_pc y = Dialling as" and "p2p_legal (ev, OtherEvent)"
  shows "\<exists>es. list_all node_legal es \<and> alone pv (fst (node_run n y es)) \<and> s_pc (fst (node_run n y es)) = Listing \<and>
    s_store (fst (node_run n y es)) = s_store y \<and> s_templates (fst (node_run n y es)) = s_templates y"
  using assms
proof (induction as arbitrary: y)
  case Nil
  then show ?case by (intro exI [of _ "[PassDial]"]) (simp add: pass_dial_def alone_def)
next
  case (Cons a as)
  let ?y = "y\<lparr>s_cmds := [], s_pc := Dialling as, s_p2p := p2p_view y\<rparr>"
  have y: "node_run n y [PassDial, P2pCommand ev] = (?y, [P2pOut (DialOut a)])"
    using Cons.prems(1,2) by (simp add: pass_dial_def alone_def CMD_CAP_def run_p2p_def p2p_step_def p2p_view_def)
  have "alone pv ?y" using Cons.prems(1) by (simp add: alone_def p2p_view_def)
  from Cons.IH [OF this _ Cons.prems(3)] obtain es where es: "list_all node_legal es" "alone pv (fst (node_run n ?y es))"
    "s_pc (fst (node_run n ?y es)) = Listing" "s_store (fst (node_run n ?y es)) = s_store y"
    "s_templates (fst (node_run n ?y es)) = s_templates y"
    by auto
  have "fst (node_run n y ([PassDial, P2pCommand ev] @ es)) = fst (node_run n ?y es)"
    unfolding node_run_append y by (simp add: split_beta Let_def)
  with es Cons.prems(3) show ?case
    by (intro exI [of _ "[PassDial, P2pCommand ev] @ es"]) (simp add: p2p_legal_def)
qed

lemma pass_alone:
  fixes x :: "string pass_inputs"
  assumes "alone pv y" and "s_pc y = Sleeping" and "p2p_legal (ev, OtherEvent)" and "\<And>i. quiet (in_pins x i)"
    and "\<And>ps i. confirmed_pins (in_decoders x) (chain_new (rpc (n_config n))) (in_chain x) (confirmations (n_config n))
        (per_domain (n_config n)) = Inr ps \<Longrightarrow> i < length ps \<Longrightarrow> pin_peer (in_pins x i) \<noteq> None \<Longrightarrow>
      has_provider ev pv (norm (payload_hash (ps ! i)))"
  shows "\<exists>es. list_all node_legal es \<and> alone pv (fst (node_run n y es)) \<and> s_pc (fst (node_run n y es)) = Sleeping \<and>
    s_store (fst (node_run n y es)) = fst (ingest_pass n x (s_store y)) \<and>
    (\<forall>c. snd (ingest_pass n x (s_store y)) = Inr c \<longrightarrow> s_counts (fst (node_run n y es)) = c)"
proof -
  let ?y1 = "pass_begin n y x"
  have y1: "alone pv ?y1" "s_pc ?y1 = Dialling (pass_dials n x (s_self y))" "s_store ?y1 = s_store y"
    "s_templates ?y1 = gw_templates n x"
    using assms(1,2) by (simp_all add: pass_begin_def alone_def)
  from dials_alone [OF y1(1,2) assms(3), of n] obtain es where es: "list_all node_legal es"
    "alone pv (fst (node_run n ?y1 es))" "s_pc (fst (node_run n ?y1 es)) = Listing"
    "s_store (fst (node_run n ?y1 es)) = s_store y" "s_templates (fst (node_run n ?y1 es)) = gw_templates n x"
    using y1 by auto
  let ?y2 = "fst (node_run n ?y1 es)"
  have run2: "fst (node_run n y (PassBegin x # es @ fs)) = fst (node_run n ?y2 fs)" for fs
    by (simp add: node_run_state)
  show ?thesis
  proof (cases "confirmed_pins (in_decoders x) (chain_new (rpc (n_config n))) (in_chain x) (confirmations (n_config n))
        (per_domain (n_config n))")
    case (Inl err)
    with es run2 [of "[PassList x]"] show ?thesis
      by (intro exI [of _ "PassBegin x # es @ [PassList x]"]) (simp add: pass_list_def ingest_pass_def alone_def)
  next
    case (Inr ps)
    let ?y3 = "pass_list n ?y2 x"
    have y3: "alone pv ?y3" "s_pc ?y3 = AtPin ps" "s_store ?y3 = s_store y" "s_templates ?y3 = gw_templates n x"
      "s_counts ?y3 = zero_counts"
      using es(2-5) Inr by (simp_all add: pass_list_def alone_def)
    have "quiet (in_pins x (0 + i)) \<and> (pin_peer (in_pins x (0 + i)) \<noteq> None \<longrightarrow> has_provider ev pv (norm (payload_hash (ps ! i))))"
      if "i < length ps" for i
      using assms(4) assms(5) [OF Inr that] by simp
    from pins_alone [OF y3(1,2) assms(3) this, of n] obtain fs where fs: "list_all node_legal fs"
      "pin_done pv [] ?y3 (ingest_pins n (gw_templates n x) (in_pins x) ps (s_store y)) (fst (node_run n ?y3 fs))"
      unfolding ingest_pins_def y3(3-5) by blast
    let ?all = "PassBegin x # es @ PassList x # fs @ [PinDenied]"
    have "fst (node_run n y ?all) = pin_denied (fst (node_run n ?y3 fs))"
      using run2 [of "PassList x # fs @ [PinDenied]"] by (simp add: node_run_state)
    then have "alone pv (fst (node_run n y ?all)) \<and> s_pc (fst (node_run n y ?all)) = Sleeping \<and>
        (s_store (fst (node_run n y ?all)), s_counts (fst (node_run n y ?all)))
          = ingest_pins n (gw_templates n x) (in_pins x) ps (s_store y)"
      using fs(2) by (simp add: pin_denied_def pin_done_def alone_def)
    then show ?thesis
      using Inr es(1) fs(1) by (intro exI [of _ ?all]) (auto simp: ingest_pass_def split: prod.splits)
  qed
qed

end
