(* ===== verification/Node_System_Props.thy ===== *)
theory Node_System_Props
  imports Node_System_Live
begin

text \<open>
  The properties of the running node whose handlers and puts are single steps: whatever the network, the peers and the
  HTTP clients do, the ingest task never loses its answer; and the passes of the ingest task, run alone, are the
  sequential ones. What holds when handlers overlap is in \<open>Node_Tasks_Props\<close>.
\<close>

section \<open>A concrete start\<close>

text \<open>
  A node with an admin token and no byte budget, started on an empty directory, whose identity file is new; one
  confirmed pin, which the origin serves.
\<close>

definition sys_node :: node where
  "sys_node = demo_node\<lparr>n_config := demo_config\<lparr>config_token := Some ''s'', store_cap := 0\<rparr>\<rparr>"

definition sys_boot :: "u8 boot_env" where
  "sys_boot =
     \<lparr>be_keys = demo_keys, be_id = demo_id_io, be_build_ok = True, be_subscribe_ok = True, be_listen_ok = True,
      be_multiaddr = Some, be_peers = (\<lambda>_. None), be_indexer = (\<lambda>_. None)\<rparr>"

definition sys_inputs :: "string pass_inputs" where
  "sys_inputs =
     \<lparr>in_decoders = node_decoders, in_gateways = (\<lambda>_. None), in_peers = (\<lambda>_. None), in_multiaddr = Some,
      in_indexer = (\<lambda>_. None), in_chain = demo_pass, in_pins = (\<lambda>_. served_env)\<rparr>"

definition sys_start :: node_sys where
  "sys_start =
     \<lparr>s_store = empty_store, s_gw = gw_start (n_config sys_node) empty_store, s_p2p = p2p_start empty_store None, s_cmds = [],
      s_pc = Sleeping, s_counts = zero_counts, s_templates = [], s_reply = 0, s_self = []\<rparr>"

lemma sys_node_fields [simp]:
  "n_crypto sys_node = demo_crypto" "n_url_parse sys_node = demo_up" "config_token (n_config sys_node) = Some ''s''"
  "store_cap (n_config sys_node) = 0" "indexer (n_config sys_node) = []" "rpc (n_config sys_node) = rpc demo_config"
  "confirmations (n_config sys_node) = 3" "per_domain (n_config sys_node) = 500" "max_object (n_config sys_node) = 2097152"
  by (simp_all add: sys_node_def demo_node_def)

lemma sys_store: "fst (node_start (demo_open []) (n_config sys_node) Map.empty) = Inr empty_store"
  by (simp add: node_start_def store_open_def demo_open_def load_denylist_def fs_read_def fs_read_to_string_def with_max_bytes_def empty_store_def)

lemma sys_identity: "identity_path demo_config = Some ''./swarm-store/p2p-identity.key''" "bootstrap demo_config = []"
  unfolding demo_config_def read_config_def Let_def env_or_def config.simps option.case by code_simp+

lemma sys_conns: "conns (s_gw sys_start) = 64"
  by (simp add: sys_start_def gw_start_def sys_node_def demo_config_def read_config_def env_or_def unwrap_or_def
      parse_u64_def digits_val_def digit_val_def is_digit_def Let_def)

lemma sys_boots: "\<exists>d'. node_boot sys_boot (demo_open []) sys_node Map.empty Map.empty = (Inr (sys_start, []), d')"
proof -
  have id: "identity_path (n_config sys_node) = Some ''./swarm-store/p2p-identity.key''" "bootstrap (n_config sys_node) = []"
    using sys_identity by (simp_all add: sys_node_def)
  have key: "load_or_create_identity demo_keys demo_id_io (Some p) Map.empty = (Inr 3, [p \<mapsto> [3]])" for p
    by (simp add: load_or_create_identity_def save_identity_def fs_read_def fs_write_def demo_keys_def demo_id_io_def)
  have read: "key_read_ok demo_id_io" by (simp add: demo_id_io_def)
  have none: "self_peer_id demo_keys True (n_config sys_node) Map.empty = []"
    by (simp add: self_peer_id_def id peer_id_at_def fs_read_def unwrap_or_def)
  show ?thesis
    using sys_store read
    by (simp add: node_boot_def sys_boot_def p2p_boot_def id key none boot_peers_def peers_discover_def sys_start_def Let_def
        List.map_filter_def)
qed

lemma sys_dir: "clean_listing (demo_open []) Map.empty" "honest_dir (n_crypto sys_node) Map.empty"
  by (simp_all add: demo_open_clean honest_dir_def)

lemma sys_legal: "p2p_legal (demo_ev, OtherEvent)"
  by simp

text \<open>The pass pins the demo blob, and then the gateway serves it.\<close>

lemma sys_alone: "alone Map.empty sys_start" "s_pc sys_start = Sleeping" "s_store sys_start = empty_store"
  by (simp_all add: alone_def sys_start_def p2p_start_def)

lemma sys_pins:
  "confirmed_pins (in_decoders sys_inputs) (chain_new (rpc (n_config sys_node))) (in_chain sys_inputs) (confirmations (n_config sys_node))
     (per_domain (n_config sys_node)) = Inr [demo_pin]"
  by (simp add: sys_inputs_def node_pins)

lemma sys_held: "demo_digest \<in> dom (index (fst (ingest_pass sys_node sys_inputs empty_store)))"
proof -
  have "pin_urls sys_node [] demo_pin = pin_urls demo_node [] demo_pin"
    by (simp add: pin_urls_def sys_node_def demo_node_def)
  then have "obtainable sys_node [] served_env demo_pin"
    using demo_obtainable by (simp add: obtainable_def demo_node_def)
  then have "norm (payload_hash ([demo_pin] ! 0)) \<in> dom (index (fst (ingest_pins sys_node [] (\<lambda>_. served_env) [demo_pin] empty_store)))"
    by (intro ingest_pins_unbounded) (simp_all add: quiet_def served_env_def empty_store_def)
  moreover have "fst (ingest_pass sys_node sys_inputs empty_store)
      = fst (ingest_pins sys_node [] (\<lambda>_. served_env) [demo_pin] empty_store)"
    unfolding ingest_pass_def sys_pins by (simp add: gw_templates_def sys_inputs_def split: prod.split)
  ultimately show ?thesis by (simp add: demo_pin_def)
qed

lemma sys_ingests:
  obtains es where "list_all node_legal es" "demo_digest \<in> dom (index (s_store (fst (node_run sys_node sys_start es))))"
proof -
  have "quiet (in_pins sys_inputs i)" "pin_peer (in_pins sys_inputs i) = None" for i
    by (simp_all add: sys_inputs_def served_env_def quiet_def)
  then obtain es where "list_all node_legal es"
    "s_store (fst (node_run sys_node sys_start es)) = fst (ingest_pass sys_node sys_inputs (s_store sys_start))"
    using pass_alone [OF sys_alone(1,2) sys_legal, of sys_inputs sys_node] by auto
  moreover from this have "demo_digest \<in> dom (index (s_store (fst (node_run sys_node sys_start es))))"
    using sys_held by (simp only: sys_alone(3))
  ultimately show thesis by (intro that)
qed

lemma sys_gets:
  assumes "list_all node_legal es" and "node_run sys_node sys_start es = (y, outs)" and "demo_digest \<in> dom (index (s_store y))"
  shows "\<exists>b. get_content demo_crypto True (gw_view y) [] demo_digest = Some (full_result demo_digest b)"
proof -
  obtain d' where boot: "node_boot sys_boot (demo_open []) sys_node Map.empty Map.empty = (Inr (sys_start, []), d')"
    using sys_boots by blast
  have "sys_ok sys_node (Some ''s'') UNIV {} sys_start" using node_boot_ok [OF boot sys_dir, of "{}" UNIV] by simp
  then have ok: "sys_ok sys_node (Some ''s'') UNIV {} y"
    using node_runs.run_inv assms(1) node_run_state [of sys_node sys_start es] assms(2) by simp
  then have st: "store_ok (s_store y)" "certified demo_crypto (s_store y)" using sys_ok_store by fastforce+
  then have "demo_digest \<notin> denied (s_store y)" using store_run.banned_not_held assms(3) by blast
  moreover obtain b where "files (s_store y) (blob_path demo_digest) = Some b" "sha256_hex demo_crypto b = demo_digest"
    using st(2) assms(3) by (auto simp: certified_def)
  moreover have "conns (gw_view y) = 64"
    using node_run_conns [of sys_node sys_start es] assms(2) sys_conns by (simp add: gw_view_def)
  ultimately show ?thesis
    using assms(3) by (auto simp: get_content_eq gw_norm_eq serve_result_def store_get_def fs_read_def range_of_def header_get_def)
qed

text \<open>When no URL answers, the ingest task puts the pin to the peers.\<close>

lemma sys_waits:
  defines "y \<equiv> fst (node_run sys_node sys_start
    [PassBegin sys_inputs, PassDial, PassList sys_inputs, PinDenied, PinHeld, PinAcquire (\<lambda>_ _. None), PinWant])"
  shows "s_pc y = Waiting 0 demo_pin []" and "length (s_cmds y) = 1"
proof -
  let ?at = "\<lambda>pc. sys_start\<lparr>s_pc := pc\<rparr>"
  have "\<nexists>b. acquire demo_crypto (\<lambda>_ _. None) demo_digest urls m = Inr b" for urls m
    by (simp add: acquire_Inr_iff verifies_def fetch_capped_Inr_iff)
  then have none: "ok_bytes (acquire demo_crypto (\<lambda>_ _. None) demo_digest urls m) = None" for urls m
    by (auto simp: ok_bytes_def split: sum.split)
  have start: "s_store sys_start = empty_store" "running (s_p2p sys_start)" "s_cmds sys_start = []" "s_reply sys_start = 0"
    "s_templates sys_start = []" "s_counts sys_start = zero_counts" "s_pc sys_start = Sleeping"
    by (simp_all add: sys_start_def p2p_start_def)
  have "pass_begin sys_node sys_start sys_inputs = ?at (Dialling [])"
    by (simp add: pass_begin_def sys_start_def gw_templates_def pass_dials_def peers_discover_def)
  moreover have "pass_dial (?at (Dialling [])) = ?at Listing" by (simp add: pass_dial_def)
  moreover have "pass_list sys_node (?at Listing) sys_inputs = ?at (AtPin [demo_pin])"
    unfolding pass_list_def sys_pins by (simp add: sys_start_def)
  moreover have "pin_denied (?at (AtPin [demo_pin])) = ?at (Checked demo_pin [])"
    by (simp add: pin_denied_def start store_is_denied_def empty_store_def)
  moreover have "pin_held (?at (Checked demo_pin [])) = ?at (Acquiring demo_pin [])"
    by (simp add: pin_held_def start store_has_def empty_store_def)
  moreover have "pin_acquire sys_node (?at (Acquiring demo_pin [])) (\<lambda>_ _. None) = ?at (Asking demo_pin [])"
    using none by (simp add: pin_acquire_def demo_pin_def)
  ultimately have "y = pin_want (?at (Asking demo_pin []))" by (simp add: y_def node_run_state)
  then show "s_pc y = Waiting 0 demo_pin []" and "length (s_cmds y) = 1"
    by (simp_all add: pin_want_def start CMD_CAP_def)
qed

text \<open>
  C3: the ingest task never loses its answer. Whenever it waits for the answer to a \<open>Want\<close>, the peer-to-peer task
  is running; after that task has taken the commands now in the channel, the ingest task has been answered that
  there is no provider, or its oneshot is held by an outstanding request for exactly the wanted hash, and the
  failure of that request, or a response of any kind to it, wakes the ingest task: with bytes that hash to the pin,
  or to go on with the next pin.
\<close>

theorem want_never_lost:
  assumes "node_boot be oi n dir d = (Inr (y0, outs0), d')" and "clean_listing oi dir" and "honest_dir (n_crypto n) dir"
    and "list_all node_legal es" and "node_run n y0 es = (y, outs)" and "s_pc y = Waiting r p ps"
    and "list_all (\<lambda>e. hash_iter (ev_order e) \<and> order_ok (ev_io e)) cs" and "length cs = length (s_cmds y)"
  shows "running (s_p2p y) \<and>
    (let y' = fst (node_run n y (map P2pCommand cs)) in
       s_pc y' = AtPin ps \<or>
       s_pc y' = Waiting r p ps \<and>
       (\<exists>rid. pending (s_p2p y') rid = Some (norm (payload_hash p), r) \<and>
          (\<forall>e. s_pc (fst (node_step n y' (P2pEvent e (OutboundFailure rid)))) = AtPin ps) \<and>
          (\<forall>e x. s_pc (fst (node_step n y' (P2pEvent e (Response rid x)))) = AtPin ps \<or>
             (\<exists>b. s_pc (fst (node_step n y' (P2pEvent e (Response rid x)))) = Storing p b True ps \<and>
                sha256_hex (n_crypto n) b = norm (payload_hash p)))))"
proof -
  let ?y' = "fst (node_run n y (map P2pCommand cs))"
  let ?tok = "config_token (n_config n)"
  have "sys_ok n ?tok UNIV {} y0" using assms(1-3) by (rule node_boot_ok) simp
  then have ok: "sys_ok n ?tok UNIV {} y"
    using node_runs.run_inv assms(4) node_run_state [of n y0 es] assms(5) by simp
  note run = waiting_somewhere(1) [OF ok assms(6)]
  note drained = drain [of y cs r p ps n, OF assms(8) [symmetric] run] assms(6)
  have "list_all node_legal (map P2pCommand cs)" using assms(7) by (simp add: list_all_iff)
  then have ok': "sys_ok n ?tok UNIV {} ?y'" using node_runs.run_inv [OF ok] by (simp add: node_run_state)
  show ?thesis
  proof (cases "s_pc ?y' = AtPin ps")
    case True
    with run show ?thesis by (simp add: Let_def)
  next
    case False
    with drained have w: "s_pc ?y' = Waiting r p ps" "running (s_p2p ?y')" "s_cmds ?y' = []" by simp_all
    from waiting_somewhere(2) [OF ok' w(1,3)] obtain rid where rid: "pending (s_p2p ?y') rid = Some (norm (payload_hash p), r)"
      and hex: "norm (norm (payload_hash p)) = norm (payload_hash p)"
      by (auto simp: norm_lower_hex64)
    note wake = answered [OF w(2,1) rid]
    have "s_pc (fst (node_step n ?y' (P2pEvent e (Response rid x)))) = AtPin ps \<or>
        (\<exists>b. s_pc (fst (node_step n ?y' (P2pEvent e (Response rid x)))) = Storing p b True ps \<and>
          sha256_hex (n_crypto n) b = norm (payload_hash p))" for e x
      by (cases "accept_get (n_crypto n) (norm (payload_hash p)) x (max_object (n_config n))")
        (auto simp: wake(2) accept_get_iff hex simp del: node_step.simps)
    with run w(1) rid wake(1) show ?thesis unfolding Let_def by blast
  qed
qed

theorem want_never_lost_witness:
  "\<exists>es y outs. node_run sys_node sys_start es = (y, outs) \<and> s_pc y = Waiting 0 demo_pin [] \<and> running (s_p2p y) \<and>
     (s_pc (fst (node_run sys_node y [P2pCommand demo_ev])) = AtPin [] \<or>
      s_pc (fst (node_run sys_node y [P2pCommand demo_ev])) = Waiting 0 demo_pin [])"
proof -
  obtain d' where boot: "node_boot sys_boot (demo_open []) sys_node Map.empty Map.empty = (Inr (sys_start, []), d')"
    using sys_boots by blast
  let ?es = "[PassBegin sys_inputs, PassDial, PassList sys_inputs, PinDenied, PinHeld, PinAcquire (\<lambda>_ _. None), PinWant]"
  obtain y outs where y: "node_run sys_node sys_start ?es = (y, outs)" by fastforce
  have pc: "s_pc y = Waiting 0 demo_pin []" "length (s_cmds y) = 1"
    using sys_waits y by (simp_all del: node_run.simps)
  have legal: "list_all node_legal ?es" "list_all (\<lambda>e. hash_iter (ev_order e) \<and> order_ok (ev_io e)) [demo_ev]"
    using sys_legal by (simp_all add: p2p_legal_def)
  from want_never_lost [OF boot sys_dir legal(1) y pc(1) legal(2)] pc(2)
  have "running (s_p2p y) \<and> (s_pc (fst (node_run sys_node y [P2pCommand demo_ev])) = AtPin [] \<or>
      s_pc (fst (node_run sys_node y [P2pCommand demo_ev])) = Waiting 0 demo_pin [])"
    unfolding Let_def by (auto simp del: node_run.simps)
  with y pc(1) show ?thesis by blast
qed

text \<open>
  C13: the sequential ingest pass is what the running node does when nothing else runs. From a moment at which the
  ingest task sleeps and nothing is under way with the peer-to-peer task, some admissible run of the node (the
  steps of the ingest task, each command taken at once, each request answered) leaves exactly the store and the
  counters of \<open>ingest_pass\<close>, and the ingest task asleep again; peers are asked only for hashes with a provider.
\<close>

theorem pass_is_a_run:
  fixes x :: "string pass_inputs"
  assumes "alone pv y" and "s_pc y = Sleeping" and "hash_iter (ev_order ev)" and "order_ok (ev_io ev)"
    and "\<And>i. quiet (in_pins x i)"
    and "\<And>ps i. confirmed_pins (in_decoders x) (chain_new (rpc (n_config n))) (in_chain x) (confirmations (n_config n))
        (per_domain (n_config n)) = Inr ps \<Longrightarrow> i < length ps \<Longrightarrow> pin_peer (in_pins x i) \<noteq> None \<Longrightarrow>
      has_provider ev pv (norm (payload_hash (ps ! i)))"
  shows "\<exists>es y' outs. list_all node_legal es \<and> node_run n y es = (y', outs) \<and> alone pv y' \<and> s_pc y' = Sleeping \<and>
    s_store y' = fst (ingest_pass n x (s_store y)) \<and>
    (\<forall>c. snd (ingest_pass n x (s_store y)) = Inr c \<longrightarrow> s_counts y' = c)"
proof -
  have "p2p_legal (ev, OtherEvent)" using assms(3,4) by (simp add: p2p_legal_def)
  from pass_alone [OF assms(1,2) this assms(5,6)] obtain es where es: "list_all node_legal es"
    "alone pv (fst (node_run n y es))" "s_pc (fst (node_run n y es)) = Sleeping"
    "s_store (fst (node_run n y es)) = fst (ingest_pass n x (s_store y))"
    "\<forall>c. snd (ingest_pass n x (s_store y)) = Inr c \<longrightarrow> s_counts (fst (node_run n y es)) = c"
    by blast
  obtain y' outs where "node_run n y es = (y', outs)" by fastforce
  with es show ?thesis by (intro exI [of _ es] exI [of _ y'] exI [of _ outs]) simp
qed

theorem pass_is_a_run_witness:
  "\<exists>es y' outs. node_run sys_node sys_start es = (y', outs) \<and> s_pc y' = Sleeping \<and> demo_digest \<in> dom (index (s_store y'))"
proof -
  have q: "quiet (in_pins sys_inputs i)" "pin_peer (in_pins sys_inputs i) = None" for i
    by (simp_all add: sys_inputs_def served_env_def quiet_def)
  have "hash_iter (ev_order demo_ev)" "order_ok (ev_io demo_ev)" using sys_legal by (simp_all add: p2p_legal_def)
  from pass_is_a_run [OF sys_alone(1,2) this q(1), of sys_node] q(2)
  obtain es y' outs where run: "node_run sys_node sys_start es = (y', outs)" "s_pc y' = Sleeping"
    "s_store y' = fst (ingest_pass sys_node sys_inputs (s_store sys_start))"
    by auto
  have "demo_digest \<in> dom (index (s_store y'))" unfolding run(3) sys_alone(3) by (rule sys_held)
  with run(1,2) show ?thesis by blast
qed

end
