(* ===== verification/Node_Tasks_Props.thy ===== *)
theory Node_Tasks_Props
  imports Node_Tasks_Takedown Node_Tasks_Sim Node_System_Props
begin

text \<open>
  The properties of the node when its handlers and tasks overlap between any two visits to the store.
\<close>

section \<open>The permits of the gateway\<close>











section \<open>From the start on\<close>


text \<open>Runs of the node whose handlers end at once, as runs of this one.\<close>

lemma sys_overlap:
  assumes "list_all node_legal es"
  obtains fs y where "list_all tasks_legal fs" "tasks_node_run sys_node (at_rest sys_start) fs = (y, snd (node_run sys_node sys_start es))"
    "rests y (fst (node_run sys_node sys_start es))"
  using rests_run [OF rests_at_rest assms, of sys_node sys_start] by auto


section \<open>Overlap is the general case\<close>

text \<open>
  C14: the node whose handlers, serve tasks and puts run to their end at once is the node with overlapping handlers
  under a scheduler that lets each finish: every run of the former from any state is a run of the latter, with the
  same outputs in the same order, ending at rest with the same store and the same state of every component.
\<close>

theorem overlap_generalises:
  assumes "list_all node_legal es" and "node_run n v es = (v', outs)"
  shows "\<exists>fs y. list_all tasks_legal fs \<and> tasks_node_run n (at_rest v) fs = (y, outs) \<and>
    nt_tasks y = idle (s_store v') \<and> nt_denies y = [] \<and> nt_reads y = [] \<and> nt_gets y = [] \<and> nt_lookups y = [] \<and>
    nt_heads y = [] \<and> nt_serves y = [] \<and> gw_view (nt_view y) = gw_view v' \<and> p2p_view (nt_view y) = p2p_view v' \<and>
    s_cmds (nt_sys y) = s_cmds v' \<and> s_pc (nt_sys y) = s_pc v' \<and> s_counts (nt_sys y) = s_counts v'"
proof -
  obtain fs y where fs: "list_all tasks_legal fs" "tasks_node_run n (at_rest v) fs = (y, outs)" "rests y v'"
    using rests_run [OF rests_at_rest assms(1), of n v] assms(2) by auto
  then have f: "fresh (nt_view y) = fresh v'" by (simp add: rests_def)
  have "s_counts (fresh w) = s_counts w" for w by (simp add: fresh_def)
  then have "s_counts (nt_view y) = s_counts v'" using f by metis
  moreover have "gw_view (nt_view y) = gw_view v'" "p2p_view (nt_view y) = p2p_view v'" "s_pc (nt_view y) = s_pc v'" "s_cmds (nt_view y) = s_cmds v'"
    using f by (metis fresh_stale stale_fields(5), metis fresh_stale stale_fields(6), metis fresh_stale stale_fields(3),
        metis fresh_stale stale_fields(2))
  ultimately show ?thesis using fs by (intro exI [of _ fs] exI [of _ y]) (simp add: rests_def nt_view_def)
qed

theorem overlap_generalises_witness:
  "\<exists>es outs fs y. node_run sys_node sys_start es = (fst (node_run sys_node sys_start es), outs) \<and>
     tasks_node_run sys_node (at_rest sys_start) fs = (y, outs) \<and> demo_digest \<in> dom (index (nt_store y))"
proof -
  obtain es where es: "list_all node_legal es" "demo_digest \<in> dom (index (s_store (fst (node_run sys_node sys_start es))))"
    by (rule sys_ingests)
  obtain v outs where v: "node_run sys_node sys_start es = (v, outs)" by fastforce
  from overlap_generalises [OF es(1) v] obtain fs y where
    "tasks_node_run sys_node (at_rest sys_start) fs = (y, outs)" "nt_tasks y = idle (s_store v)" by blast
  with es(2) v show ?thesis by (intro exI [of _ es] exI [of _ outs] exI [of _ fs] exI [of _ y]) simp
qed

section \<open>Takedowns\<close>

lemma takes_down_hash: "takes_down rq h \<Longrightarrow> takes_down rq k \<Longrightarrow> h = k"
  by (cases rq) auto

text \<open>A takedown that is answered 200 leaves the hash barred; sealed, if no put of it is past its check.\<close>

lemma deny_answer_barred:
  assumes ok: "nt_ok n tok Q X y" and step: "tasks_node_step n y (DenyNextStep i k) = (y', [HttpReply rq (Some r)])"
    and "reply_status r = 200" and rq: "takes_down rq h" and pd: "purges_denied h (nt_tasks y)"
  shows "barred (late_put (nt_tasks y') h) h (nt_tasks y') \<and> lower_hex64 h"
proof -
  obtain a outs where t: "task_step (nt_tasks y) (i, DenyNext k) = (a, outs)" by fastforce
  with step obtain g res where res: "outs = [DenyReturns g res]" "y' = y\<lparr>nt_tasks := a, nt_denies := drop_nth k (nt_denies y)\<rparr>"
    "rq = nt_denies y ! k" "r = deny_reply res"
    by (auto simp: deny_next_def split: list.splits task_out.splits)
  have k: "k < length (denying (nt_tasks y))" using t res(1) by (auto simp: task_step.simps split: if_splits)
  have g: "g = deny_hash (denying (nt_tasks y) ! k)" using t k res(1) by (auto simp: task_step.simps split: prod.splits sum.splits)
  have "takes_down rq (deny_hash (denying (nt_tasks y) ! k))" "lower_hex64 (deny_hash (denying (nt_tasks y) ! k))"
    using ok k res(3) by (simp_all add: nt_ok_def flight_ok_def tasks_ok_def pcs_ok_def list_all2_conv_all_nth list_all_length)
  with rq g have h: "g = h" "lower_hex64 h" using takes_down_hash by blast+
  obtain p where "res = Inr p" using assms(3) res(4) by (cases res) (simp_all add: error_reply_def)
  with t res(1) h have d: "task_step (nt_tasks y) (i, DenyNext k) = (a, [DenyReturns h (Inr p)])" by simp
  have "denying (nt_tasks y) ! k = PurgeIndex g"
    using t k res(1) \<open>res = Inr p\<close>
    by (cases "denying (nt_tasks y) ! k") (auto simp: task_step.simps Let_def split: prod.splits sum.splits if_splits)
  then have den: "h \<in> denied (nt_store y)" using pd k h(1) nth_mem [OF k] by (force simp: purges_denied_def)
  have "putting a = putting (nt_tasks y)" using t by (auto simp: task_step.simps split: prod.splits sum.splits if_splits)
  then have late: "late_put a h \<longleftrightarrow> late_put (nt_tasks y) h" by (simp add: late_put_def)
  have "h \<in> denied (shared a)" using denied_step [OF den, of "(i, DenyNext k)"] d by simp
  with deny_returns_sealed [OF d den] late res(2) h(2) show ?thesis by (auto simp: barred_def)
qed

text \<open>
  C2: what a takedown achieves under every overlap. When a takedown of a hash is answered 200, and the hash is on the
  denylist at that moment, as it is unless an authorised allow has lifted it, then along every later interleaving without
  such an allow the hash stays denied. It is indexed again only by a put that was past its denylist check when the takedown was
  answered (\<open>late_put\<close>). A GET of it, in any spelling, is answered 410 unless its handler was past the denylist check
  (then 404 or 503, or what a late put has stored) or was reading the file at that moment; a HEAD is answered 410 unless
  its handler was past the check (then 404, or what a late put has stored); and a peer gets its bytes only on a channel
  whose serve task was then reading the file, had read it or had queued it, or was past its check and a put was late.
\<close>

theorem overlap_takedown:
  assumes "node_boot be oi n dir d = (Inr (y0, outs0), d')" and "clean_listing oi dir" and "honest_dir (n_crypto n) dir"
    and "list_all tasks_legal es" and "tasks_node_run n (at_rest y0) es = (y1, o1)"
    and "tasks_node_step n y1 (DenyNextStep i k) = (y2, [HttpReply rq (Some r)])" and "order_ok i" and "reply_status r = 200"
    and "takes_down rq h"
    and "h \<in> denied (nt_store y1) \<or> list_all (\<lambda>ev. \<not> tasks_lifts (config_token (n_config n)) ev h) es"
    and "list_all tasks_legal fs" and "list_all (\<lambda>ev. \<not> tasks_lifts (config_token (n_config n)) ev h) fs"
    and "tasks_node_run n y2 fs = (y3, o3)"
  shows "h \<in> denied (nt_store y3) \<and> (h \<in> dom (index (nt_store y3)) \<longrightarrow> late_put (nt_tasks y2) h) \<and>
    (\<forall>hs hash x. HttpReply (GetContent hs hash) x \<in> set o3 \<longrightarrow> norm hash = h \<longrightarrow>
       x = Some (text_reply 410 ''content removed by the operator'') \<or> GetReader hs hash h \<in> set (nt_reads y2) \<or>
       (hs, hash, h) \<in> set (nt_gets y2) \<union> set (nt_lookups y2) \<and>
         (late_put (nt_tasks y2) h \<or> (\<exists>z. x = Some z \<and> reply_status z \<in> {404, 503}))) \<and>
    (\<forall>hash x. HttpReply (HeadContent hash) x \<in> set o3 \<longrightarrow> norm hash = h \<longrightarrow>
       x = Some (text_reply 410 ''content removed by the operator'') \<or>
       (hash, h) \<in> set (nt_heads y2) \<and> (late_put (nt_tasks y2) h \<or> x = Some (plain 404))) \<and>
    (\<forall>channel b. P2pOut (SendResponse channel (RespGet (Some b))) \<in> set o3 \<longrightarrow> sha256_hex (n_crypto n) b = h \<longrightarrow>
       (\<exists>m. ServeReader channel m \<in> set (nt_reads y2) \<and> norm m = h) \<or>
       (\<exists>m b'. (channel, m, ServeReady (Some b')) \<in> set (nt_serves y2) \<and> sha256_hex (n_crypto n) b' = h) \<or>
       (\<exists>b'. (channel, RespGet (Some b')) \<in> set (serve_queue (s_p2p (nt_sys y2))) \<and> sha256_hex (n_crypto n) b' = h) \<or>
       late_put (nt_tasks y2) h \<and> (\<exists>m. (channel, m, ServeChecked) \<in> set (nt_serves y2) \<and> norm m = h))"
proof -
  let ?tok = "config_token (n_config n)" and ?late = "late_put (nt_tasks y2) h"
  let ?F = "carriers (n_crypto n) ?late h y2"
  have ok1: "nt_ok n ?tok UNIV UNIV y1"
    using tasks_node_run_ok [OF at_rest_ok [OF assms(1-3)] assms(4), of UNIV UNIV] assms(5) by (simp add: kept_def)
  have ok2: "nt_ok n ?tok UNIV UNIV y2" using tasks_node.step_inv [OF ok1, of "DenyNextStep i k"] assms(6,7) by simp
  have ok0: "nt_ok n ?tok UNIV UNIV (at_rest y0)" using assms(1-3) by (rule at_rest_ok)
  have "purges_denied h (nt_tasks (at_rest y0))" by (simp add: purges_denied_def at_rest_def idle_def)
  from unlifted_denied [OF ok0 this assms(4)] assms(5,10) have "purges_denied h (nt_tasks y1)"
    by (auto simp: purges_denied_def)
  then have bar: "barred ?late h (nt_tasks y2)" "lower_hex64 h" using deny_answer_barred [OF ok1 assms(6,8,9)] by simp_all
  have run: "barred ?late h (nt_tasks y3)" "\<And>x. x \<in> set o3 \<Longrightarrow> from_carriers (n_crypto n) h ?F x"
    using tasks_run_barred [OF ok2 bar assms(11,12)] assms(13) by simp_all
  have "h \<in> denied (nt_store y3) \<and> (h \<in> dom (index (nt_store y3)) \<longrightarrow> ?late)" using run(1) by (auto simp: barred_def sealed_def)
  moreover have "x = Some (text_reply 410 ''content removed by the operator'') \<or> GetReader hs hash h \<in> set (nt_reads y2) \<or>
       (hs, hash, h) \<in> set (nt_gets y2) \<union> set (nt_lookups y2) \<and> (?late \<or> (\<exists>z. x = Some z \<and> reply_status z \<in> {404, 503}))"
    if "HttpReply (GetContent hs hash) x \<in> set o3" "norm hash = h" for hs hash x
    using run(2) [OF that(1)] that(2)
    unfolding from_carriers.simps gone_reply_def carriers_def late_carriers_def by (cases ?late) auto
  moreover have "x = Some (text_reply 410 ''content removed by the operator'') \<or>
       (hash, h) \<in> set (nt_heads y2) \<and> (?late \<or> x = Some (plain 404))"
    if "HttpReply (HeadContent hash) x \<in> set o3" "norm hash = h" for hash x
    using run(2) [OF that(1)] that(2)
    unfolding from_carriers.simps gone_reply_def carriers_def late_carriers_def by (cases ?late) auto
  moreover have "Serves channel \<in> ?F"
    if "P2pOut (SendResponse channel (RespGet (Some b))) \<in> set o3" "sha256_hex (n_crypto n) b = h" for channel b
    using run(2) [OF that(1)] that(2) by (simp add: carries_def)
  then have "(\<exists>m. ServeReader channel m \<in> set (nt_reads y2) \<and> norm m = h) \<or>
       (\<exists>m b'. (channel, m, ServeReady (Some b')) \<in> set (nt_serves y2) \<and> sha256_hex (n_crypto n) b' = h) \<or>
       (\<exists>b'. (channel, RespGet (Some b')) \<in> set (serve_queue (s_p2p (nt_sys y2))) \<and> sha256_hex (n_crypto n) b' = h) \<or>
       ?late \<and> (\<exists>m. (channel, m, ServeChecked) \<in> set (nt_serves y2) \<and> norm m = h)"
    if "P2pOut (SendResponse channel (RespGet (Some b))) \<in> set o3" "sha256_hex (n_crypto n) b = h" for channel b
    using that unfolding carriers_def late_carriers_def by (cases ?late) auto
  ultimately show ?thesis by blast
qed

text \<open>A takedown of the held blob, step by step; a GET that starts between its last two steps finds nothing.\<close>

lemma sys_deny_steps:
  assumes "nt_tasks y = idle s" and "nt_denies y = []" and "admin_ok (gw_view (nt_view y)) demo_auth" and "demo_digest \<in> dom (index s)"
    and "demo_digest \<notin> denied s"
  obtains y1 y2 r where
    "tasks_node_run sys_node y [DenyStart demo_env (DeleteContent demo_auth demo_digest), DenyNextStep demo_io 0, DenyNextStep demo_io 0]
       = (y1, [])"
    "tasks_node_step sys_node y1 (DenyNextStep demo_io 0) = (y2, [HttpReply (DeleteContent demo_auth demo_digest) (Some r)])"
    "reply_status r = 200" "demo_digest \<in> denied (nt_store y1)" "\<not> late_put (nt_tasks y1) demo_digest"
proof -
  have h: "norm demo_digest = demo_digest" "is_valid_hash demo_digest" "gw_norm demo_digest = Some demo_digest"
    by (simp_all add: gw_norm_eq lower_hex64_valid)
  obtain d where w: "write_denylist demo_io (insert demo_digest (denied s)) (files s) = (Inr (), d)"
    by (simp add: write_denylist_def demo_io_def Let_def fs_write_def fs_rename_written)
  obtain m where m: "index s demo_digest = Some m" using assms(4) by blast
  let ?s1 = "s\<lparr>files := d, denied := insert demo_digest (denied s)\<rparr>"
  let ?s2 = "?s1\<lparr>files := fs_remove (remove_ok demo_io) (blob_path demo_digest) d\<rparr>"
  let ?s3 = "?s2\<lparr>index := (index s)(demo_digest := None), tot := sat_sub (tot s) m\<rparr>"
  let ?rq = "DeleteContent demo_auth demo_digest"
  let ?a = "\<lambda>t pc. (idle t)\<lparr>denying := [pc]\<rparr>"
  have "tasks_node_step sys_node y (DenyStart demo_env ?rq) = (y\<lparr>nt_tasks := ?a s (DenySet demo_digest), nt_denies := [?rq]\<rparr>, [])"
    using assms(1-3) h by (simp add: deny_start_def task_step.simps Let_def)
  moreover have "tasks_node_step sys_node (y\<lparr>nt_tasks := ?a s (DenySet demo_digest), nt_denies := [?rq]\<rparr>) (DenyNextStep demo_io 0)
      = (y\<lparr>nt_tasks := ?a ?s1 (PurgeFile demo_digest), nt_denies := [?rq]\<rparr>, [])"
    using assms(5) w by (simp add: deny_next_def task_step.simps idle_def)
  moreover have "tasks_node_step sys_node (y\<lparr>nt_tasks := ?a ?s1 (PurgeFile demo_digest), nt_denies := [?rq]\<rparr>) (DenyNextStep demo_io 0)
      = (y\<lparr>nt_tasks := ?a ?s2 (PurgeIndex demo_digest), nt_denies := [?rq]\<rparr>, [])"
    by (simp add: deny_next_def task_step.simps idle_def)
  ultimately have run: "tasks_node_run sys_node y [DenyStart demo_env ?rq, DenyNextStep demo_io 0, DenyNextStep demo_io 0]
      = (y\<lparr>nt_tasks := ?a ?s2 (PurgeIndex demo_digest), nt_denies := [?rq]\<rparr>, [])"
    by (simp del: tasks_node_step.simps)
  have "tasks_node_step sys_node (y\<lparr>nt_tasks := ?a ?s2 (PurgeIndex demo_digest), nt_denies := [?rq]\<rparr>) (DenyNextStep demo_io 0)
      = (y\<lparr>nt_tasks := idle ?s3, nt_denies := []\<rparr>, [HttpReply ?rq (Some (deny_reply (Inr True)))])"
    using m by (simp add: deny_next_def task_step.simps drop_nth_def idle_def)
  from that [OF run this] show thesis by (simp add: json_reply_def late_put_def)
qed

theorem overlap_takedown_witness:
  "\<exists>fs y1 y2 r y3. tasks_node_run sys_node (at_rest sys_start) fs = (y1, snd (tasks_node_run sys_node (at_rest sys_start) fs)) \<and>
     tasks_node_step sys_node y1 (DenyNextStep demo_io 0) = (y2, [HttpReply (DeleteContent demo_auth demo_digest) (Some r)]) \<and>
     reply_status r = 200 \<and>
     tasks_node_run sys_node y2 [GetStart [] demo_digest] = (y3, snd (tasks_node_run sys_node y2 [GetStart [] demo_digest])) \<and>
     demo_digest \<notin> dom (index (nt_store y3))"
proof -
  obtain es where es: "list_all node_legal es" "demo_digest \<in> dom (index (s_store (fst (node_run sys_node sys_start es))))"
    by (rule sys_ingests)
  obtain fs y where fs: "list_all tasks_legal fs" "tasks_node_run sys_node (at_rest sys_start) fs = (y, snd (node_run sys_node sys_start es))"
    "rests y (fst (node_run sys_node sys_start es))"
    using sys_overlap [OF es(1)] by blast
  obtain d' where boot: "node_boot sys_boot (demo_open []) sys_node Map.empty Map.empty = (Inr (sys_start, []), d')"
    using sys_boots by blast
  have "sys_ok sys_node (Some ''s'') UNIV {} sys_start" using node_boot_ok [OF boot sys_dir, of "{}" UNIV] by simp
  then have ok: "sys_ok sys_node (Some ''s'') UNIV {} (fst (node_run sys_node sys_start es))"
    using node_runs.run_inv es(1) node_run_state [of sys_node sys_start es] by simp
  then have "admin_ok (gw_view (fst (node_run sys_node sys_start es))) demo_auth"
    using demo_auth_ok(1) by (simp add: sys_ok_def gw_inv_def admin_ok_iff demo_gw_def)
  then have adm: "admin_ok (gw_view (nt_view y)) demo_auth" using rests_views(3) [OF fs(3)] by simp
  have "demo_digest \<notin> denied (s_store (fst (node_run sys_node sys_start es)))"
    using sys_ok_store [OF ok] es(2) store_run.banned_not_held by blast
  then obtain y1 y2 r where y1: "tasks_node_run sys_node y
      [DenyStart demo_env (DeleteContent demo_auth demo_digest), DenyNextStep demo_io 0, DenyNextStep demo_io 0] = (y1, [])"
    "tasks_node_step sys_node y1 (DenyNextStep demo_io 0) = (y2, [HttpReply (DeleteContent demo_auth demo_digest) (Some r)])"
    "reply_status r = 200" "demo_digest \<in> denied (nt_store y1)" "\<not> late_put (nt_tasks y1) demo_digest"
    using fs(3) adm es(2) unfolding rests_def by (elim conjE sys_deny_steps)
  let ?fs = "fs @ [DenyStart demo_env (DeleteContent demo_auth demo_digest), DenyNextStep demo_io 0, DenyNextStep demo_io 0]"
  have run: "tasks_node_run sys_node (at_rest sys_start) ?fs = (y1, snd (node_run sys_node sys_start es))"
    using fs(2) y1(1) by (simp add: tasks_node_run_append del: tasks_node_run.simps)
  have legal: "list_all tasks_legal ?fs" "order_ok demo_io" "list_all tasks_legal [GetStart [] demo_digest]"
    using fs(1) by (simp_all add: demo_env_def)
  have td: "takes_down (DeleteContent demo_auth demo_digest) demo_digest" by simp
  obtain y3 o3 where y3: "tasks_node_run sys_node y2 [GetStart [] demo_digest] = (y3, o3)" by fastforce
    have "putting (nt_tasks y2) = putting (nt_tasks y1)"
    using y1(2) by (auto simp: deny_next_def task_step.simps split: prod.splits sum.splits if_splits list.splits task_out.splits)
  then have "\<not> late_put (nt_tasks y2) demo_digest" using y1(5) by (simp add: late_put_def)
  with overlap_takedown [OF boot sys_dir legal(1) run y1(2) legal(2) y1(3) td _ legal(3) _ y3] y1(4)
  have "demo_digest \<notin> dom (index (nt_store y3))" by auto
  with run y1 y3 show ?thesis by (metis fst_conv snd_conv)
qed

end
