(* ===== verification/Node_Crash.thy ===== *)
theory Node_Crash
  imports Store_Crash Node_Tasks_Props
begin


section \<open>Blob files\<close>









section \<open>Crash and restart\<close>





end
