(* ===== verification/P2p_Peers.thy ===== *)
theory P2p_Peers
  imports P2p_Props Gateway_Spec
begin

text \<open>
  Connections (src/p2p.rs): the limits \<open>run\<close> configures, what libp2p promises of the connection events under
  them, and the table of connected peers that \<open>GET /p2p\<close> and \<open>GET /health\<close> show.
\<close>

section \<open>Limits\<close>

record conn_limits =
  max_pending_incoming :: u32
  max_pending_outgoing :: u32
  max_established_per_peer :: u32
  max_established_incoming :: u32
  max_established_outgoing :: u32
  max_established :: u32

definition swarm_limits :: conn_limits where
  "swarm_limits =
     \<lparr>max_pending_incoming = 32, max_pending_outgoing = 32, max_established_per_peer = 4,
      max_established_incoming = 256, max_established_outgoing = 128, max_established = 384\<rparr>"

section \<open>Connection events\<close>

text \<open>The established connections, a multiset of peers, and how an event changes them.\<close>

fun conns_next :: "string multiset \<Rightarrow> p2p_event \<Rightarrow> string multiset" where
  "conns_next C (ConnEstablished peer addr) = add_mset peer C"
| "conns_next C (ConnClosed peer n) = C - {#peer#}"
| "conns_next C ev = C"

text \<open>
  What libp2p documents: its \<open>connection_limits\<close> behaviour establishes no connection past a limit, and
  \<open>num_established\<close> of \<open>ConnectionClosed\<close> counts the connections to the peer that remain.
\<close>

fun conn_event_ok :: "conn_limits \<Rightarrow> string multiset \<Rightarrow> p2p_event \<Rightarrow> bool" where
  "conn_event_ok lim C (ConnEstablished peer addr) =
     (count C peer < unat (max_established_per_peer lim) \<and> size C < unat (max_established lim))"
| "conn_event_ok lim C (ConnClosed peer n) = (peer \<in># C \<and> n + 1 = count C peer)"
| "conn_event_ok lim C ev = True"

fun conn_trace :: "conn_limits \<Rightarrow> string multiset \<Rightarrow> (p2p_env \<times> p2p_event) list \<Rightarrow> bool" where
  "conn_trace lim C [] = True"
| "conn_trace lim C ((e, ev) # es) = (conn_event_ok lim C ev \<and> conn_trace lim (conns_next C ev) es)"

definition connected :: "(p2p_env \<times> p2p_event) list \<Rightarrow> string multiset" where
  "connected es = foldl (\<lambda>C e. conns_next C (snd e)) {#} es"

section \<open>The table of peers\<close>

text \<open>The table holds exactly the connected peers, each with an address it connected from.\<close>

definition peers_ok :: "conn_limits \<Rightarrow> (string \<times> string) set \<Rightarrow> string multiset \<Rightarrow> p2p_state \<Rightarrow> bool" where
  "peers_ok lim A C s \<longleftrightarrow>
     dom (peer_status s) = set_mset C \<and> size C \<le> unat (max_established lim) \<and>
     (\<forall>p. count C p \<le> unat (max_established_per_peer lim)) \<and> (\<forall>p a. peer_status s p = Some a \<longrightarrow> (p, a) \<in> A)"

definition addresses :: "(p2p_env \<times> p2p_event) list \<Rightarrow> (string \<times> string) set" where
  "addresses es = {(p, a) | e p a. (e, ConnEstablished p a) \<in> set es}"

lemma conn_removed:
  assumes "p \<in># C" and "n + 1 = count C p"
  shows "set_mset (C - {#p#}) = (if n = 0 then set_mset C - {p} else set_mset C)"
proof -
  obtain C' where C: "C = add_mset p C'" using assms(1) by (rule multi_member_split [elim_format]) blast
  have "p \<in># C' \<longleftrightarrow> n \<noteq> 0" using assms(2) unfolding C by (simp flip: count_greater_zero_iff)
  then show ?thesis unfolding C by auto
qed

fun conn_event :: "p2p_event \<Rightarrow> bool" where
  "conn_event (ConnEstablished peer addr) = True"
| "conn_event (ConnClosed peer n) = True"
| "conn_event ev = False"

lemma peers_same:
  assumes "\<not> conn_event ev"
  shows "peer_status (fst (p2p_step cfg s (e, ev))) = peer_status s" and "conns_next C ev = C"
proof -
  show "peer_status (fst (p2p_step cfg s (e, ev))) = peer_status s"
  proof (cases ev)
    case (Request r channel)
    then show ?thesis by (cases r) (simp_all add: p2p_step_def Let_def)
  qed (use assms in \<open>simp_all add: p2p_step_def on_want_def on_serve_done_def on_listen_def on_response_def
      on_failure_def on_serve_task_def serve_finish_def Let_def split: option.split list.split prod.split\<close>)
  show "conns_next C ev = C" using assms by (cases ev) simp_all
qed

lemma peers_step:
  assumes ok: "peers_ok lim A C s" and run: "running s" and ev: "conn_event_ok lim C ev"
    and adr: "\<And>p a. ev = ConnEstablished p a \<Longrightarrow> (p, a) \<in> A"
  shows "peers_ok lim A (conns_next C ev) (fst (p2p_step cfg s (e, ev)))"
proof (cases "conn_event ev")
  case False
  with ok show ?thesis by (simp add: peers_ok_def peers_same)
next
  case True
  have dom: "dom (peer_status s) = set_mset C" and size: "size C \<le> unat (max_established lim)"
    and per: "\<And>p. count C p \<le> unat (max_established_per_peer lim)"
    and known: "\<And>p a. peer_status s p = Some a \<Longrightarrow> (p, a) \<in> A"
    using ok by (simp_all add: peers_ok_def)
  from True show ?thesis
  proof (cases ev rule: conn_event.cases)
    case (1 p a)
    have step: "fst (p2p_step cfg s (e, ev)) = s\<lparr>peer_status := (peer_status s)(p \<mapsto> a)\<rparr>"
      using run by (simp add: 1 p2p_step_def on_connected_def Let_def)
    have lim: "Suc (size C) \<le> unat (max_established lim)" "Suc (count C p) \<le> unat (max_established_per_peer lim)"
      using ev by (simp_all add: 1 Suc_le_eq)
    show ?thesis
      unfolding step peers_ok_def using dom lim per known adr [OF 1] by (simp add: 1)
  next
    case (2 p n)
    have c: "p \<in># C" "n + 1 = count C p" using ev by (simp_all add: 2)
    have step: "fst (p2p_step cfg s (e, ev)) = on_disconnected s p n" using run by (simp add: 2 p2p_step_def)
    have le: "size (C - {#p#}) \<le> size C" "\<And>q. count (C - {#p#}) q \<le> count C q" by (simp_all add: size_Diff_singleton_if)
    have "dom (peer_status (on_disconnected s p n)) = set_mset (C - {#p#})"
      unfolding conn_removed [OF c] by (simp add: on_disconnected_def dom)
    moreover have "peer_status (on_disconnected s p n) q = Some a \<Longrightarrow> peer_status s q = Some a" for q a
      by (simp add: on_disconnected_def split: if_splits)
    ultimately show ?thesis
      unfolding 2 step [unfolded 2] peers_ok_def conns_next.simps using size per known le by (meson le_trans)
  qed simp_all
qed

lemma running_back: "running (fst (p2p_step cfg s e)) \<Longrightarrow> running s"
  by (cases "running s") (simp_all add: p2p_step_def)

lemma run_running: "running (fst (p2p_run cfg s es)) \<Longrightarrow> running s"
proof (induction es arbitrary: s)
  case (Cons e es)
  then show ?case using running_back [of cfg s e] by (auto simp: case_prod_beta Let_def)
qed simp

lemma peers_run:
  assumes "peers_ok lim A C s" and "conn_trace lim C es" and "addresses es \<subseteq> A" and "running (fst (p2p_run cfg s es))"
  shows "peers_ok lim A (foldl (\<lambda>C e. conns_next C (snd e)) C es) (fst (p2p_run cfg s es))"
  using assms
proof (induction es arbitrary: s C)
  case (Cons x es)
  obtain e ev where x: "x = (e, ev)" by fastforce
  have sub: "addresses es \<subseteq> A" "\<And>p a. ev = ConnEstablished p a \<Longrightarrow> (p, a) \<in> A"
    using Cons.prems(3) by (auto simp: addresses_def x)
  have run: "running (fst (p2p_run cfg (fst (p2p_step cfg s x)) es))"
    using Cons.prems(4) by (simp add: case_prod_beta Let_def)
  then have "running s" using run_running running_back by blast
  with Cons.prems sub have "peers_ok lim A (conns_next C ev) (fst (p2p_step cfg s x))"
    unfolding x by (intro peers_step) simp_all
  from Cons.IH [OF this _ sub(1) run] Cons.prems(2) show ?case by (simp add: x case_prod_beta Let_def)
qed simp

section \<open>The property\<close>

text \<open>
  C31: the monitoring view is exact and bounded. If connection events are as libp2p documents them under the limits
  that are configured, the shared table holds at every moment exactly the connected peers, each with an address of
  one of its connections; \<open>GET /p2p\<close> lists each of them once, and there are never more than 384.
\<close>

theorem connected_peers_exact:
  assumes "conn_trace swarm_limits {#} es" and "running (fst (p2p_run cfg (p2p_start st report) es))"
    and "hash_iter ord" and "gw_peers g = peer_status (fst (p2p_run cfg (p2p_start st report) es))"
  shows "dom (gw_peers g) = set_mset (connected es) \<and> size (connected es) \<le> 384 \<and>
    (\<forall>p. count (connected es) p \<le> 4) \<and>
    (\<forall>p a. gw_peers g p = Some a \<longrightarrow> (\<exists>e. (e, ConnEstablished p a) \<in> set es)) \<and>
    (\<exists>ps. p2p_peers ord g = json_reply (JObj [(''ok'', JBool True), (''count'', JNum (card (set_mset (connected es)))),
        (''peers'', JArr (map (\<lambda>p. JObj [(''peer_id'', JStr p), (''addr'', JStr (the (gw_peers g p)))]) ps))]) \<and>
      set ps = set_mset (connected es) \<and> distinct ps)"
proof -
  let ?s = "fst (p2p_run cfg (p2p_start st report) es)" and ?ps = "ord (dom (gw_peers g))"
  have "peers_ok swarm_limits (addresses es) {#} (p2p_start st report)"
    by (simp add: peers_ok_def p2p_start_def)
  then have ok: "peers_ok swarm_limits (addresses es) (connected es) ?s"
    unfolding connected_def using assms(1,2) by (intro peers_run) simp_all
  then have dom: "dom (gw_peers g) = set_mset (connected es)" by (simp add: assms(4) peers_ok_def)
  have "finite (dom (gw_peers g))" unfolding dom by simp
  then have ps: "set ?ps = set_mset (connected es)" "distinct ?ps"
    using assms(3) dom by (simp_all add: set_hash_iter distinct_hash_iter)
  then have "length ?ps = card (set_mset (connected es))" using distinct_card [OF ps(2)] by simp
  then have "p2p_peers ord g = json_reply (JObj [(''ok'', JBool True), (''count'', JNum (card (set_mset (connected es)))),
      (''peers'', JArr (map (\<lambda>p. JObj [(''peer_id'', JStr p), (''addr'', JStr (the (gw_peers g p)))]) ?ps))])"
    by (simp add: p2p_peers_def Let_def)
  with ok dom ps show ?thesis
    by (auto simp: peers_ok_def assms(4) swarm_limits_def addresses_def)
qed

definition connect_events :: "(p2p_env \<times> p2p_event) list" where
  "connect_events =
     [(demo_ev, ConnEstablished ''P'' ''a''), (demo_ev, ConnEstablished ''P'' ''b''), (demo_ev, ConnEstablished ''Q'' ''c''),
      (demo_ev, ConnClosed ''Q'' 0), (demo_ev, ConnClosed ''P'' 1)]"

lemma connect_run:
  "running (fst (p2p_run demo_cfg (p2p_start empty_store None) connect_events)) \<and>
   peer_status (fst (p2p_run demo_cfg (p2p_start empty_store None) connect_events)) = [''P'' \<mapsto> ''b'']"
  by (auto simp: connect_events_def p2p_step_def p2p_start_def on_connected_def on_disconnected_def Let_def)

theorem connected_peers_exact_witness:
  "dom [''P'' \<mapsto> ''b''] = set_mset (connected connect_events) \<and> connected connect_events = {#''P''#}"
proof -
  let ?g = "(undefined :: gw_state)\<lparr>gw_peers := [''P'' \<mapsto> ''b'']\<rparr>"
  have trace: "conn_trace swarm_limits {#} connect_events"
    by (simp add: connect_events_def swarm_limits_def)
  have iter: "hash_iter sorted_list_of_set" by (simp add: hash_iter_def)
  have g: "gw_peers ?g = peer_status (fst (p2p_run demo_cfg (p2p_start empty_store None) connect_events))"
    using connect_run by simp
  have "dom (gw_peers ?g) = set_mset (connected connect_events)"
    by (rule connected_peers_exact [OF trace conjunct1 [OF connect_run] iter g, THEN conjunct1])
  then show ?thesis by (simp add: connect_events_def connected_def)
qed

text \<open>
  The address shown is that of the connection opened last, also after that connection has closed while an older
  one remains.
\<close>

lemma stale_address:
  "peer_status (fst (p2p_run demo_cfg (p2p_start empty_store None)
     [(demo_ev, ConnEstablished ''P'' ''a''), (demo_ev, ConnEstablished ''P'' ''b''), (demo_ev, ConnClosed ''P'' 1)])) ''P'' = Some ''b''"
  by (simp add: p2p_step_def p2p_start_def on_connected_def on_disconnected_def Let_def)

end
