(* ===== verification/Repo_Tests.thy ===== *)
theory Repo_Tests
  imports Store_Props Store_Tasks_Inv Discovery P2p_Spec
begin

text \<open>
  The repository's own unit tests (the \<open>mod tests\<close> of src/store.rs, src/acquire.rs, src/gateways.rs and
  src/p2p.rs), translated assertion by assertion: each is a boolean function of what the tests leave to libraries
  and the system (the digest, the URL parser, the directory), and each holds of the model for every such choice.
\<close>

section \<open>The test bench\<close>

text \<open>The digest, the outcomes of the file calls, and how a directory is listed when it is opened.\<close>

record bench =
  t_crypto :: crypto
  t_io :: io
  t_open :: "disk \<Rightarrow> open_io"

text \<open>Every file call succeeds and every finite directory is listed cleanly.\<close>

definition bench_ok :: "bench \<Rightarrow> bool" where
  "bench_ok t \<longleftrightarrow>
     crypto_ok (t_crypto t) \<and> write_out (t_io t) = WOk \<and> rename_ok (t_io t) \<and> order_ok (t_io t) \<and>
     (\<forall>d. finite (dom d) \<longrightarrow> clean_listing (t_open t d) d)"

text \<open>\<open>unwrap\<close> of the results: the test panics on an error.\<close>

definition opened :: "bench \<Rightarrow> disk \<Rightarrow> (store \<Rightarrow> bool) \<Rightarrow> bool" where
  "opened t d P = (case fst (store_open (t_open t d) d) of Inr s \<Rightarrow> P s | Inl e \<Rightarrow> False)"

definition put_unwrap :: "bench \<Rightarrow> store \<Rightarrow> string \<Rightarrow> bytes \<Rightarrow> (store \<Rightarrow> bool) \<Rightarrow> bool" where
  "put_unwrap t s h b P = (case store_put (t_io t) s h b of (Inr _, s') \<Rightarrow> P s' | (Inl _, s') \<Rightarrow> False)"

definition put_is_err :: "bench \<Rightarrow> store \<Rightarrow> string \<Rightarrow> bytes \<Rightarrow> (store \<Rightarrow> bool) \<Rightarrow> bool" where
  "put_is_err t s h b P = (case store_put (t_io t) s h b of (Inr _, s') \<Rightarrow> False | (Inl _, s') \<Rightarrow> P s')"

definition deny_unwrap :: "bench \<Rightarrow> store \<Rightarrow> string \<Rightarrow> (bool \<Rightarrow> store \<Rightarrow> bool) \<Rightarrow> bool" where
  "deny_unwrap t s h P = (case store_deny (t_io t) s h of (Inr p, s') \<Rightarrow> P p s' | (Inl _, s') \<Rightarrow> False)"

definition allow_unwrap :: "bench \<Rightarrow> store \<Rightarrow> string \<Rightarrow> (bool \<Rightarrow> store \<Rightarrow> bool) \<Rightarrow> bool" where
  "allow_unwrap t s h P = (case store_allow (t_io t) s h of (Inr p, s') \<Rightarrow> P p s' | (Inl _, s') \<Rightarrow> False)"

section \<open>The tests of the store\<close>

definition put_get_has_roundtrip_and_reopen :: "bench \<Rightarrow> bool" where
  "put_get_has_roundtrip_and_reopen t =
     opened t Map.empty (\<lambda>s.
       let b = str_bytes (''{'' @ [CHR 0x22] @ ''v'' @ [CHR 0x22] @ '':1}''); h = sha256_hex (t_crypto t) b
       in store_has s h = None \<and>
          put_unwrap t s h b (\<lambda>s.
            store_has s h = Some (len64 b) \<and> store_get True s h = Some b \<and> store_count s = 1 \<and>
            store_total_bytes s = len64 b \<and> store_has s (''0x'' @ h) = Some (len64 b) \<and>
            opened t (files s) (\<lambda>s2. store_count s2 = 1 \<and> store_get True s2 h = Some b)))"

definition denylist_blocks_store_purges_and_survives_reopen :: "bench \<Rightarrow> bool" where
  "denylist_blocks_store_purges_and_survives_reopen t =
     opened t Map.empty (\<lambda>s.
       let b = str_bytes ''abusive''; h = sha256_hex (t_crypto t) b
       in put_unwrap t s h b (\<lambda>s.
            store_has s h \<noteq> None \<and>
            deny_unwrap t s h (\<lambda>p s.
              p \<and> store_has s h = None \<and> store_is_denied s h \<and>
              put_is_err t s h b (\<lambda>s.
                store_has s h = None \<and>
                opened t (files s) (\<lambda>s2. store_is_denied s2 h \<and> put_is_err t s2 h b (\<lambda>_. True))))))"

definition allow_rewrite_preserves_other_denied_and_survives_reopen :: "bench \<Rightarrow> bool" where
  "allow_rewrite_preserves_other_denied_and_survives_reopen t =
     opened t Map.empty (\<lambda>s.
       let h1 = sha256_hex (t_crypto t) (str_bytes ''one''); h2 = sha256_hex (t_crypto t) (str_bytes ''two'');
           h3 = sha256_hex (t_crypto t) (str_bytes ''three'')
       in deny_unwrap t s h1 (\<lambda>_ s. deny_unwrap t s h2 (\<lambda>_ s. deny_unwrap t s h3 (\<lambda>_ s.
            store_is_denied s h1 \<and> store_is_denied s h2 \<and> store_is_denied s h3 \<and>
            allow_unwrap t s h2 (\<lambda>p s.
              p \<and> \<not> store_is_denied s h2 \<and> store_is_denied s h1 \<and> store_is_denied s h3 \<and>
              opened t (files s) (\<lambda>s2.
                store_is_denied s2 h1 \<and> \<not> store_is_denied s2 h2 \<and> store_is_denied s2 h3))))))"

definition size_cap_refuses_new_content_when_full :: "bench \<Rightarrow> bool" where
  "size_cap_refuses_new_content_when_full t =
     opened t Map.empty (\<lambda>s.
       let s = with_max_bytes s 10; a = str_bytes ''12345''; b = str_bytes ''678901'';
           ha = sha256_hex (t_crypto t) a; hb = sha256_hex (t_crypto t) b
       in put_unwrap t s ha a (\<lambda>s. put_is_err t s hb b (\<lambda>s.
            store_total_bytes s = 5 \<and> put_unwrap t s ha a (\<lambda>s. store_count s = 1))))"

section \<open>The store tests hold\<close>

lemma bench_hex: "bench_ok t \<Longrightarrow> lower_hex64 (sha256_hex (t_crypto t) b)"
  by (simp add: bench_ok_def sha256_hex_lower_hex64)

lemma bench_norm:
  assumes "bench_ok t"
  shows "norm (sha256_hex (t_crypto t) b) = sha256_hex (t_crypto t) b" "is_valid_hash (sha256_hex (t_crypto t) b)"
    "norm (CHR ''0'' # CHR ''x'' # sha256_hex (t_crypto t) b) = sha256_hex (t_crypto t) b"
  using bench_hex [OF assms, of b] norm_0x_lower_hex64 [of "sha256_hex (t_crypto t) b"]
  by (simp_all add: norm_lower_hex64 lower_hex64_valid)

lemma opened_empty: "bench_ok t \<Longrightarrow> opened t Map.empty P = P empty_store"
proof -
  assume "bench_ok t"
  then have "clean_listing (t_open t Map.empty) Map.empty" by (simp add: bench_ok_def)
  then have "fst (store_open (t_open t Map.empty) Map.empty) = Inr empty_store"
    by (simp add: clean_listing_def store_open_def load_denylist_def fs_read_def fs_read_to_string_def empty_store_def)
  then show ?thesis by (simp add: opened_def)
qed

lemma opened_again:
  assumes "bench_ok t" and "store_ok s" and "finite (dom (files s))"
    and "\<And>s'. store_ok s' \<Longrightarrow> denied s' = denied s \<Longrightarrow> index s' = indexed_from (files s) (denied s) (dom (files s)) \<Longrightarrow>
      (\<And>h. h \<notin> denied s \<Longrightarrow> files s' (blob_path h) = files s (blob_path h)) \<Longrightarrow> P s'"
  shows "opened t (files s) P"
proof -
  have c: "clean_listing (t_open t (files s)) (files s)" using assms(1,3) by (simp add: bench_ok_def)
  then obtain s' where s': "fst (store_open (t_open t (files s)) (files s)) = Inr s'"
    "index s' = indexed_from (files s) (denied s') (dom (files s))"
    "\<And>h. h \<notin> denied s' \<Longrightarrow> files s' (blob_path h) = files s (blob_path h)"
    using store_open_clean by metis
  have d: "denied s' = denied s" using reopen_keeps(1) [OF assms(2) c s'(1)] .
  have "P s'" using assms(4) [OF store_ok_opened [OF c s'(1)] d] s'(2,3) unfolding d by blast
  with s'(1) show ?thesis by (simp add: opened_def)
qed

text \<open>What the operations do when no file call fails.\<close>

lemma put_unwrap_ok:
  assumes "bench_ok t" and "h \<notin> denied s" and "within_budget s h b" and "lower_hex64 h"
  shows "put_unwrap t s h b P = P (put_blob s h b)"
proof -
  have "store_put (t_io t) s h b = (Inr (), put_blob s h b)"
    using assms by (simp add: store_put_Ok_iff bench_ok_def norm_lower_hex64 lower_hex64_valid)
  then show ?thesis by (simp add: put_unwrap_def)
qed

lemma write_ok:
  "bench_ok t \<Longrightarrow> write_denylist (t_io t) S d =
    (Inr (), replaced ''denylist.txt.tmp'' denylist_path (str_bytes (denylist_body (set_order (t_io t) S))) d)"
  by (simp add: bench_ok_def write_denylist_def Let_def fs_write_def fs_rename_written)

lemma finite_replaced: "finite (dom d) \<Longrightarrow> finite (dom (replaced tmp f b d))"
  by (simp add: replaced_def)

lemma finite_remove: "finite (dom d) \<Longrightarrow> finite (dom (fs_remove ok f d))"
  by (simp add: fs_remove_def)

lemma finite_purge: "finite (dom (files s)) \<Longrightarrow> finite (dom (files (snd (store_purge i s h))))"
  by (simp add: store_purge_eq Let_def finite_remove)

lemma deny_unwrap_ok:
  assumes "bench_ok t" and "lower_hex64 h" and "store_ok s" and "finite (dom (files s))"
    and "\<And>s'. store_ok s' \<Longrightarrow> finite (dom (files s')) \<Longrightarrow> denied s' = insert h (denied s) \<Longrightarrow> index s' = (index s)(h := None)
      \<Longrightarrow> P (h \<in> dom (index s)) s'"
  shows "deny_unwrap t s h P"
proof -
  have n: "norm h = h" "is_valid_hash h" using assms(2) by (simp_all add: norm_lower_hex64 lower_hex64_valid)
  let ?d = "replaced ''denylist.txt.tmp'' denylist_path (str_bytes (denylist_body (set_order (t_io t) (insert h (denied s))))) (files s)"
  let ?s = "if h \<in> denied s then s else s\<lparr>files := ?d, denied := insert h (denied s)\<rparr>"
  have r: "store_deny (t_io t) s h = (Inr (h \<in> dom (index s)), snd (store_purge (t_io t) ?s h))"
    using n write_ok [OF assms(1)] by (simp add: store_deny_def Let_def store_purge_eq)
  have "store_ok (snd (store_deny (t_io t) s h))"
    using assms(1,3) by (intro store_ok_deny) (simp_all add: bench_ok_def)
  moreover have "finite (dom (files ?s))" using assms(4) by (simp add: finite_replaced)
  then have "finite (dom (files (snd (store_purge (t_io t) ?s h))))" by (rule finite_purge)
  moreover have "denied (snd (store_purge (t_io t) ?s h)) = insert h (denied s)" by auto
  moreover have "index (snd (store_purge (t_io t) ?s h)) = (index s)(h := None)"
    using n by (simp add: purge_index)
  ultimately show ?thesis using assms(5) r by (simp add: deny_unwrap_def)
qed

lemma allow_unwrap_ok:
  assumes "bench_ok t" and "lower_hex64 h" and "store_ok s" and "finite (dom (files s))" and "h \<in> denied s"
    and "\<And>s'. store_ok s' \<Longrightarrow> finite (dom (files s')) \<Longrightarrow> denied s' = denied s - {h} \<Longrightarrow> P True s'"
  shows "allow_unwrap t s h P"
proof -
  have r: "store_allow (t_io t) s h = (Inr True, s\<lparr>files := replaced ''denylist.txt.tmp'' denylist_path
      (str_bytes (denylist_body (set_order (t_io t) (denied s - {h})))) (files s), denied := denied s - {h}\<rparr>)"
    using assms(2,5) write_ok [OF assms(1)] by (simp add: store_allow_def Let_def norm_lower_hex64)
  have "store_ok (snd (store_allow (t_io t) s h))"
    using assms(1,3) by (intro store_ok_allow) (simp_all add: bench_ok_def)
  then have "P True (snd (store_allow (t_io t) s h))"
    using assms(4) unfolding r by (intro assms(6)) (simp_all add: finite_replaced)
  then show ?thesis by (simp add: allow_unwrap_def r)
qed

text \<open>One put into an empty store.\<close>

lemma first_put:
  "index (put_blob empty_store h b) = [h \<mapsto> len64 b]" "denied (put_blob empty_store h b) = {}"
  "tot (put_blob empty_store h b) = len64 b" "files (put_blob empty_store h b) (blob_path h) = Some b"
  "dom (files (put_blob empty_store h b)) = {blob_path h}" "max_bytes (put_blob empty_store h b) = 0"
  using unsigned_less [of "len64 b"]
  by (auto simp: put_blob_def empty_store_def held_len_def sat_sub_def sat_add_def replaced_def split: if_splits)

lemma first_put_ok: "lower_hex64 h \<Longrightarrow> store_ok (put_blob empty_store h b)"
  by (rule store_ok_put_blob) (simp, simp add: lower_hex64_valid, simp add: empty_store_def)

lemma first_put_unwrap: "bench_ok t \<Longrightarrow> lower_hex64 h \<Longrightarrow> put_unwrap t empty_store h b P = P (put_blob empty_store h b)"
  by (intro put_unwrap_ok) (simp_all add: empty_store_def within_budget_def)

lemma put_denied_err: "norm h \<in> denied s \<Longrightarrow> put_is_err t s h b P \<longleftrightarrow> P s \<or> \<not> is_valid_hash (norm h) \<and> P s"
  by (simp add: put_is_err_def store_put_eq Let_def)

lemma store_test_1: "bench_ok t \<Longrightarrow> put_get_has_roundtrip_and_reopen t"
proof -
  assume t: "bench_ok t"
  define b where "b = str_bytes (''{'' @ [CHR 0x22] @ ''v'' @ [CHR 0x22] @ '':1}'')"
  define h where "h = sha256_hex (t_crypto t) b"
  note n = bench_norm [OF t, of b, folded h_def]
  have hex: "lower_hex64 h" unfolding h_def using t by (rule bench_hex)
  let ?s = "put_blob empty_store h b"
  note s = first_put [of h b] and ok = first_put_ok [OF hex, of b]
  have again: "opened t (files ?s) (\<lambda>s2. store_count s2 = 1 \<and> store_get True s2 h = Some b)"
  proof (rule opened_again [OF t ok])
    fix s' :: store assume s': "denied s' = denied ?s" "index s' = indexed_from (files ?s) (denied ?s) (dom (files ?s))"
      "\<And>k. k \<notin> denied ?s \<Longrightarrow> files s' (blob_path k) = files ?s (blob_path k)"
    have "index s' = [h \<mapsto> len64 b]"
      unfolding s'(2) s(5) using n(2) s(2,4) by (auto simp: indexed_from_def file_len_def fun_eq_iff)
    then show "store_count s' = 1 \<and> store_get True s' h = Some b"
      using s'(1,3) s(2,4) n by (simp add: store_count_def store_get_def fs_read_def)
  qed (simp add: s(5))
  note first_put_unwrap [OF t hex, of b]
  moreover have "store_has empty_store h = None" by (simp add: store_has_def empty_store_def)
  ultimately show ?thesis
    unfolding put_get_has_roundtrip_and_reopen_def opened_empty [OF t] Let_def b_def [symmetric] h_def [symmetric]
    using again s n by (simp add: store_has_def store_get_def fs_read_def store_count_def store_total_bytes_def)
qed

lemma store_test_2: "bench_ok t \<Longrightarrow> denylist_blocks_store_purges_and_survives_reopen t"
proof -
  assume t: "bench_ok t"
  define b where "b = str_bytes ''abusive''"
  define h where "h = sha256_hex (t_crypto t) b"
  note n = bench_norm [OF t, of b, folded h_def]
  have hex: "lower_hex64 h" unfolding h_def using t by (rule bench_hex)
  let ?s = "put_blob empty_store h b"
  note s = first_put [of h b] and ok = first_put_ok [OF hex, of b]
  have "deny_unwrap t ?s h (\<lambda>p s. p \<and> store_has s h = None \<and> store_is_denied s h \<and>
      put_is_err t s h b (\<lambda>s. store_has s h = None \<and>
        opened t (files s) (\<lambda>s2. store_is_denied s2 h \<and> put_is_err t s2 h b (\<lambda>_. True))))"
  proof (rule deny_unwrap_ok [OF t hex ok])
    fix s' assume s': "store_ok s'" "finite (dom (files s'))" "denied s' = insert h (denied ?s)" "index s' = (index ?s)(h := None)"
    have "opened t (files s') (\<lambda>s2. store_is_denied s2 h \<and> put_is_err t s2 h b (\<lambda>_. True))"
      using n s'(3) by (intro opened_again [OF t s'(1,2)]) (simp add: store_is_denied_def put_denied_err)
    with s' n s show "h \<in> dom (index ?s) \<and> store_has s' h = None \<and> store_is_denied s' h \<and>
      put_is_err t s' h b (\<lambda>s. store_has s h = None \<and>
        opened t (files s) (\<lambda>s2. store_is_denied s2 h \<and> put_is_err t s2 h b (\<lambda>_. True)))"
      by (simp add: store_has_def store_is_denied_def put_denied_err)
  qed (simp add: s(5))
  then show ?thesis
    unfolding denylist_blocks_store_purges_and_survives_reopen_def opened_empty [OF t] Let_def b_def [symmetric] h_def [symmetric]
    by (simp add: first_put_unwrap [OF t hex] store_has_def n s)
qed

lemma store_test_3:
  assumes t: "bench_ok t" and inj: "inj_on (sha256_hex (t_crypto t)) {str_bytes ''one'', str_bytes ''two'', str_bytes ''three''}"
  shows "allow_rewrite_preserves_other_denied_and_survives_reopen t"
proof -
  define h1 where "h1 = sha256_hex (t_crypto t) (str_bytes ''one'')"
  define h2 where "h2 = sha256_hex (t_crypto t) (str_bytes ''two'')"
  define h3 where "h3 = sha256_hex (t_crypto t) (str_bytes ''three'')"
  have hex: "lower_hex64 h1" "lower_hex64 h2" "lower_hex64 h3" unfolding h1_def h2_def h3_def using t by (rule bench_hex)+
  then have n: "norm h1 = h1" "norm h2 = h2" "norm h3 = h3" by (simp_all add: norm_lower_hex64)
  have "str_bytes ''one'' \<noteq> str_bytes ''two''" "str_bytes ''three'' \<noteq> str_bytes ''two''" by (simp_all add: str_bytes_def)
  then have ne: "h1 \<noteq> h2" "h3 \<noteq> h2" unfolding h1_def h2_def h3_def using inj by (auto dest: inj_onD)
  have start: "store_ok empty_store" "finite (dom (files empty_store))" by simp (simp add: empty_store_def)
  show ?thesis
    unfolding allow_rewrite_preserves_other_denied_and_survives_reopen_def opened_empty [OF t] Let_def
      h1_def [symmetric] h2_def [symmetric] h3_def [symmetric]
  proof (rule deny_unwrap_ok [OF t hex(1) start])
    fix s assume s: "store_ok s" "finite (dom (files s))" "denied s = insert h1 (denied empty_store)"
    show "deny_unwrap t s h2 (\<lambda>_ s. deny_unwrap t s h3 (\<lambda>_ s.
            store_is_denied s h1 \<and> store_is_denied s h2 \<and> store_is_denied s h3 \<and>
            allow_unwrap t s h2 (\<lambda>p s.
              p \<and> \<not> store_is_denied s h2 \<and> store_is_denied s h1 \<and> store_is_denied s h3 \<and>
              opened t (files s) (\<lambda>s2. store_is_denied s2 h1 \<and> \<not> store_is_denied s2 h2 \<and> store_is_denied s2 h3))))"
    proof (rule deny_unwrap_ok [OF t hex(2) s(1,2)], rule deny_unwrap_ok [OF t hex(3)])
      fix s2 s3 assume s2: "denied s2 = insert h2 (denied s)"
        and s3: "store_ok s3" "finite (dom (files s3))" "denied s3 = insert h3 (denied s2)"
      have d3: "denied s3 = {h1, h2, h3}" using s(3) s2 s3(3) by (auto simp: empty_store_def)
      have "allow_unwrap t s3 h2 (\<lambda>p s.
              p \<and> \<not> store_is_denied s h2 \<and> store_is_denied s h1 \<and> store_is_denied s h3 \<and>
              opened t (files s) (\<lambda>s2. store_is_denied s2 h1 \<and> \<not> store_is_denied s2 h2 \<and> store_is_denied s2 h3))"
      proof (rule allow_unwrap_ok [OF t hex(2) s3(1,2)])
        fix s4 assume s4: "store_ok s4" "finite (dom (files s4))" "denied s4 = denied s3 - {h2}"
        have "opened t (files s4) (\<lambda>s2. store_is_denied s2 h1 \<and> \<not> store_is_denied s2 h2 \<and> store_is_denied s2 h3)"
          using s4(3) d3 ne n by (intro opened_again [OF t s4(1,2)]) (simp add: store_is_denied_def)
        with s4(3) d3 ne n show "True \<and> \<not> store_is_denied s4 h2 \<and> store_is_denied s4 h1 \<and> store_is_denied s4 h3 \<and>
              opened t (files s4) (\<lambda>s2. store_is_denied s2 h1 \<and> \<not> store_is_denied s2 h2 \<and> store_is_denied s2 h3)"
          by (simp add: store_is_denied_def)
      qed (simp add: d3)
      with d3 n show "store_is_denied s3 h1 \<and> store_is_denied s3 h2 \<and> store_is_denied s3 h3 \<and>
            allow_unwrap t s3 h2 (\<lambda>p s.
              p \<and> \<not> store_is_denied s h2 \<and> store_is_denied s h1 \<and> store_is_denied s h3 \<and>
              opened t (files s) (\<lambda>s2. store_is_denied s2 h1 \<and> \<not> store_is_denied s2 h2 \<and> store_is_denied s2 h3))"
        by (simp add: store_is_denied_def)
    qed
  qed
qed

lemma store_test_4:
  assumes t: "bench_ok t" and inj: "sha256_hex (t_crypto t) (str_bytes ''12345'') \<noteq> sha256_hex (t_crypto t) (str_bytes ''678901'')"
  shows "size_cap_refuses_new_content_when_full t"
proof -
  define a where "a = str_bytes ''12345''"
  define b where "b = str_bytes ''678901''"
  define ha where "ha = sha256_hex (t_crypto t) a"
  define hb where "hb = sha256_hex (t_crypto t) b"
  have hex: "lower_hex64 ha" "lower_hex64 hb" unfolding ha_def hb_def using t by (rule bench_hex)+
  then have n: "norm ha = ha" "norm hb = hb" "is_valid_hash hb" by (simp_all add: norm_lower_hex64 lower_hex64_valid)
  have len: "len64 a = 5" "len64 b = 6" by (simp_all add: a_def b_def str_bytes_def len64_def)
  have ne: "hb \<noteq> ha" using inj by (simp add: ha_def hb_def a_def b_def)
  let ?s0 = "with_max_bytes empty_store 10" and ?s1 = "put_blob (with_max_bytes empty_store 10) ha a"
  have s1: "index ?s1 = [ha \<mapsto> 5]" "denied ?s1 = {}" "tot ?s1 = 5" "max_bytes ?s1 = 10"
    by (simp_all add: put_blob_def with_max_bytes_def empty_store_def held_len_def sat_sub_def sat_add_def len)
  have put: "put_unwrap t ?s0 ha a P = P ?s1" for P
    by (rule put_unwrap_ok [OF t _ _ hex(1)])
      (simp_all add: with_max_bytes_def empty_store_def within_budget_def held_len_def len sat_add_def)
  have again: "put_unwrap t ?s1 ha a P = P (put_blob ?s1 ha a)" for P
    by (rule put_unwrap_ok [OF t _ _ hex(1)]) (simp_all add: s1 within_budget_def held_len_def)
  have "\<not> within_budget ?s1 hb b"
    using ne by (simp add: s1 within_budget_def held_len_def len sat_add_def)
  then have refused: "put_is_err t ?s1 hb b P = P ?s1" for P
    using n(2,3) s1(2) by (simp add: put_is_err_def store_put_eq Let_def)
  have "store_count (put_blob ?s1 ha a) = 1" by (simp add: store_count_def put_blob_def with_max_bytes_def empty_store_def)
  then show ?thesis
    unfolding size_cap_refuses_new_content_when_full_def opened_empty [OF t] Let_def
      a_def [symmetric] b_def [symmetric] ha_def [symmetric] hb_def [symmetric] put refused again
    by (simp add: store_total_bytes_def s1)
qed

section \<open>The tests of the guard, of the templates and of the gate\<close>

text \<open>The URLs of the tests with what the \<open>url\<close> crate makes of them: the scheme and the serialised host.\<close>

type_synonym vectors = "(string \<times> url_parts option) list"

definition ssrf_bad :: vectors where
  "ssrf_bad =
     [(''http://127.0.0.1:8790/x'', Some \<lparr>scheme = ''http'', host_str = Some ''127.0.0.1''\<rparr>),
      (''http://169.254.169.254/latest/meta-data'', Some \<lparr>scheme = ''http'', host_str = Some ''169.254.169.254''\<rparr>),
      (''http://localhost/x'', Some \<lparr>scheme = ''http'', host_str = Some ''localhost''\<rparr>),
      (''http://10.0.0.1/x'', Some \<lparr>scheme = ''http'', host_str = Some ''10.0.0.1''\<rparr>),
      (''http://192.168.1.1/x'', Some \<lparr>scheme = ''http'', host_str = Some ''192.168.1.1''\<rparr>),
      (''http://172.16.0.1/x'', Some \<lparr>scheme = ''http'', host_str = Some ''172.16.0.1''\<rparr>),
      (''http://[::1]/x'', Some \<lparr>scheme = ''http'', host_str = Some ''[::1]''\<rparr>),
      (''http://metadata.google.internal/x'', Some \<lparr>scheme = ''http'', host_str = Some ''metadata.google.internal''\<rparr>),
      (''http://100.64.0.1/x'', Some \<lparr>scheme = ''http'', host_str = Some ''100.64.0.1''\<rparr>),
      (''file:///etc/passwd'', Some \<lparr>scheme = ''file'', host_str = None\<rparr>),
      (''gopher://x/y'', Some \<lparr>scheme = ''gopher'', host_str = Some ''x''\<rparr>),
      (''http://[::ffff:127.0.0.1]/x'', Some \<lparr>scheme = ''http'', host_str = Some ''[::ffff:7f00:1]''\<rparr>),
      (''http://[64:ff9b::7f00:1]/x'', Some \<lparr>scheme = ''http'', host_str = Some ''[64:ff9b::7f00:1]''\<rparr>),
      (''http://[64:ff9b::a00:1]/x'', Some \<lparr>scheme = ''http'', host_str = Some ''[64:ff9b::a00:1]''\<rparr>),
      (''http://[2002:7f00:1::]/x'', Some \<lparr>scheme = ''http'', host_str = Some ''[2002:7f00:1::]''\<rparr>),
      (''http://[2002:a9fe:a9fe::]/x'', Some \<lparr>scheme = ''http'', host_str = Some ''[2002:a9fe:a9fe::]''\<rparr>)]"

definition ssrf_good :: vectors where
  "ssrf_good =
     [(''https://gist.githubusercontent.com/u/raw'', Some \<lparr>scheme = ''https'', host_str = Some ''gist.githubusercontent.com''\<rparr>),
      (''https://example.com/c'', Some \<lparr>scheme = ''https'', host_str = Some ''example.com''\<rparr>),
      (''http://8.8.8.8/x'', Some \<lparr>scheme = ''http'', host_str = Some ''8.8.8.8''\<rparr>),
      (''http://[64:ff9b::808:808]/x'', Some \<lparr>scheme = ''http'', host_str = Some ''[64:ff9b::808:808]''\<rparr>),
      (''http://[2002:0808:0808::]/x'', Some \<lparr>scheme = ''http'', host_str = Some ''[2002:808:808::]''\<rparr>)]"

definition other_urls :: vectors where
  "other_urls =
     [(''https://obs.example.com/payload/9'', Some \<lparr>scheme = ''https'', host_str = Some ''obs.example.com''\<rparr>),
      (''cairn:v1:deadbeef'', Some \<lparr>scheme = ''cairn'', host_str = None\<rparr>),
      (''https://gw1/content/0xabc'', Some \<lparr>scheme = ''https'', host_str = Some ''gw1''\<rparr>),
      (''https://gw2/ipfs/abc'', Some \<lparr>scheme = ''https'', host_str = Some ''gw2''\<rparr>)]"

definition parses :: "(string \<Rightarrow> url_parts option) \<Rightarrow> vectors \<Rightarrow> bool" where
  "parses up vs \<longleftrightarrow> (\<forall>(u, p) \<in> set vs. up u = p)"

definition candidate_urls_origin_first_then_opt_in_http_uri :: "(string \<Rightarrow> url_parts option) \<Rightarrow> bool" where
  "candidate_urls_origin_first_then_opt_in_http_uri up \<longleftrightarrow>
     candidate_urls up ''http://o:7777/'' ''0xabc'' ''https://obs.example.com/payload/9'' False = [''http://o:7777/content/0xabc''] \<and>
     candidate_urls up ''http://o:7777/'' ''0xabc'' ''https://obs.example.com/payload/9'' True
       = [''http://o:7777/content/0xabc'', ''https://obs.example.com/payload/9''] \<and>
     length (candidate_urls up ''http://o'' ''0xabc'' ''cairn:v1:deadbeef'' True) = 1"

definition ssrf_guard_blocks_internal_uri_hints :: "(string \<Rightarrow> url_parts option) \<Rightarrow> bool" where
  "ssrf_guard_blocks_internal_uri_hints up \<longleftrightarrow>
     (\<forall>(bad, p) \<in> set ssrf_bad. \<not> host_is_public up bad \<and> length (candidate_urls up ''http://origin:7777'' ''0xabc'' bad True) = 1) \<and>
     (\<forall>(good, p) \<in> set ssrf_good. host_is_public up good)"

definition expand_substitutes_bare_hex_into_the_template :: "(string \<Rightarrow> url_parts option) \<Rightarrow> bool" where
  "expand_substitutes_bare_hex_into_the_template up \<longleftrightarrow>
     expand up [''https://gw1/content/0x{hash}'', ''https://gw2/ipfs/{hash}''] ''0xabc''
       = [''https://gw1/content/0xabc'', ''https://gw2/ipfs/abc'']"

definition accept_get_is_the_anti_poisoning_gate :: "crypto \<Rightarrow> bool" where
  "accept_get_is_the_anti_poisoning_gate c \<longleftrightarrow>
     (let good = str_bytes (''{'' @ [CHR 0x22] @ ''v'' @ [CHR 0x22] @ '':1}''); h = sha256_hex c good in
      accept_get c h (RespGet (Some good)) (push_bit 20 1) = Some good \<and>
      accept_get c (''0x'' @ h) (RespGet (Some good)) (push_bit 20 1) = Some good \<and>
      accept_get c h (RespGet (Some (str_bytes ''TAMPERED''))) (push_bit 20 1) = None \<and>
      accept_get c h (RespGet (Some good)) 3 = None \<and>
      accept_get c h (RespGet None) (push_bit 20 1) = None \<and>
      accept_get c h (RespHave True 9) (push_bit 20 1) = None)"

text \<open>The guard looks at the parsed URL only.\<close>

definition public_parts :: "url_parts option \<Rightarrow> bool" where
  "public_parts p = host_is_public (\<lambda>_. p) []"

lemma host_is_public_parts: "host_is_public up u = public_parts (up u)"
  by (simp add: host_is_public_def public_parts_def)

text \<open>The address parser, evaluated on literals.\<close>

lemma read_groups_numeral:
  "read_groups (numeral v) first s =
     (case (if 0 < (pred_numeral v :: nat) then read_separated first read_ipv4 s else None) of
        Some (a, t) \<Rightarrow> (segments_of_v4 a, True, t)
      | None \<Rightarrow>
          (case read_separated first read_segment s of
             Some (g, t) \<Rightarrow> (case read_groups (pred_numeral v) False t of (gs, e, u) \<Rightarrow> (g # gs, e, u))
           | None \<Rightarrow> ([], False, s)))"
  by (simp add: numeral_eq_Suc)

lemma replicate_numeral_eq: "replicate (numeral v) x = x # replicate (pred_numeral v) x"
  by (simp add: numeral_eq_Suc)

lemmas parse_eval = parse_ip_def read_ipv4_def read_octet_def read_number_def to_digit_def read_ipv6_def
  read_groups_numeral replicate_numeral_eq read_separated_def read_given_char_def read_segment_def Let_def

lemma ip_v4_literals:
  "parse_ip ''127.0.0.1'' = Some (V4 (Ipv4 127 0 0 1))"
  "parse_ip ''169.254.169.254'' = Some (V4 (Ipv4 169 254 169 254))"
  "parse_ip ''10.0.0.1'' = Some (V4 (Ipv4 10 0 0 1))"
  "parse_ip ''192.168.1.1'' = Some (V4 (Ipv4 192 168 1 1))"
  "parse_ip ''172.16.0.1'' = Some (V4 (Ipv4 172 16 0 1))"
  "parse_ip ''100.64.0.1'' = Some (V4 (Ipv4 100 64 0 1))"
  "parse_ip ''8.8.8.8'' = Some (V4 (Ipv4 8 8 8 8))"
  by (simp_all add: parse_eval)

lemma ip_v6_literals:
  "parse_ip ''::1'' = Some (V6 (Ipv6 0 0 0 0 0 0 0 1))"
  "parse_ip ''::ffff:7f00:1'' = Some (V6 (Ipv6 0 0 0 0 0 0xffff 0x7f00 1))"
  "parse_ip ''64:ff9b::7f00:1'' = Some (V6 (Ipv6 0x64 0xff9b 0 0 0 0 0x7f00 1))"
  by (simp_all add: parse_eval)

lemma ip_nat64_literals:
  "parse_ip ''64:ff9b::a00:1'' = Some (V6 (Ipv6 0x64 0xff9b 0 0 0 0 0xa00 1))"
  "parse_ip ''64:ff9b::808:808'' = Some (V6 (Ipv6 0x64 0xff9b 0 0 0 0 0x808 0x808))"
  by (simp_all add: parse_eval)

lemma ip_6to4_literals:
  "parse_ip ''2002:7f00:1::'' = Some (V6 (Ipv6 0x2002 0x7f00 1 0 0 0 0 0))"
  "parse_ip ''2002:a9fe:a9fe::'' = Some (V6 (Ipv6 0x2002 0xa9fe 0xa9fe 0 0 0 0 0))"
  "parse_ip ''2002:808:808::'' = Some (V6 (Ipv6 0x2002 0x808 0x808 0 0 0 0 0))"
  by (simp_all add: parse_eval)

lemmas ip_literals = ip_v4_literals ip_v6_literals ip_nat64_literals ip_6to4_literals

lemma name_literals:
  "parse_ip ''localhost'' = None" "parse_ip ''metadata.google.internal'' = None" "parse_ip ''gist.githubusercontent.com'' = None"
  "parse_ip ''example.com'' = None" "parse_ip ''obs.example.com'' = None" "parse_ip ''gw1'' = None" "parse_ip ''gw2'' = None"
  by (simp_all add: parse_eval)

lemmas guard_eval = host_is_public_def public_parts_def ip_literals name_literals trim_end_char_def trim_start_char_def
  to_lowercase_def lower_char_def ends_with_def starts_with_def v4_of_segments_def Let_def

lemma ssrf_bad_parts: "list_all (\<lambda>(u, p). \<not> public_parts p) ssrf_bad"
  by (simp add: ssrf_bad_def guard_eval)

lemma ssrf_good_parts: "list_all (\<lambda>(u, p). public_parts p) ssrf_good"
  by (simp add: ssrf_good_def guard_eval)

lemma other_parts:
  "public_parts (Some \<lparr>scheme = ''https'', host_str = Some ''obs.example.com''\<rparr>)"
  "public_parts (Some \<lparr>scheme = ''https'', host_str = Some ''gw1''\<rparr>)" "public_parts (Some \<lparr>scheme = ''https'', host_str = Some ''gw2''\<rparr>)"
  by (simp_all add: guard_eval)

text \<open>An internal URL never becomes a candidate, whatever the test's list says of it.\<close>

lemma parses_bad: "parses up ssrf_bad \<Longrightarrow> (u, p) \<in> set ssrf_bad \<Longrightarrow> \<not> host_is_public up u"
  using ssrf_bad_parts by (force simp: list_all_iff parses_def host_is_public_parts)

lemma parses_good: "parses up ssrf_good \<Longrightarrow> (u, p) \<in> set ssrf_good \<Longrightarrow> host_is_public up u"
  using ssrf_good_parts by (force simp: list_all_iff parses_def host_is_public_parts)

lemma guard_test_1: "parses up ssrf_bad \<Longrightarrow> parses up ssrf_good \<Longrightarrow> ssrf_guard_blocks_internal_uri_hints up"
  unfolding ssrf_guard_blocks_internal_uri_hints_def
  by (auto simp: candidate_urls_def dest: parses_bad parses_good)

lemma guard_test_2: "parses up other_urls \<Longrightarrow> candidate_urls_origin_first_then_opt_in_http_uri up"
proof -
  assume "parses up other_urls"
  then have "host_is_public up ''https://obs.example.com/payload/9''"
    using other_parts(1) by (simp add: parses_def other_urls_def host_is_public_parts)
  then show ?thesis
    by (simp add: candidate_urls_origin_first_then_opt_in_http_uri_def candidate_urls_def trim_end_char_def starts_with_def)
qed

lemma template_test: "parses up other_urls \<Longrightarrow> expand_substitutes_bare_hex_into_the_template up"
proof -
  assume "parses up other_urls"
  then have p: "host_is_public up ''https://gw1/content/0xabc''" "host_is_public up ''https://gw2/ipfs/abc''"
    using other_parts(2,3) by (simp_all add: parses_def other_urls_def host_is_public_parts)
  have "trim_start_str ''0x'' ''0xabc'' = ''abc''" by code_simp
  moreover have "replace_str ''{hash}'' ''abc'' ''https://gw1/content/0x{hash}'' = ''https://gw1/content/0xabc''"
    "replace_str ''{hash}'' ''abc'' ''https://gw2/ipfs/{hash}'' = ''https://gw2/ipfs/abc''"
    by code_simp+
  ultimately show ?thesis using p by (simp add: expand_substitutes_bare_hex_into_the_template_def expand_def Let_def)
qed

lemma gate_test:
  assumes "crypto_ok c"
    and "sha256_hex c (str_bytes ''TAMPERED'') \<noteq> sha256_hex c (str_bytes (''{'' @ [CHR 0x22] @ ''v'' @ [CHR 0x22] @ '':1}''))"
  shows "accept_get_is_the_anti_poisoning_gate c"
proof -
  define g where "g = str_bytes (''{'' @ [CHR 0x22] @ ''v'' @ [CHR 0x22] @ '':1}'')"
  define h where "h = sha256_hex c g"
  have "lower_hex64 h" unfolding h_def using assms(1) by (rule sha256_hex_lower_hex64)
  then have n: "norm h = h" "norm (''0x'' @ h) = h" using norm_0x_lower_hex64 by (simp_all add: norm_lower_hex64)
  have len: "length g = 7" "length (str_bytes ''TAMPERED'') = 8" by (simp_all add: g_def str_bytes_def)
  have ne: "sha256_hex c (str_bytes ''TAMPERED'') \<noteq> h" using assms(2) by (simp add: h_def g_def)
  have none: "accept_get c want r m = None" if "\<And>b. \<not> (r = RespGet (Some b) \<and> length b \<le> unat m \<and> sha256_hex c b = norm want)"
    for want r m
    using that accept_get_iff [of c want r m] by (cases "accept_get c want r m") auto
  have cap: "unat (push_bit 20 1 :: usize) = 1048576" "unat (3 :: usize) = 3" by simp_all
  show ?thesis
    unfolding accept_get_is_the_anti_poisoning_gate_def Let_def g_def [symmetric] h_def [symmetric]
    using n len ne cap by (intro conjI none) (auto simp: accept_get_iff h_def)
qed

section \<open>A concrete bench\<close>

text \<open>A bench with the demo digest.\<close>

definition demo_bench :: bench where
  "demo_bench = \<lparr>t_crypto = demo_crypto, t_io = demo_io, t_open = (\<lambda>d. demo_open (sorted_list_of_set (dom d)))\<rparr>"

definition vector_parse :: "string \<Rightarrow> url_parts option" where
  "vector_parse u = (case map_of (ssrf_bad @ ssrf_good @ other_urls) u of Some p \<Rightarrow> p | None \<Rightarrow> None)"

lemma demo_bench_ok: "bench_ok demo_bench"
  using demo_order by (simp add: bench_ok_def demo_bench_def demo_crypto_ok demo_open_clean) (simp add: demo_io_def)

lemma demo_sha_ends:
  "hd (sha256_hex demo_crypto (x # b)) = hex_digit (x div 16)" "hd (tl (sha256_hex demo_crypto (x # b))) = hex_digit (x mod 16)"
  "last (sha256_hex demo_crypto (x # b)) = hex_digit (of_nat (Suc (length b)) mod 16)"
  by (simp_all add: sha256_hex_def demo_crypto_def replicate_numeral_eq)

lemma vectors_parse: "parses vector_parse (ssrf_bad @ ssrf_good @ other_urls)"
proof -
  have "distinct (map fst (ssrf_bad @ ssrf_good @ other_urls))"
    by (simp add: ssrf_bad_def ssrf_good_def other_urls_def)
  note in_map = map_of_is_SomeI [OF this]
  show ?thesis
    unfolding parses_def
  proof clarify
    fix u p assume "(u, p) \<in> set (ssrf_bad @ ssrf_good @ other_urls)"
    then show "vector_parse u = p" by (simp only: vector_parse_def in_map option.case)
  qed
qed

end
