(* ===== verification/Repo_Race.thy ===== *)
theory Repo_Race
  imports Repo_Tests
begin

text \<open>
  The concurrent test of src/store.rs: tasks that deny and allow hashes race on the denylist, in any interleaving
  of the lock regions and file calls, and no takedown is lost. (The schedule is a parameter; the tests run one.)
\<close>

section \<open>The concurrent test of the denylist\<close>

text \<open>
  \<open>concurrent_deny_allow_never_loses_a_takedown\<close>: a task per hash denies it and, for some of them, allows it
  again; the tasks run in any interleaving of the lock regions and file calls of \<open>deny\<close> and \<open>allow\<close>.
\<close>

datatype churn_pc = Churning deny_pc bool | Allowing string | Churned | Panicked

definition churn_step :: "io \<Rightarrow> store \<times> churn_pc list \<Rightarrow> nat \<Rightarrow> store \<times> churn_pc list" where
  "churn_step i x k =
     (let (s, pcs) = x in
      if k < length pcs then
        (case pcs ! k of
           Churning pc again \<Rightarrow>
             (case deny_step i s pc of
                (Inl pc', s') \<Rightarrow> (s', pcs[k := Churning pc' again])
              | (Inr (Inr _), s') \<Rightarrow> (s', pcs[k := if again then Allowing (deny_hash pc) else Churned])
              | (Inr (Inl _), s') \<Rightarrow> (s', pcs[k := Panicked]))
         | Allowing h \<Rightarrow>
             (case store_allow i s h of
                (Inr _, s') \<Rightarrow> (s', pcs[k := Churned])
              | (Inl _, s') \<Rightarrow> (s', pcs[k := Panicked]))
         | _ \<Rightarrow> (s, pcs))
      else (s, pcs))"

definition concurrent_deny_allow_never_loses_a_takedown :: "bench \<Rightarrow> (string \<times> bool) list \<Rightarrow> nat list \<Rightarrow> bool" where
  "concurrent_deny_allow_never_loses_a_takedown t tasks schedule \<longleftrightarrow>
     opened t Map.empty (\<lambda>s.
       case foldl (churn_step (t_io t)) (s, map (\<lambda>(h, again). Churning (DenySet h) again) tasks) schedule of
         (s, pcs) \<Rightarrow>
           list_all (\<lambda>pc. pc = Churned) pcs \<and>
           opened t (files s) (\<lambda>s2. list_all (\<lambda>(h, again).
             store_is_denied s h = (\<not> again) \<and> store_is_denied s2 h = (\<not> again)) tasks))"

text \<open>What a task's counter says of its hash, and how many steps it has left.\<close>

fun churn_pc_ok :: "store \<Rightarrow> string \<times> bool \<Rightarrow> churn_pc \<Rightarrow> bool" where
  "churn_pc_ok s (h, again) (Churning (DenySet h') a) = (h' = h \<and> a = again \<and> h \<notin> denied s)"
| "churn_pc_ok s (h, again) (Churning pc a) = (deny_hash pc = h \<and> a = again \<and> h \<in> denied s)"
| "churn_pc_ok s (h, again) (Allowing h') = (h' = h \<and> again \<and> h \<in> denied s)"
| "churn_pc_ok s (h, again) Churned = (h \<in> denied s \<longleftrightarrow> \<not> again)"
| "churn_pc_ok s (h, again) Panicked = False"

fun churn_rank :: "churn_pc \<Rightarrow> nat" where
  "churn_rank (Churning (DenySet h) a) = 4"
| "churn_rank (Churning (PurgeFile h) a) = 3"
| "churn_rank (Churning (PurgeIndex h) a) = 2"
| "churn_rank (Allowing h) = 1"
| "churn_rank Churned = 0"
| "churn_rank Panicked = 0"

definition churn_ok :: "(string \<times> bool) list \<Rightarrow> (nat \<Rightarrow> nat) \<Rightarrow> store \<times> churn_pc list \<Rightarrow> bool" where
  "churn_ok tasks left x \<longleftrightarrow>
     (let (s, pcs) = x in
      keys_persisted {} s \<and> finite (dom (files s)) \<and> index s = Map.empty \<and> length pcs = length tasks \<and>
      (\<forall>k < length tasks. churn_pc_ok s (tasks ! k) (pcs ! k) \<and> churn_rank (pcs ! k) \<le> left k))"

text \<open>A step of a task touches the denylist at its own hash only.\<close>

lemma churn_others:
  assumes "churn_pc_ok s (h, again) pc" and "h \<in> denied s' \<longleftrightarrow> h \<in> denied s"
  shows "churn_pc_ok s' (h, again) pc"
  using assms by (cases "(s, (h, again), pc)" rule: churn_pc_ok.cases) simp_all

lemma churn_update:
  assumes "churn_ok tasks left (s, pcs)" and "k < length tasks" and "distinct (map fst tasks)"
    and "keys_persisted {} s'" and "finite (dom (files s'))" and "index s' = Map.empty"
    and "\<And>h. h \<noteq> fst (tasks ! k) \<Longrightarrow> h \<in> denied s' \<longleftrightarrow> h \<in> denied s"
    and "churn_pc_ok s' (tasks ! k) pc" and "churn_rank pc \<le> left k - 1"
  shows "churn_ok tasks (left(k := left k - 1)) (s', pcs[k := pc])"
proof -
  have "churn_pc_ok s' (tasks ! j) (pcs ! j)" if "j < length tasks" "j \<noteq> k" for j
  proof -
    have "fst (tasks ! j) \<noteq> fst (tasks ! k)"
      using assms(2,3) that nth_eq_iff_index_eq [OF assms(3), of j k] by simp
    moreover have "churn_pc_ok s (tasks ! j) (pcs ! j)" using assms(1) that by (simp add: churn_ok_def)
    ultimately show ?thesis using assms(7) by (cases "tasks ! j") (simp add: churn_others)
  qed
  with assms show ?thesis by (auto simp: churn_ok_def nth_list_update)
qed

lemma churn_step_ok:
  assumes t: "bench_ok t" and d: "distinct (map fst tasks)" and hex: "list_all (\<lambda>(h, again). lower_hex64 h) tasks"
    and ok: "churn_ok tasks left (s, pcs)" and k: "k < length tasks"
  shows "churn_ok tasks (left(k := left k - 1)) (churn_step (t_io t) (s, pcs) k)"
proof -
  let ?i = "t_io t"
  obtain h again where h: "tasks ! k = (h, again)" by fastforce
  have hh: "lower_hex64 h" "norm h = h" using hex k h by (auto simp: list_all_length norm_lower_hex64)
  have st: "keys_persisted {} s" "finite (dom (files s))" "index s = Map.empty" and len: "length pcs = length tasks"
    and pc: "churn_pc_ok s (h, again) (pcs ! k)" "churn_rank (pcs ! k) \<le> left k"
    using ok k h by (auto simp: churn_ok_def)
  note upd = churn_update [OF ok k d]
  have io: "order_ok ?i" using t by (simp add: bench_ok_def)
  note written = write_ok [OF t]
  have set_ok: "keys_persisted {} (s\<lparr>files := replaced ''denylist.txt.tmp'' denylist_path
      (str_bytes (denylist_body (set_order ?i S))) (files s), denied := S\<rparr>)"
    if "finite S" "\<forall>x \<in> S. lower_hex64 x" for S
    using keys_persisted_written [OF st(1) io that written] .
  have S: "finite (insert h (denied s))" "\<forall>x \<in> insert h (denied s). lower_hex64 x"
    "finite (denied s - {h})" "\<forall>x \<in> denied s - {h}. lower_hex64 x"
    using st(1) hh by (auto simp: keys_persisted_def keys_ok_def)
  show ?thesis
  proof (cases "pcs ! k")
    case (Churning dpc a)
    show ?thesis
    proof (cases dpc)
      case (DenySet h')
      with Churning pc have p: "pcs ! k = Churning (DenySet h) again" "h \<notin> denied s" "4 \<le> left k" by simp_all
      let ?d = "replaced ''denylist.txt.tmp'' denylist_path (str_bytes (denylist_body (set_order ?i (insert h (denied s))))) (files s)"
      have step: "churn_step ?i (s, pcs) k =
          (s\<lparr>files := ?d, denied := insert h (denied s)\<rparr>, pcs[k := Churning (PurgeFile h) again])"
        using p len k by (simp add: churn_step_def written Let_def)
      show ?thesis
        unfolding step using p set_ok [OF S(1,2)] st(2,3) h by (intro upd) (simp_all add: finite_replaced)
    next
      case (PurgeFile h')
      with Churning pc have p: "pcs ! k = Churning (PurgeFile h) again" "h \<in> denied s" "3 \<le> left k" by simp_all
      have step: "churn_step ?i (s, pcs) k =
          (s\<lparr>files := fs_remove (remove_ok ?i) (blob_path h) (files s)\<rparr>, pcs[k := Churning (PurgeIndex h) again])"
        using p len k by (simp add: churn_step_def)
      have "keys_persisted {} (s\<lparr>files := fs_remove (remove_ok ?i) (blob_path h) (files s)\<rparr>)"
        using st(1) by (intro keys_persisted_files) simp_all
      then show ?thesis
        unfolding step using p st(2,3) h by (intro upd) (simp_all add: finite_remove)
    next
      case (PurgeIndex h')
      with Churning pc have p: "pcs ! k = Churning (PurgeIndex h) again" "h \<in> denied s" "2 \<le> left k" by simp_all
      have step: "churn_step ?i (s, pcs) k = (s, pcs[k := if again then Allowing h else Churned])"
        using p len k st(3) by (simp add: churn_step_def)
      show ?thesis
        unfolding step using p st h by (intro upd) auto
    qed
  next
    case (Allowing h')
    with pc have p: "pcs ! k = Allowing h" "h \<in> denied s" again "1 \<le> left k" by simp_all
    let ?d = "replaced ''denylist.txt.tmp'' denylist_path (str_bytes (denylist_body (set_order ?i (denied s - {h})))) (files s)"
    have step: "churn_step ?i (s, pcs) k = (s\<lparr>files := ?d, denied := denied s - {h}\<rparr>, pcs[k := Churned])"
      using p len k hh by (simp add: churn_step_def store_allow_def written Let_def)
    show ?thesis
      unfolding step using p set_ok [OF S(3,4)] st(2,3) h by (intro upd) (simp_all add: finite_replaced)
  next
    case Churned
    then have step: "churn_step ?i (s, pcs) k = (s, pcs[k := Churned])"
      using len k list_update_id [of pcs k] by (simp add: churn_step_def)
    show ?thesis
      unfolding step using Churned pc st h by (intro upd) simp_all
  qed (use pc in simp)
qed

lemma churn_run:
  assumes t: "bench_ok t" and d: "distinct (map fst tasks)" and hex: "list_all (\<lambda>(h, again). lower_hex64 h) tasks"
  shows "churn_ok tasks left x \<Longrightarrow> churn_ok tasks (\<lambda>k. left k - count_list ks k) (foldl (churn_step (t_io t)) x ks)"
proof (induction ks arbitrary: x left)
  case (Cons j ks)
  obtain s pcs where x: "x = (s, pcs)" by fastforce
  let ?left = "if j < length tasks then left(j := left j - 1) else left"
  have "churn_ok tasks ?left (churn_step (t_io t) x j)"
  proof (cases "j < length tasks")
    case True
    with churn_step_ok [OF t d hex] Cons.prems x show ?thesis by simp
  next
    case False
    then have "churn_step (t_io t) x j = x" using Cons.prems x by (simp add: churn_step_def churn_ok_def)
    with False Cons.prems show ?thesis by simp
  qed
  from Cons.IH [OF this] show ?case
    unfolding churn_ok_def by (auto split: prod.splits if_splits)
qed simp

lemma store_test_5:
  assumes t: "bench_ok t" and d: "distinct (map fst tasks)" and hex: "list_all (\<lambda>(h, again). lower_hex64 h) tasks"
    and sched: "\<And>k. k < length tasks \<Longrightarrow> 4 \<le> count_list schedule k"
  shows "concurrent_deny_allow_never_loses_a_takedown t tasks schedule"
proof -
  let ?x = "(empty_store, map (\<lambda>(h, again). Churning (DenySet h) again) tasks)"
  obtain s pcs where run: "foldl (churn_step (t_io t)) ?x schedule = (s, pcs)" by fastforce
  have "keys_persisted {} empty_store" using empty_store_ok by (simp add: store_ok_def keys_persisted_empty)
  then have "churn_ok tasks (\<lambda>k. 4) ?x"
    by (auto simp: churn_ok_def empty_store_def split: prod.split)
  from churn_run [OF t d hex this, of schedule] run
  have ok: "keys_persisted {} s" "finite (dom (files s))" "index s = Map.empty" "length pcs = length tasks"
    and pc: "\<And>k. k < length tasks \<Longrightarrow> churn_pc_ok s (tasks ! k) (pcs ! k) \<and> churn_rank (pcs ! k) \<le> 4 - count_list schedule k"
    by (auto simp: churn_ok_def)
  have ended: "pcs ! k = Churned" if "k < length tasks" for k
  proof -
    obtain h again where h: "tasks ! k = (h, again)" by fastforce
    have "churn_rank (pcs ! k) = 0" using pc [OF that] sched [OF that] by simp
    with pc [OF that] h show ?thesis by (cases "pcs ! k" rule: churn_rank.cases) simp_all
  qed
  have den: "store_is_denied s h = (\<not> again)" if mem: "(h, again) \<in> set tasks" for h again
  proof -
    obtain k where k: "k < length tasks" "tasks ! k = (h, again)" using mem by (auto simp: in_set_conv_nth)
    have "lower_hex64 h" using hex mem by (auto simp: list_all_iff)
    with pc [OF k(1)] ended [OF k(1)] k(2) show ?thesis by (simp add: store_is_denied_def norm_lower_hex64)
  qed
  have "store_ok s" using ok(1,3) by (simp add: store_ok_def keys_persisted_empty deny_ok_def disk_ok_def)
  then have "opened t (files s) (\<lambda>s2. list_all (\<lambda>(h, again).
      store_is_denied s h = (\<not> again) \<and> store_is_denied s2 h = (\<not> again)) tasks)"
    using den by (intro opened_again [OF t _ ok(2)]) (auto simp: list_all_iff store_is_denied_def)
  moreover have "list_all (\<lambda>pc. pc = Churned) pcs" using ended ok(4) by (simp add: list_all_length)
  ultimately show ?thesis
    by (simp add: concurrent_deny_allow_never_loses_a_takedown_def opened_empty [OF t] run)
qed

text \<open>
  C16: no takedown is lost to the denylist race. When any number of tasks, one per hash, deny their hash and some of
  them then allow it again, in whatever order their lock regions and file calls interleave, every task comes to its
  end after at most four steps of its own, none panics, and then exactly the hashes that were not allowed again
  are denied, in memory and in the file a restart reads.
\<close>

theorem no_takedown_lost:
  assumes "bench_ok t" and "distinct (map fst tasks)" and "list_all (\<lambda>(h, again). lower_hex64 h) tasks"
    and "\<And>k. k < length tasks \<Longrightarrow> 4 \<le> count_list schedule k"
  shows "concurrent_deny_allow_never_loses_a_takedown t tasks schedule"
  using assms by (rule store_test_5)

theorem no_takedown_lost_witness:
  "concurrent_deny_allow_never_loses_a_takedown demo_bench [(demo_hash, True), (sha256_hex demo_crypto [7], False)]
     [0, 1, 1, 0, 0, 1, 0, 1]"
proof (rule no_takedown_lost [OF demo_bench_ok])
  have "last (sha256_hex demo_crypto [7]) = hex_digit 1" by (simp add: demo_sha_ends)
  moreover have "last demo_hash = CHR ''a''" by (simp add: demo_hash_def)
  moreover have "hex_digit 1 \<noteq> CHR ''a''" by code_simp
  ultimately have "demo_hash \<noteq> sha256_hex demo_crypto [7]" by auto
  then show "distinct (map fst [(demo_hash, True), (sha256_hex demo_crypto [7], False)])" by simp
  show "list_all (\<lambda>(h, again). lower_hex64 h) [(demo_hash, True), (sha256_hex demo_crypto [7], False)]"
    using demo_crypto_ok by (simp add: sha256_hex_lower_hex64)
  show "4 \<le> count_list [0, 1, 1, 0, 0, 1, 0, 1 :: nat] k" if "k < length [(demo_hash, True), (sha256_hex demo_crypto [7], False)]" for k
    using that by (cases k) simp_all
qed

section \<open>The unit tests\<close>

text \<open>The 64 hashes of the concurrent test, and whether the task of each allows it again.\<close>

definition race_tasks :: "crypto \<Rightarrow> (string \<times> bool) list" where
  "race_tasks c = map (\<lambda>i. (sha256_hex c (str_bytes (''h'' @ dec_str i)), even i)) [0..<64]"

text \<open>What the tests hash.\<close>

definition test_inputs :: "bytes set" where
  "test_inputs =
     str_bytes ` {''one'', ''two'', ''three'', ''12345'', ''678901'', ''TAMPERED'', ''{'' @ [CHR 0x22] @ ''v'' @ [CHR 0x22] @ '':1}''} \<union>
     (\<lambda>i. str_bytes (''h'' @ dec_str i)) ` {..<64}"

lemma race_distinct:
  assumes "inj_on (sha256_hex c) test_inputs"
  shows "distinct (map fst (race_tasks c))"
proof -
  have "i = j" if "sha256_hex c (str_bytes (''h'' @ dec_str i)) = sha256_hex c (str_bytes (''h'' @ dec_str j))" "i < 64" "j < 64" for i j
  proof -
    have "str_bytes (''h'' @ dec_str i) = str_bytes (''h'' @ dec_str j)"
      using assms that unfolding inj_on_def test_inputs_def by blast
    then have "dec_str i = dec_str j" by (metis bytes_str_str_bytes same_append_eq)
    then show "i = j" using dec_str_digits by metis
  qed
  then show ?thesis unfolding race_tasks_def by (auto simp: distinct_map o_def inj_on_def)
qed

text \<open>
  C34: nine of the ten unit tests of the repository hold of the model, assertion by assertion, for every digest that tells
  the tests' inputs apart, every directory listing and every order of hash iteration, when no file call fails: the four
  sequential tests of the store, the concurrent one under every schedule that lets its 64 tasks finish, the candidate
  list, the sixteen internal and five public URLs of the address guard, the gateway templates, and the gate on what
  peers send. The tenth, \<open>sha256_known_vector\<close>, is about the digest itself, which is a parameter.
\<close>

theorem unit_tests_hold:
  assumes "bench_ok t" and "inj_on (sha256_hex (t_crypto t)) test_inputs"
    and "parses up (ssrf_bad @ ssrf_good @ other_urls)" and "\<And>k. k < 64 \<Longrightarrow> 4 \<le> count_list schedule k"
  shows "put_get_has_roundtrip_and_reopen t \<and> denylist_blocks_store_purges_and_survives_reopen t \<and>
    allow_rewrite_preserves_other_denied_and_survives_reopen t \<and> size_cap_refuses_new_content_when_full t \<and>
    concurrent_deny_allow_never_loses_a_takedown t (race_tasks (t_crypto t)) schedule \<and>
    candidate_urls_origin_first_then_opt_in_http_uri up \<and> ssrf_guard_blocks_internal_uri_hints up \<and>
    expand_substitutes_bare_hex_into_the_template up \<and> accept_get_is_the_anti_poisoning_gate (t_crypto t)"
proof -
  have c: "crypto_ok (t_crypto t)" using assms(1) by (simp add: bench_ok_def)
  have up: "parses up ssrf_bad" "parses up ssrf_good" "parses up other_urls"
    using assms(3) by (auto simp: parses_def)
  have "inj_on (sha256_hex (t_crypto t)) {str_bytes ''one'', str_bytes ''two'', str_bytes ''three''}"
    using assms(2) by (rule inj_on_subset) (simp add: test_inputs_def)
  moreover have "str_bytes ''12345'' \<noteq> str_bytes ''678901''"
    "str_bytes ''TAMPERED'' \<noteq> str_bytes (''{'' @ [CHR 0x22] @ ''v'' @ [CHR 0x22] @ '':1}'')"
    by (simp_all add: str_bytes_def)
  then have "sha256_hex (t_crypto t) (str_bytes ''12345'') \<noteq> sha256_hex (t_crypto t) (str_bytes ''678901'')"
    "sha256_hex (t_crypto t) (str_bytes ''TAMPERED'')
      \<noteq> sha256_hex (t_crypto t) (str_bytes (''{'' @ [CHR 0x22] @ ''v'' @ [CHR 0x22] @ '':1}''))"
    by (simp_all only: inj_on_eq_iff [OF assms(2)] test_inputs_def image_insert insert_iff Un_iff simp_thms)
  moreover have "list_all (\<lambda>(h, again). lower_hex64 h) (race_tasks (t_crypto t))" "length (race_tasks (t_crypto t)) = 64"
    using c by (simp_all add: race_tasks_def list_all_iff sha256_hex_lower_hex64)
  then have "concurrent_deny_allow_never_loses_a_takedown t (race_tasks (t_crypto t)) schedule"
    using assms(4) by (intro store_test_5 [OF assms(1) race_distinct [OF assms(2)]]) simp_all
  ultimately show ?thesis
    using assms(1) c up store_test_1 store_test_2 store_test_3 store_test_4 guard_test_1 guard_test_2 template_test gate_test
    by blast
qed

text \<open>A digest that tells contents of up to 31 bytes apart.\<close>

definition pad_crypto :: crypto where
  "pad_crypto = demo_crypto\<lparr>sha256 := (\<lambda>b. of_nat (length b) # take 31 (b @ replicate 31 0))\<rparr>"

lemma pad_crypto_ok: "crypto_ok pad_crypto"
proof -
  have "length (of_nat (length b) # take 31 (b @ replicate 31 0) :: bytes) = 32" for b by simp
  then show ?thesis using demo_crypto_ok by (simp add: crypto_ok_def pad_crypto_def)
qed

lemma hex_digit_eq:
  fixes v w :: u8
  assumes "hex_digit v = hex_digit w" and "unat v < 16" and "unat w < 16"
  shows "v = w"
proof -
  have code: "of_char (hex_digit x) = (if unat x < 10 then 48 + unat x else 87 + unat x)" if "unat x < 16" for x
    using that by (simp add: hex_digit_def)
  have "unat v = unat w" using code [OF assms(2)] code [OF assms(3)] assms by (simp split: if_splits)
  then show ?thesis by (simp add: unsigned_word_eqI)
qed

lemma byte_digits:
  assumes "hex_digit (v div 16) = hex_digit (w div 16)" and "hex_digit (v mod 16) = hex_digit (w mod 16)"
  shows "v = (w :: u8)"
proof -
  have small: "unat (x div 16) < 16" "unat (x mod 16) < 16" for x :: u8
  proof -
    have "unat x < 2 ^ LENGTH(8)" by (rule unsigned_less)
    then show "unat (x div 16) < 16" "unat (x mod 16) < 16" by (simp_all add: unat_div_distrib unat_mod_distrib)
  qed
  have "v div 16 = w div 16" "v mod 16 = w mod 16" using assms small by (blast intro: hex_digit_eq)+
  then show ?thesis by (metis div_mult_mod_eq)
qed

lemma pad_hex_inj: "hex_encode pad_crypto b = hex_encode pad_crypto b' \<Longrightarrow> b = b'"
proof (induction b arbitrary: b')
  case Nil
  then show ?case by (cases b') (simp_all add: pad_crypto_def demo_crypto_def)
next
  case (Cons x b)
  then show ?case by (cases b') (auto simp: pad_crypto_def demo_crypto_def intro: byte_digits)
qed

lemma pad_inj:
  assumes "sha256_hex pad_crypto b = sha256_hex pad_crypto b'" and "length b \<le> 31" and "length b' \<le> 31"
  shows "b = b'"
proof -
  have d: "sha256 pad_crypto b = sha256 pad_crypto b'" using assms(1) pad_hex_inj by (simp add: sha256_hex_def)
  then have "(of_nat (length b) :: u8) = of_nat (length b')" by (simp add: pad_crypto_def)
  then have "length b = length b'" using assms(2,3) by (simp add: word_of_nat_eq_iff take_bit_nat_eq_self)
  moreover have "take 31 (b @ replicate 31 0) = take 31 (b' @ replicate 31 0)" using d by (simp add: pad_crypto_def)
  ultimately show ?thesis using assms(2,3) by (metis append_eq_append_conv take_all take_append)
qed

lemma pad_inputs: "inj_on (sha256_hex pad_crypto) test_inputs"
proof -
  have short: "length (dec_str i) \<le> 2" if "i < 64" for i
    using that by (subst dec_str.simps) (auto simp: dec_str.simps [of "i div 10"])
  have "length b \<le> 31" if "b \<in> test_inputs" for b
    using that short by (force simp: test_inputs_def)
  then show ?thesis using pad_inj by (auto intro!: inj_onI)
qed

lemma count_list_distinct: "distinct xs \<Longrightarrow> x \<in> set xs \<Longrightarrow> count_list xs x = 1"
  by (induction xs) auto

theorem unit_tests_hold_witness:
  "size_cap_refuses_new_content_when_full (demo_bench\<lparr>t_crypto := pad_crypto\<rparr>) \<and> ssrf_guard_blocks_internal_uri_hints vector_parse \<and>
   concurrent_deny_allow_never_loses_a_takedown (demo_bench\<lparr>t_crypto := pad_crypto\<rparr>) (race_tasks pad_crypto)
     ([0..<64] @ [0..<64] @ [0..<64] @ [0..<64])"
proof -
  let ?t = "demo_bench\<lparr>t_crypto := pad_crypto\<rparr>"
  have t: "bench_ok ?t" "t_crypto ?t = pad_crypto"
    using demo_bench_ok pad_crypto_ok by (simp_all add: bench_ok_def)
  have "4 \<le> count_list ([0..<64] @ [0..<64] @ [0..<64] @ [0..<64]) k" if "k < 64" for k
  proof -
    have one: "count_list [0..<64] k = 1"
      using that by (intro count_list_distinct) simp_all
    have "count_list (xs @ ys) k = count_list xs k + count_list ys k" for xs ys by (induction xs) simp_all
    then show ?thesis by (simp only: one)
  qed
  from unit_tests_hold [OF t(1) _ vectors_parse this] pad_inputs show ?thesis unfolding t(2) by blast
qed

end
