(* ===== verification/P2p_Net.thy ===== *)
theory P2p_Net
  imports P2p_Inv P2p_Codec Store_Tasks
begin

text \<open>
  Many nodes on one network (tests/p2p.rs, and what src/p2p.rs is for): every peer that runs this program is one
  event loop of \<open>P2p_Loop\<close>, and what it sends travels to the others through its codec and that of the receiver, with
  the receiver's ceiling on what it reads. Of libp2p this uses what it documents: a request reaches the peer it was sent
  to or fails; what is answered on its channel comes back to the sender under the number of the request; a message that
  the codec of either side rejects, like one without an answer in time, is an \<open>OutboundFailure\<close> at the sender; gossipsub
  refuses to publish messages above its size limit, and a gossip message carries the peer that signed it. Messages
  are delivered in any order; gossip any number of times. Peers that are not nodes may send any request, answer anything
  or nothing, and gossip anything; a node may vanish.
\<close>

section \<open>State\<close>

text \<open>The nodes' configurations, the codecs, and the length of the longest body that gossipsub publishes.\<close>

record net_cfg =
  node_conf :: "string \<Rightarrow> p2p_cfg"
  rq_codec :: "req codec"
  rs_codec :: "resp codec"
  gossip_max :: nat

text \<open>
  \<open>w_sent\<close> is history: whom each node sent its request of a number, and what. \<open>w_requests\<close>, \<open>w_responses\<close> and
  \<open>w_gossip\<close> are in flight (gossip stays), \<open>w_channels\<close> is the request each response channel belongs to, unless a
  rogue peer opened it. Channels are numbered by \<open>w_fresh\<close>.
\<close>

record network =
  w_nodes :: "string \<rightharpoonup> p2p_state"
  w_sent :: "string \<times> nat \<rightharpoonup> string \<times> req"
  w_requests :: "(string \<times> nat) list"
  w_channels :: "nat \<rightharpoonup> string \<times> nat"
  w_fresh :: nat
  w_responses :: "((string \<times> nat) \<times> resp) list"
  w_gossip :: "(string \<times> bytes) list"

text \<open>Nodes start with an empty network, each on a store of its own.\<close>

definition net_start :: "(string \<rightharpoonup> store) \<Rightarrow> network" where
  "net_start stores =
     \<lparr>w_nodes = (\<lambda>p. map_option (\<lambda>st. p2p_start st None) (stores p)), w_sent = Map.empty, w_requests = [],
      w_channels = Map.empty, w_fresh = 0, w_responses = [], w_gossip = []\<rparr>"

text \<open>
  \<open>Inside\<close>: an event of a node that is not the arrival of a message. \<open>Arrive\<close> and \<open>Answer\<close> take the request or
  response of an index, \<open>Hear\<close> a gossip message. \<open>Fail\<close>: a request fails at its sender; a late answer may still
  come, and finds nobody waiting.
\<close>

datatype net_event =
    Inside string p2p_env p2p_event | Arrive p2p_env nat | Answer p2p_env nat | Fail p2p_env string nat
  | Hear p2p_env string nat | Vanish string
  | RogueRequest p2p_env string req | RogueAnswer p2p_env string nat resp | RogueGossip p2p_env string "string option" bytes

fun inside :: "p2p_event \<Rightarrow> bool" where
  "inside (Request r channel) = False"
| "inside (Response rid r) = False"
| "inside (OutboundFailure rid) = False"
| "inside (Gossip source data) = False"
| "inside CmdClosed = False"
| "inside ev = True"

section \<open>Steps\<close>

fun post :: "net_cfg \<Rightarrow> string \<Rightarrow> p2p_out \<Rightarrow> network \<Rightarrow> network" where
  "post conf p (SendRequest q rid r) w =
     w\<lparr>w_sent := (w_sent w)((p, rid) \<mapsto> (q, r)), w_requests := w_requests w @ [(p, rid)]\<rparr>"
| "post conf p (SendResponse channel r) w =
     (case w_channels w channel of
        Some x \<Rightarrow> w\<lparr>w_responses := w_responses w @ [(x, r)]\<rparr>
      | None \<Rightarrow> w)"
| "post conf p (Publish data) w =
     (if length data \<le> gossip_max conf then w\<lparr>w_gossip := w_gossip w @ [(p, data)]\<rparr> else w)"
| "post conf p out w = w"

definition enter :: "net_cfg \<Rightarrow> string \<Rightarrow> p2p_env \<times> p2p_event \<Rightarrow> network \<Rightarrow> network \<times> (string \<times> p2p_out) list" where
  "enter conf p e w =
     (case w_nodes w p of
        None \<Rightarrow> (w, [])
      | Some s \<Rightarrow>
          (let (s', outs) = p2p_step (node_conf conf p) s e
           in (fold (post conf p) outs (w\<lparr>w_nodes := (w_nodes w)(p \<mapsto> s')\<rparr>), map (Pair p) outs)))"

definition open_channel :: "(string \<times> nat) option \<Rightarrow> network \<Rightarrow> network" where
  "open_channel x w = w\<lparr>w_channels := (w_channels w)(w_fresh w := x), w_fresh := w_fresh w + 1\<rparr>"

fun net_step :: "net_cfg \<Rightarrow> network \<Rightarrow> net_event \<Rightarrow> network \<times> (string \<times> p2p_out) list" where
  "net_step conf w (Inside p e ev) = enter conf p (e, ev) w"
| "net_step conf w (Arrive e k) =
     (if k < length (w_requests w) then
        (case w_sent w (w_requests w ! k) of
           Some (q, r) \<Rightarrow>
             if q \<in> dom (w_nodes w)
             then (let w' = w\<lparr>w_requests := drop_nth k (w_requests w)\<rparr>
                   in case carry_request (rq_codec conf) r of
                        Some r' \<Rightarrow> enter conf q (e, Request r' (w_fresh w)) (open_channel (Some (w_requests w ! k)) w')
                      | None \<Rightarrow> enter conf (fst (w_requests w ! k)) (e, OutboundFailure (snd (w_requests w ! k))) w')
             else (w, [])
         | None \<Rightarrow> (w, []))
      else (w, []))"
| "net_step conf w (Answer e k) =
     (if k < length (w_responses w) then
        (case w_responses w ! k of
           ((p, rid), r) \<Rightarrow>
             enter conf p
               (e, case carry_response (rs_codec conf) (cfg_max_bytes (node_conf conf p)) r of
                     Some r' \<Rightarrow> Response rid r' | None \<Rightarrow> OutboundFailure rid)
               (w\<lparr>w_responses := drop_nth k (w_responses w)\<rparr>))
      else (w, []))"
| "net_step conf w (Fail e p rid) = enter conf p (e, OutboundFailure rid) w"
| "net_step conf w (Hear e q k) =
     (if k < length (w_gossip w) \<and> fst (w_gossip w ! k) \<noteq> q
      then enter conf q (e, Gossip (Some (fst (w_gossip w ! k))) (snd (w_gossip w ! k))) w
      else (w, []))"
| "net_step conf w (Vanish q) = (w\<lparr>w_nodes := (w_nodes w)(q := None)\<rparr>, [])"
| "net_step conf w (RogueRequest e q r) = enter conf q (e, Request r (w_fresh w)) (open_channel None w)"
| "net_step conf w (RogueAnswer e p rid r) =
     (case w_sent w (p, rid) of
        Some (q, _) \<Rightarrow> if q \<in> dom (w_nodes w) then (w, []) else enter conf p (e, Response rid r) w
      | None \<Rightarrow> (w, []))"
| "net_step conf w (RogueGossip e q source data) =
     (if (case source of Some p \<Rightarrow> p \<in> dom (w_nodes w) | None \<Rightarrow> False) then (w, [])
      else enter conf q (e, Gossip source data) w)"

fun net_run :: "net_cfg \<Rightarrow> network \<Rightarrow> net_event list \<Rightarrow> network \<times> (string \<times> p2p_out) list" where
  "net_run conf w [] = (w, [])"
| "net_run conf w (e # es) =
     (let (w1, o1) = net_step conf w e; (w2, o2) = net_run conf w1 es in (w2, o1 @ o2))"

text \<open>The codecs are those of cbor: they invert each other and reject what was cut off.\<close>

definition codecs_ok :: "net_cfg \<Rightarrow> bool" where
  "codecs_ok conf \<longleftrightarrow> codec_ok (rq_codec conf) \<and> codec_ok (rs_codec conf)"

text \<open>
  As for one loop: iterations over hash tables list what they hold, and the other tasks of a node put only
  verified bytes (\<open>c\<close> is the digest that all nodes use).
\<close>

fun net_legal :: "crypto \<Rightarrow> net_event \<Rightarrow> bool" where
  "net_legal c (Inside p e ev) = (inside ev \<and> p2p_legal (e, ev) \<and> serve_legal c {} (e, ev))"
| "net_legal c (Arrive e k) = p2p_legal (e, OtherEvent)"
| "net_legal c (Answer e k) = p2p_legal (e, OtherEvent)"
| "net_legal c (Fail e p rid) = p2p_legal (e, OtherEvent)"
| "net_legal c (Hear e q k) = p2p_legal (e, OtherEvent)"
| "net_legal c (Vanish q) = True"
| "net_legal c (RogueRequest e q r) = p2p_legal (e, OtherEvent)"
| "net_legal c (RogueAnswer e p rid r) = p2p_legal (e, OtherEvent)"
| "net_legal c (RogueGossip e q source data) = p2p_legal (e, OtherEvent)"

end
