(* ===== verification/P2p_Net_Inv.thy ===== *)
theory P2p_Net_Inv
  imports P2p_Net
begin

text \<open>
  What every step of the network keeps: each node's own invariant, and where each outstanding request is: on its way
  to the peer, in service there, answered and on its way back, or sent to a peer that is gone. What an honest node
  answers hashes to what it was asked for.
\<close>

section \<open>One step of a node\<close>

lemma publish_one: "length (publish_held e s) \<le> Suc 0"
  by (simp add: publish_held_def Let_def)

lemma p2p_step_one: "length (snd (p2p_step cfg s e)) \<le> 1"
proof (cases "(cfg, s, e)" rule: p2p_handle.cases)
  case (10 cfg' s' e' r channel)
  then show ?thesis by (cases r) (simp_all add: p2p_step_def Let_def)
qed (auto simp: p2p_step_def on_want_def on_serve_done_def on_listen_def on_connected_def on_response_def on_failure_def
    publish_one Let_def split: option.split list.split)

lemma publish_no_request: "SendRequest q rid r \<notin> set (publish_held e s)"
  by (simp add: publish_held_def Let_def)

text \<open>A new outstanding request is the one just sent, under the next number; an answered one is gone.\<close>

lemma p2p_step_pending:
  assumes "p2p_inv s" and "running s" and "p2p_step cfg s (e, ev) = (s', outs)"
  shows "pending s' rid = Some (h, reply) \<Longrightarrow> pending s rid \<noteq> Some (h, reply) \<Longrightarrow>
      lower_hex64 h \<and> (\<exists>q. SendRequest q rid (ReqGet (''0x'' @ h)) \<in> set outs)"
    and "ev = Response rid r \<or> ev = OutboundFailure rid \<Longrightarrow> pending s' rid = None"
    and "SendRequest q rid rq \<in> set outs \<Longrightarrow> rid = next_rid s \<and> next_rid s' = Suc rid"
    and "next_rid s \<le> next_rid s'"
    and "ev \<noteq> CmdClosed \<Longrightarrow> running s'"
proof -
  have hex: "lower_hex64 k" if "providers s k = Some S" for k S
    using assms(1) that by (auto simp: p2p_inv_def table_ok_def)
  have all: "(\<forall>h reply. pending s' rid = Some (h, reply) \<longrightarrow> pending s rid \<noteq> Some (h, reply) \<longrightarrow>
        lower_hex64 h \<and> (\<exists>q. SendRequest q rid (ReqGet (''0x'' @ h)) \<in> set outs)) \<and>
      (ev = Response rid r \<or> ev = OutboundFailure rid \<longrightarrow> pending s' rid = None) \<and>
      (\<forall>q rq. SendRequest q rid rq \<in> set outs \<longrightarrow> rid = next_rid s \<and> next_rid s' = Suc rid) \<and>
      next_rid s \<le> next_rid s' \<and> (ev \<noteq> CmdClosed \<longrightarrow> running s')" for rid r
  proof (cases "(cfg, s, e, ev)" rule: p2p_handle.cases)
    case (1 cfg' s'' e' hash reply)
    show ?thesis
    proof (cases "providers s (norm hash)")
      case None
      with 1 assms(2,3) show ?thesis by (auto simp: p2p_step_def on_want_def Let_def)
    next
      case (Some S)
      with 1 assms(2,3) hex [OF Some] show ?thesis
        by (cases "ev_order e S") (auto simp: p2p_step_def on_want_def Let_def split: if_splits)
    qed
  next
    case (10 cfg' s'' e' req channel)
    with assms(2,3) show ?thesis by (cases req) (auto simp: p2p_step_def Let_def split: if_splits)
  qed (use assms(2,3) in \<open>auto simp: p2p_step_def on_serve_done_def on_listen_def on_connected_def on_disconnected_def
       on_response_def on_failure_def on_serve_task_def serve_finish_def publish_no_request Let_def
       split: option.splits list.splits if_splits\<close>)
  show "pending s' rid = Some (h, reply) \<Longrightarrow> pending s rid \<noteq> Some (h, reply) \<Longrightarrow>
      lower_hex64 h \<and> (\<exists>q. SendRequest q rid (ReqGet (''0x'' @ h)) \<in> set outs)"
    and "ev = Response rid r \<or> ev = OutboundFailure rid \<Longrightarrow> pending s' rid = None"
    and "SendRequest q rid rq \<in> set outs \<Longrightarrow> rid = next_rid s \<and> next_rid s' = Suc rid"
    and "next_rid s \<le> next_rid s'"
    and "ev \<noteq> CmdClosed \<Longrightarrow> running s'"
    using all [of rid r] by blast+
qed

lemma responded_iff: "channel \<in># sum_of responded outs \<longleftrightarrow> (\<exists>r. SendResponse channel r \<in> set outs)"
proof (induction outs)
  case (Cons out outs)
  then show ?case by (cases out) auto
qed simp

lemma serves_ok_mono: "serves_ok c Q D s \<Longrightarrow> Q \<subseteq> Q' \<Longrightarrow> serves_ok c Q' D s"
  by (fastforce simp: serves_ok_def body_ok_def)

section \<open>The invariant\<close>

text \<open>What was asked on each open channel; a rogue peer may have asked anything.\<close>

definition asked_on :: "network \<Rightarrow> (nat \<times> string) set" where
  "asked_on w =
     {(channel, k). channel < w_fresh w \<and>
        (\<forall>x. w_channels w channel = Some x \<longrightarrow> (\<exists>q h. w_sent w x = Some (q, ReqGet h) \<and> k = norm (norm h)))}"

text \<open>Where an outstanding request can be.\<close>

definition located :: "network \<Rightarrow> string \<times> nat \<Rightarrow> bool" where
  "located w x \<longleftrightarrow>
     x \<in> set (w_requests w) \<or>
     (\<exists>q s channel. w_nodes w q = Some s \<and> channel \<in># in_service s \<and> w_channels w channel = Some x) \<or>
     (\<exists>r. (x, r) \<in> set (w_responses w)) \<or>
     (\<exists>q r. w_sent w x = Some (q, r) \<and> q \<notin> dom (w_nodes w))"

definition node_ok :: "crypto \<Rightarrow> network \<Rightarrow> string \<Rightarrow> p2p_state \<Rightarrow> bool" where
  "node_ok c w p s \<longleftrightarrow>
     p2p_inv s \<and> running s \<and> serves_ok c (asked_on w) {} s \<and>
     (\<forall>channel. channel \<in># in_service s \<longrightarrow> channel < w_fresh w \<and>
        (\<forall>x. w_channels w channel = Some x \<longrightarrow> (\<exists>r. w_sent w x = Some (p, r)))) \<and>
     (\<forall>rid. (p, rid) \<in> dom (w_sent w) \<longrightarrow> rid < next_rid s) \<and>
     (\<forall>rid h reply. pending s rid = Some (h, reply) \<longrightarrow>
        lower_hex64 h \<and> (\<exists>q. w_sent w (p, rid) = Some (q, ReqGet (''0x'' @ h))))"

definition honest_answer :: "crypto \<Rightarrow> network \<Rightarrow> (string \<times> nat) \<times> resp \<Rightarrow> bool" where
  "honest_answer c w a \<longleftrightarrow>
     (\<forall>b. snd a = RespGet (Some b) \<longrightarrow> (\<exists>q h. w_sent w (fst a) = Some (q, ReqGet h) \<and> sha256_hex c b = norm (norm h)))"

text \<open>\<open>X\<close> are outstanding requests that are being handed over.\<close>

definition net_ok :: "crypto \<Rightarrow> (string \<times> nat) set \<Rightarrow> network \<Rightarrow> bool" where
  "net_ok c X w \<longleftrightarrow>
     (\<forall>p s. w_nodes w p = Some s \<longrightarrow>
        node_ok c w p s \<and> (\<forall>rid \<in> dom (pending s). (p, rid) \<in> X \<or> located w (p, rid))) \<and>
     set (w_requests w) \<union> ran (w_channels w) \<subseteq> dom (w_sent w) \<and>
     list_all (honest_answer c w) (w_responses w) \<and> (\<forall>channel \<in> dom (w_channels w). channel < w_fresh w)"

text \<open>History only grows.\<close>

definition later :: "network \<Rightarrow> network \<Rightarrow> bool" where
  "later w w' \<longleftrightarrow>
     (\<forall>x y. w_sent w x = Some y \<longrightarrow> w_sent w' x = Some y) \<and> w_fresh w \<le> w_fresh w' \<and>
     (\<forall>channel < w_fresh w. w_channels w' channel = w_channels w channel)"

lemma asked_on_later: "later w w' \<Longrightarrow> asked_on w \<subseteq> asked_on w'"
  unfolding later_def asked_on_def by fastforce

lemma node_ok_later:
  assumes "node_ok c w p s" and "later w w'" and "\<And>rid. (p, rid) \<in> dom (w_sent w') \<Longrightarrow> rid < next_rid s"
  shows "node_ok c w' p s"
proof -
  have "serves_ok c (asked_on w') {} s"
    using assms(1) serves_ok_mono asked_on_later [OF assms(2)] by (auto simp: node_ok_def)
  moreover have "channel < w_fresh w' \<and> (\<forall>x. w_channels w' channel = Some x \<longrightarrow> (\<exists>r. w_sent w' x = Some (p, r)))"
    if "channel \<in># in_service s" for channel
    using assms(1,2) that unfolding node_ok_def later_def by (metis order.strict_trans2)
  moreover have "lower_hex64 h \<and> (\<exists>q. w_sent w' (p, rid) = Some (q, ReqGet (''0x'' @ h)))"
    if "pending s rid = Some (h, reply)" for rid h reply
    using assms(1,2) that unfolding node_ok_def later_def by blast
  ultimately show ?thesis using assms(1,3) by (auto simp: node_ok_def)
qed

lemma honest_later: "honest_answer c w a \<Longrightarrow> later w w' \<Longrightarrow> honest_answer c w' a"
  unfolding honest_answer_def later_def by blast


section \<open>A message reaches a node\<close>

lemma post_fields [simp]:
  "w_nodes (fold (post conf p) outs w) = w_nodes w" "w_channels (fold (post conf p) outs w) = w_channels w"
  "w_fresh (fold (post conf p) outs w) = w_fresh w"
proof -
  have "w_nodes (post conf p out w) = w_nodes w \<and> w_channels (post conf p out w) = w_channels w \<and> w_fresh (post conf p out w) = w_fresh w"
    for out w
    by (cases out) (auto split: option.split)
  then show "w_nodes (fold (post conf p) outs w) = w_nodes w" "w_channels (fold (post conf p) outs w) = w_channels w"
    "w_fresh (fold (post conf p) outs w) = w_fresh w"
    by (induction outs arbitrary: w) simp_all
qed

lemma post_one:
  assumes "length outs \<le> 1"
  shows "w_sent (fold (post conf p) outs w) x =
      (case outs of [SendRequest q rid r] \<Rightarrow> if x = (p, rid) then Some (q, r) else w_sent w x | _ \<Rightarrow> w_sent w x)"
    and "w_requests (fold (post conf p) outs w) = w_requests w @ (case outs of [SendRequest q rid r] \<Rightarrow> [(p, rid)] | _ \<Rightarrow> [])"
    and "w_responses (fold (post conf p) outs w) = w_responses w @
      (case outs of [SendResponse channel r] \<Rightarrow> (case w_channels w channel of Some x \<Rightarrow> [(x, r)] | None \<Rightarrow> []) | _ \<Rightarrow> [])"
proof -
  have "outs = [] \<or> (\<exists>out. outs = [out])" using assms by (cases outs) auto
  then show "w_sent (fold (post conf p) outs w) x =
      (case outs of [SendRequest q rid r] \<Rightarrow> if x = (p, rid) then Some (q, r) else w_sent w x | _ \<Rightarrow> w_sent w x)"
    and "w_requests (fold (post conf p) outs w) = w_requests w @ (case outs of [SendRequest q rid r] \<Rightarrow> [(p, rid)] | _ \<Rightarrow> [])"
    and "w_responses (fold (post conf p) outs w) = w_responses w @
      (case outs of [SendResponse channel r] \<Rightarrow> (case w_channels w channel of Some x \<Rightarrow> [(x, r)] | None \<Rightarrow> []) | _ \<Rightarrow> [])"
    by (auto split: p2p_out.split option.split)
qed

lemma post_sets:
  assumes "length outs \<le> 1"
  shows "SendRequest q rid r \<in> set outs \<Longrightarrow> w_sent (fold (post conf p) outs w) (p, rid) = Some (q, r)"
    and "(\<And>q r. SendRequest q (snd x) r \<in> set outs \<Longrightarrow> fst x \<noteq> p) \<Longrightarrow> w_sent (fold (post conf p) outs w) x = w_sent w x"
    and "set (w_requests (fold (post conf p) outs w)) = set (w_requests w) \<union> {(p, rid) | q rid r. SendRequest q rid r \<in> set outs}"
    and "set (w_responses (fold (post conf p) outs w)) = set (w_responses w) \<union>
      {(x, r) | channel r x. SendResponse channel r \<in> set outs \<and> w_channels w channel = Some x}"
  using assms unfolding post_one [OF assms]
  by (cases outs; cases x; auto split: p2p_out.splits option.splits list.splits)+

text \<open>
  An event enters a node: its own (\<open>X\<close> is empty), a request that was handed over to it, or an answer to one of its
  requests.
\<close>

definition handed :: "crypto \<Rightarrow> (string \<times> nat) set \<Rightarrow> network \<Rightarrow> string \<Rightarrow> p2p_state \<Rightarrow> p2p_env \<times> p2p_event \<Rightarrow> bool" where
  "handed c X w p s e \<longleftrightarrow>
     net_ok c X w \<and> w_nodes w p = Some s \<and> p2p_legal e \<and> serve_legal c {} e \<and> snd e \<noteq> CmdClosed \<and>
     (\<forall>r channel. snd e = Request r channel \<longrightarrow>
        channel < w_fresh w \<and> (\<forall>h. r = ReqGet h \<longrightarrow> (channel, norm (norm h)) \<in> asked_on w) \<and>
        (\<forall>x. w_channels w channel = Some x \<longrightarrow> (\<exists>r'. w_sent w x = Some (p, r')))) \<and>
     (\<forall>x \<in> X. (\<exists>r channel. snd e = Request r channel \<and> w_channels w channel = Some x) \<or>
        (fst x = p \<and> ((\<exists>r. snd e = Response (snd x) r) \<or> snd e = OutboundFailure (snd x))))"

definition entered :: "net_cfg \<Rightarrow> string \<Rightarrow> p2p_state \<Rightarrow> p2p_out list \<Rightarrow> network \<Rightarrow> network" where
  "entered conf p s' outs w = fold (post conf p) outs (w\<lparr>w_nodes := (w_nodes w)(p \<mapsto> s')\<rparr>)"

lemma enter_eq:
  "w_nodes w p = Some s \<Longrightarrow> p2p_step (node_conf conf p) s e = (s', outs) \<Longrightarrow> enter conf p e w = (entered conf p s' outs w, map (Pair p) outs)"
  by (simp add: enter_def entered_def)

lemma handed_node: "handed c X w p s e \<Longrightarrow> node_ok c w p s"
  by (auto simp: handed_def net_ok_def)

lemma step_one: "p2p_step cfg s e = (s', outs) \<Longrightarrow> length outs \<le> 1"
  using p2p_step_one [of cfg s e] by simp

lemma entered_fields [simp]:
  "w_nodes (entered conf p s' outs w) = (w_nodes w)(p \<mapsto> s')" "w_channels (entered conf p s' outs w) = w_channels w"
  "w_fresh (entered conf p s' outs w) = w_fresh w"
  by (simp_all add: entered_def)

lemma entered_sets:
  assumes "length outs \<le> 1"
  shows "SendRequest q rid r \<in> set outs \<Longrightarrow> w_sent (entered conf p s' outs w) (p, rid) = Some (q, r)"
    and "(\<And>q r. SendRequest q (snd x) r \<in> set outs \<Longrightarrow> fst x \<noteq> p) \<Longrightarrow> w_sent (entered conf p s' outs w) x = w_sent w x"
    and "set (w_requests (entered conf p s' outs w)) = set (w_requests w) \<union> {(p, rid) | q rid r. SendRequest q rid r \<in> set outs}"
    and "set (w_responses (entered conf p s' outs w)) = set (w_responses w) \<union>
      {(x, r) | channel r x. SendResponse channel r \<in> set outs \<and> w_channels w channel = Some x}"
  unfolding entered_def by (simp_all add: post_sets [OF assms])

text \<open>The request numbers are new, so the history grows.\<close>

lemma entered_sent:
  assumes h: "handed c X w p s e" and step: "p2p_step cfg s e = (s', outs)"
  shows "later w (entered conf p s' outs w)"
    and "(q, rid) \<in> dom (w_sent (entered conf p s' outs w)) \<Longrightarrow>
      (q, rid) \<in> dom (w_sent w) \<or> (q = p \<and> rid < next_rid s')"
    and "(p, rid) \<in> dom (w_sent w) \<Longrightarrow> rid < next_rid s'"
proof -
  note one = step_one [OF step]
  obtain e' ev where e: "e = (e', ev)" by fastforce
  note node = handed_node [OF h, unfolded node_ok_def]
  then have "p2p_inv s" "running s" by simp_all
  note pend = p2p_step_pending [OF this step [unfolded e]]
  have new: "(p, rid) \<notin> dom (w_sent w)" if "SendRequest q rid r \<in> set outs" for q rid r
  proof
    assume "(p, rid) \<in> dom (w_sent w)"
    then have "rid < next_rid s" using node by blast
    with pend(3) [OF that] show False by simp
  qed
  have same: "w_sent (entered conf p s' outs w) x = w_sent w x" if "x \<in> dom (w_sent w)" for x
    by (rule entered_sets(2) [OF one]) (use that new in \<open>cases x, auto\<close>)
  then show "later w (entered conf p s' outs w)" by (fastforce simp: later_def)
  show "rid < next_rid s'" if "(p, rid) \<in> dom (w_sent w)"
    using that node pend(4) by (meson order.strict_trans2)
  show "(q, rid) \<in> dom (w_sent w) \<or> (q = p \<and> rid < next_rid s')" if "(q, rid) \<in> dom (w_sent (entered conf p s' outs w))"
  proof (cases "\<exists>t r. SendRequest t rid r \<in> set outs \<and> q = p")
    case True
    then show ?thesis using pend(3) by fastforce
  next
    case False
    then have "w_sent (entered conf p s' outs w) (q, rid) = w_sent w (q, rid)"
      by (intro entered_sets(2) [OF one]) auto
    with that show ?thesis by (simp add: domIff)
  qed
qed

text \<open>The node the event enters.\<close>

lemma entered_node:
  assumes h: "handed c X w p s e" and step: "p2p_step cfg s e = (s', outs)"
  shows "node_ok c (entered conf p s' outs w) p s'"
    and "x \<in> set outs \<Longrightarrow> good_response c (asked_on w) {} x"
proof -
  obtain e' ev where e: "e = (e', ev)" by fastforce
  let ?w = "entered conf p s' outs w"
  note node = handed_node [OF h, unfolded node_ok_def]
  then have inv: "p2p_inv s" "running s" by simp_all
  note pend = p2p_step_pending [OF inv step [unfolded e]] and sent = entered_sent [OF h step]
  note ch = channels_step [OF inv(2), of e cfg, unfolded step fst_conv snd_conv]
  have legal: "p2p_legal e" "serve_legal c {} e" "ev \<noteq> CmdClosed" using h by (simp_all add: handed_def e)
  have "serves_ok c (asked_on w) {} (fst (p2p_step cfg s e)) \<and> (\<forall>x \<in> set (snd (p2p_step cfg s e)). good_response c (asked_on w) {} x)"
    using node h legal by (intro serve_step) (auto simp: handed_def e)
  then have serve: "serves_ok c (asked_on w) {} s'" "x \<in> set outs \<Longrightarrow> good_response c (asked_on w) {} x" for x
    by (simp_all add: step)
  show "x \<in> set outs \<Longrightarrow> good_response c (asked_on w) {} x" by (rule serve(2))
  have "channel < w_fresh ?w \<and> (\<forall>x. w_channels ?w channel = Some x \<longrightarrow> (\<exists>r. w_sent ?w x = Some (p, r)))"
    if "channel \<in># in_service s'" for channel
  proof -
    have "channel \<in># request_channel e + in_service s" unfolding ch using that by simp
    then consider "channel \<in># in_service s" | r where "ev = Request r channel" by (cases ev) (auto simp: e)
    then have "channel < w_fresh w \<and> (\<forall>x. w_channels w channel = Some x \<longrightarrow> (\<exists>r. w_sent w x = Some (p, r)))"
      using node h by cases (auto simp: handed_def e)
    then show ?thesis using sent(1) unfolding later_def entered_fields by blast
  qed
  moreover have "lower_hex64 k \<and> (\<exists>q. w_sent ?w (p, rid) = Some (q, ReqGet (''0x'' @ k)))"
    if k: "pending s' rid = Some (k, reply)" for rid k reply
  proof (cases "pending s rid = Some (k, reply)")
    case True
    then show ?thesis using node sent(1) unfolding later_def by blast
  next
    case False
    then show ?thesis using pend(1) [OF k] entered_sets(1) [OF step_one [OF step]] by blast
  qed
  moreover have "p2p_inv s'" using p2p_step_inv [OF inv(1) legal(1), of cfg] by (simp add: step)
  moreover have "serves_ok c (asked_on ?w) {} s'"
    using serve(1) asked_on_later [OF sent(1)] by (rule serves_ok_mono)
  moreover have "running s'" using pend(5) legal(3) by blast
  moreover have "rid < next_rid s'" if "(p, rid) \<in> dom (w_sent ?w)" for rid
    using sent(2) [OF that] sent(3) by blast
  ultimately show "node_ok c ?w p s'" unfolding node_ok_def by blast
qed

text \<open>Where a request is after the step.\<close>

lemma entered_located:
  assumes h: "handed c X w p s e" and step: "p2p_step cfg s e = (s', outs)" and x: "located w x"
  shows "located (entered conf p s' outs w) x"
proof -
  let ?w = "entered conf p s' outs w"
  note sets = entered_sets [OF step_one [OF step]] and sent = entered_sent(1) [OF h step]
  have p: "w_nodes w p = Some s" "running s" using h handed_node [OF h] by (simp_all add: handed_def node_ok_def)
  from x consider "x \<in> set (w_requests w)"
    | q t channel where "w_nodes w q = Some t" "channel \<in># in_service t" "w_channels w channel = Some x"
    | r where "(x, r) \<in> set (w_responses w)"
    | q r where "w_sent w x = Some (q, r)" "q \<notin> dom (w_nodes w)"
    unfolding located_def by blast
  then show ?thesis
  proof cases
    case 1
    then show ?thesis by (simp add: located_def sets(3))
  next
    case (2 q t channel)
    show ?thesis
    proof (cases "q = p \<and> channel \<notin># in_service s'")
      case True
      then have "channel \<in># request_channel e + in_service s" using 2 p by simp
      then have "channel \<in># sum_of responded outs"
        using True channels_step [OF p(2), of e cfg] step by simp
      then obtain r where "SendResponse channel r \<in> set outs" unfolding responded_iff by blast
      with 2(3) show ?thesis unfolding located_def sets(4) by blast
    next
      case False
      then have "\<exists>t. w_nodes ?w q = Some t \<and> channel \<in># in_service t" using 2 by auto
      with 2(3) show ?thesis unfolding located_def by fastforce
    qed
  next
    case (3 r)
    then show ?thesis unfolding located_def sets(4) by blast
  next
    case (4 q r)
    then have "w_sent ?w x = Some (q, r)" using sent unfolding later_def by blast
    moreover have "q \<notin> dom (w_nodes ?w)" using 4 p(1) by auto
    ultimately show ?thesis unfolding located_def by blast
  qed
qed

lemma entered_handed:
  assumes h: "handed c X w p s e" and step: "p2p_step cfg s e = (s', outs)" and x: "(q, rid) \<in> X"
    and t: "w_nodes (entered conf p s' outs w) q = Some t" "rid \<in> dom (pending t)"
  shows "located (entered conf p s' outs w) (q, rid)"
proof -
  obtain e' ev where e: "e = (e', ev)" by fastforce
  have s: "p2p_inv s" "running s" using handed_node [OF h] by (simp_all add: node_ok_def)
  have "(\<exists>r channel. ev = Request r channel \<and> w_channels w channel = Some (q, rid)) \<or>
      (q = p \<and> ((\<exists>r. ev = Response rid r) \<or> ev = OutboundFailure rid))"
    using h x unfolding handed_def e by fastforce
  then show ?thesis
  proof
    assume "\<exists>r channel. ev = Request r channel \<and> w_channels w channel = Some (q, rid)"
    then obtain r channel where ev: "ev = Request r channel" and ch: "w_channels w channel = Some (q, rid)" by blast
    have "channel \<in># request_channel e + in_service s" by (simp add: e ev)
    then have "channel \<in># sum_of responded outs + in_service s'"
      unfolding channels_step [OF s(2), of e cfg] step by simp
    then consider r' where "SendResponse channel r' \<in> set outs" | "channel \<in># in_service s'"
      by (auto simp: responded_iff)
    then show ?thesis
    proof cases
      case (1 r')
      with ch show ?thesis unfolding located_def entered_sets(4) [OF step_one [OF step]] by blast
    next
      case 2
      have "w_nodes (entered conf p s' outs w) p = Some s'" by simp
      with ch 2 show ?thesis unfolding located_def entered_fields(2) by blast
    qed
  next
    assume ev: "q = p \<and> ((\<exists>r. ev = Response rid r) \<or> ev = OutboundFailure rid)"
    then have "pending s' rid = None" using p2p_step_pending(2) [OF s step [unfolded e]] by blast
    with ev t show ?thesis by auto
  qed
qed

lemma entered_ok:
  assumes h: "handed c X w p s e" and step: "p2p_step cfg s e = (s', outs)"
  shows "net_ok c {} (entered conf p s' outs w)"
proof -
  let ?w = "entered conf p s' outs w"
  obtain e' ev where e: "e = (e', ev)" by fastforce
  have w: "net_ok c X w" and p: "w_nodes w p = Some s" using h by (simp_all add: handed_def)
  note sets = entered_sets [OF step_one [OF step]] and sent = entered_sent [OF h step] and node = entered_node [OF h step]
  have s: "p2p_inv s" "running s" using handed_node [OF h] by (simp_all add: node_ok_def)
  have loc: "located ?w (q, rid)" if t: "w_nodes ?w q = Some t" "rid \<in> dom (pending t)" for q t rid
  proof -
    consider k reply where "q = p" "pending t rid = Some (k, reply)" "pending s rid \<noteq> Some (k, reply)"
      | u where "w_nodes w q = Some u" "rid \<in> dom (pending u)"
    proof (cases "q = p")
      case True
      obtain k reply where "pending t rid = Some (k, reply)" using t(2) by auto
      then show ?thesis using that p True by (cases "pending s rid = Some (k, reply)") auto
    qed (use that t in auto)
    then show ?thesis
    proof cases
      case (1 k reply)
      then have "\<exists>r. SendRequest r rid (ReqGet (''0x'' @ k)) \<in> set outs"
        using p2p_step_pending(1) [OF s step [unfolded e]] t by auto
      then have "(p, rid) \<in> set (w_requests ?w)" unfolding sets(3) by blast
      with 1 show ?thesis by (simp add: located_def)
    next
      case (2 u)
      then have "(q, rid) \<in> X \<or> located w (q, rid)" using w by (auto simp: net_ok_def)
      then show ?thesis using entered_located [OF h step] entered_handed [OF h step _ t] by blast
    qed
  qed
  have nodes: "node_ok c ?w q t" if "w_nodes ?w q = Some t" for q t
  proof (cases "q = p")
    case False
    then have t: "node_ok c w q t" using that w by (simp add: net_ok_def)
    have "rid < next_rid t" if "(q, rid) \<in> dom (w_sent ?w)" for rid
      using sent(2) [OF that] False t unfolding node_ok_def by blast
    then show ?thesis using node_ok_later [OF t sent(1)] by blast
  qed (use that node in simp)
  have "set (w_requests ?w) \<union> ran (w_channels ?w) \<subseteq> dom (w_sent ?w)"
  proof -
    have "dom (w_sent w) \<subseteq> dom (w_sent ?w)" using sent(1) by (auto simp: later_def)
    moreover have "set (w_requests ?w) \<subseteq> set (w_requests w) \<union> dom (w_sent ?w)"
      unfolding sets(3) using sets(1) by auto
    moreover have "set (w_requests w) \<union> ran (w_channels w) \<subseteq> dom (w_sent w)" using w unfolding net_ok_def by blast
    ultimately show ?thesis unfolding entered_fields by blast
  qed
  moreover have "honest_answer c ?w a" if a: "a \<in> set (w_responses ?w)" for a
  proof -
    have "honest_answer c w a"
    proof (cases "a \<in> set (w_responses w)")
      case False
      then obtain channel r x where r: "a = (x, r)" "SendResponse channel r \<in> set outs" "w_channels w channel = Some x"
        using a unfolding sets(4) by blast
      have "body_ok c (asked_on w) {} channel r" using node(2) [OF r(2)] by simp
      with r(1,3) show ?thesis by (cases x) (auto simp: honest_answer_def body_ok_def asked_on_def)
    qed (use w in \<open>simp add: net_ok_def list_all_iff\<close>)
    then show ?thesis using sent(1) by (rule honest_later)
  qed
  ultimately show ?thesis using w loc nodes by (simp add: net_ok_def list_all_iff)
qed

section \<open>Every step keeps the invariant\<close>

lemma net_ok_node: "net_ok c X w \<Longrightarrow> w_nodes w p = Some s \<Longrightarrow> node_ok c w p s"
  by (simp add: net_ok_def)

lemma enter_ok:
  assumes "net_ok c X w" and "\<And>s. w_nodes w p = Some s \<Longrightarrow> handed c X w p s e"
    and "w_nodes w p = None \<Longrightarrow> fst ` X \<subseteq> {p}"
  shows "net_ok c {} (fst (enter conf p e w))"
proof (cases "w_nodes w p")
  case None
  with assms(1,3) have "net_ok c {} w" by (fastforce simp: net_ok_def)
  with None show ?thesis by (simp add: enter_def)
next
  case (Some s)
  obtain s' outs where step: "p2p_step (node_conf conf p) s e = (s', outs)" by fastforce
  show ?thesis
    unfolding enter_eq [of w p s conf e s' outs, OF Some step] fst_conv using assms(2) [OF Some] step by (rule entered_ok)
qed

text \<open>What the network itself does with its messages.\<close>

lemma node_ok_open:
  assumes "net_ok c X w" and "node_ok c w p s"
  shows "node_ok c (open_channel x w) p s"
proof (rule node_ok_later [OF assms(2)])
  show "later w (open_channel x w)" by (simp add: later_def open_channel_def)
  show "(p, rid) \<in> dom (w_sent (open_channel x w)) \<Longrightarrow> rid < next_rid s" for rid
    using assms(2) unfolding node_ok_def by (simp add: open_channel_def)
qed

lemma located_open:
  assumes "net_ok c X w" and "located w y"
  shows "located (open_channel x w) y"
proof -
  have "channel \<noteq> w_fresh w" if "w_channels w channel = Some y" for channel
    using assms(1) that by (auto simp: net_ok_def)
  with assms(2) show ?thesis unfolding located_def open_channel_def by fastforce
qed

lemma open_channel_ok:
  assumes w: "net_ok c X w" and x: "\<And>y. x = Some y \<Longrightarrow> y \<in> dom (w_sent w)"
  shows "net_ok c X (open_channel x w)"
proof -
  let ?w = "open_channel x w"
  have nodes: "node_ok c ?w p s \<and> (\<forall>rid \<in> dom (pending s). (p, rid) \<in> X \<or> located ?w (p, rid))" if "w_nodes ?w p = Some s" for p s
  proof -
    have s: "w_nodes w p = Some s" using that by (simp add: open_channel_def)
    then have "\<forall>rid \<in> dom (pending s). (p, rid) \<in> X \<or> located w (p, rid)" using w by (simp add: net_ok_def)
    then show ?thesis using node_ok_open [OF w net_ok_node [OF w s]] located_open [OF w] by blast
  qed
  have "ran (w_channels ?w) \<subseteq> dom (w_sent ?w)"
    using w x by (auto simp: open_channel_def net_ok_def ran_def split: if_splits)
  moreover have "set (w_requests ?w) \<subseteq> dom (w_sent ?w)" using w by (simp add: open_channel_def net_ok_def)
  moreover have "honest_answer c ?w = honest_answer c w" by (intro ext) (simp add: honest_answer_def open_channel_def)
  then have "list_all (honest_answer c ?w) (w_responses ?w)" using w by (simp add: net_ok_def open_channel_def)
  moreover have "\<forall>channel \<in> dom (w_channels ?w). channel < w_fresh ?w"
    using w by (auto simp: open_channel_def net_ok_def less_Suc_eq split: if_splits)
  ultimately show ?thesis using nodes by (simp add: net_ok_def)
qed

lemma in_drop_nth: "x \<in> set xs \<Longrightarrow> k < length xs \<Longrightarrow> x \<noteq> xs ! k \<Longrightarrow> x \<in> set (drop_nth k xs)"
  unfolding drop_nth_def by (metis Un_iff id_take_nth_drop set_ConsD set_append)

lemma node_ok_messages [simp]:
  "node_ok c (w\<lparr>w_requests := R\<rparr>) = node_ok c w" "node_ok c (w\<lparr>w_responses := A\<rparr>) = node_ok c w"
  "node_ok c (w\<lparr>w_nodes := N\<rparr>) = node_ok c w"
  by (intro ext; simp add: node_ok_def asked_on_def)+

lemma honest_messages [simp]:
  "honest_answer c (w\<lparr>w_requests := R\<rparr>) = honest_answer c w" "honest_answer c (w\<lparr>w_responses := A\<rparr>) = honest_answer c w"
  "honest_answer c (w\<lparr>w_nodes := N\<rparr>) = honest_answer c w"
  by (intro ext; simp add: honest_answer_def)+

lemma net_ok_moved:
  assumes w: "net_ok c {} w" and same: "w_nodes w' = w_nodes w" "node_ok c w' = node_ok c w" "honest_answer c w' = honest_answer c w"
      "w_sent w' = w_sent w" "w_channels w' = w_channels w" "w_fresh w' = w_fresh w"
    and less: "set (w_requests w') \<subseteq> set (w_requests w)" "set (w_responses w') \<subseteq> set (w_responses w)"
    and loc: "\<And>x. located w x \<Longrightarrow> x \<in> X \<or> located w' x"
  shows "net_ok c X w'"
proof -
  have "(p, rid) \<in> X \<or> located w' (p, rid)" if "w_nodes w' p = Some s" "rid \<in> dom (pending s)" for p s rid
    using w loc that unfolding net_ok_def same by blast
  moreover have "list_all (honest_answer c w') (w_responses w')"
    using w less(2) unfolding net_ok_def same by (auto simp: list_all_iff)
  moreover have "set (w_requests w') \<union> ran (w_channels w') \<subseteq> dom (w_sent w')"
    using w less(1) unfolding net_ok_def same by blast
  ultimately show ?thesis using w unfolding net_ok_def same by blast
qed

lemma take_request_ok:
  assumes w: "net_ok c {} w" and k: "k < length (w_requests w)"
  shows "net_ok c {w_requests w ! k} (w\<lparr>w_requests := drop_nth k (w_requests w)\<rparr>)"
proof -
  let ?w = "w\<lparr>w_requests := drop_nth k (w_requests w)\<rparr>"
  have "x \<in> {w_requests w ! k} \<or> located ?w x" if "located w x" for x
    using that in_drop_nth [of x "w_requests w" k] k unfolding located_def by auto
  from net_ok_moved [OF w _ _ _ _ _ _ _ _ this] set_drop_nth [of k "w_requests w"] show ?thesis by simp
qed

lemma take_response_ok:
  assumes w: "net_ok c {} w" and k: "k < length (w_responses w)"
  shows "net_ok c {fst (w_responses w ! k)} (w\<lparr>w_responses := drop_nth k (w_responses w)\<rparr>)"
proof -
  let ?w = "w\<lparr>w_responses := drop_nth k (w_responses w)\<rparr>"
  have "(x, r) \<in> set (drop_nth k (w_responses w))" if "(x, r) \<in> set (w_responses w)" "x \<noteq> fst (w_responses w ! k)" for x r
    using that k by (intro in_drop_nth) (auto dest: arg_cong [where f = fst])
  then have "x \<in> {fst (w_responses w ! k)} \<or> located ?w x" if "located w x" for x
    using that unfolding located_def by (cases x) auto
  from net_ok_moved [OF w _ _ _ _ _ _ _ _ this] set_drop_nth [of k "w_responses w"] show ?thesis by simp
qed

lemma vanish_ok:
  assumes w: "net_ok c {} w"
  shows "net_ok c {} (w\<lparr>w_nodes := (w_nodes w)(q := None)\<rparr>)"
proof -
  let ?w = "w\<lparr>w_nodes := (w_nodes w)(q := None)\<rparr>"
  have "located ?w x" if "located w x" for x
  proof (cases "\<exists>s channel. w_nodes w q = Some s \<and> channel \<in># in_service s \<and> w_channels w channel = Some x")
    case True
    then obtain r where "w_sent w x = Some (q, r)" using net_ok_node [OF w] unfolding node_ok_def by blast
    then show ?thesis by (auto simp: located_def)
  next
    case False
    with that show ?thesis unfolding located_def by fastforce
  qed
  then show ?thesis using w unfolding net_ok_def by (auto split: if_splits)
qed

lemma p2p_legal_event: "p2p_legal (e, ev) \<longleftrightarrow> p2p_legal (e, OtherEvent)"
  by (simp add: p2p_legal_def)

text \<open>An event that hands over no request.\<close>

lemma enter_plain:
  assumes "net_ok c {} w" and "p2p_legal (e, OtherEvent)" and "serve_legal c {} (e, ev)" and "ev \<noteq> CmdClosed"
    and "\<And>r channel. ev \<noteq> Request r channel"
  shows "net_ok c {} (fst (enter conf p (e, ev) w))"
  by (rule enter_ok [OF assms(1)]) (use assms p2p_legal_event [of e ev] in \<open>simp_all add: handed_def\<close>)

text \<open>A request on a fresh channel: of a node that sent it to \<open>q\<close>, or of a rogue peer.\<close>

lemma enter_request:
  assumes w: "net_ok c (set_option x) w" and legal: "p2p_legal (e, OtherEvent)"
    and sent: "\<And>y. x = Some y \<Longrightarrow> w_sent w y = Some (q, r)" and q: "x = None \<or> q \<in> dom (w_nodes w)"
  shows "net_ok c {} (fst (enter conf q (e, Request r (w_fresh w)) (open_channel x w)))"
proof -
  let ?w = "open_channel x w"
  have ok: "net_ok c (set_option x) ?w" using sent by (intro open_channel_ok [OF w]) auto
  have "(w_fresh w, norm (norm h)) \<in> asked_on ?w" if "r = ReqGet h" for h
    using sent that by (auto simp: asked_on_def open_channel_def)
  then have "handed c (set_option x) ?w q s (e, Request r (w_fresh w))" if "w_nodes ?w q = Some s" for s
    using ok legal that sent p2p_legal_event [of e "Request r (w_fresh w)"] by (auto simp: handed_def open_channel_def)
  then show ?thesis using q by (intro enter_ok [OF ok]) (auto simp: open_channel_def)
qed

lemma inside_ok:
  assumes "net_ok c {} w" and "net_legal c (Inside p e ev)"
  shows "net_ok c {} (fst (net_step conf w (Inside p e ev)))"
  using assms p2p_legal_event [of e ev] enter_plain [OF assms(1), of e ev conf p] by (cases ev) auto

lemma net_step_ok:
  assumes w: "net_ok c {} w" and cd: "codecs_ok conf" and legal: "net_legal c ev"
  shows "net_ok c {} (fst (net_step conf w ev))"
proof (cases "(conf, w, ev)" rule: net_step.cases)
  case (1 conf' w' p e ev')
  with inside_ok [OF w] legal show ?thesis by simp
next
  case (2 conf' w' e k)
  let ?x = "w_requests w ! k" and ?w = "w\<lparr>w_requests := drop_nth k (w_requests w)\<rparr>"
  show ?thesis
  proof (cases "k < length (w_requests w) \<and> (\<exists>q r. w_sent w ?x = Some (q, r) \<and> q \<in> dom (w_nodes w))")
    case True
    then obtain q r where q: "w_sent w ?x = Some (q, r)" "q \<in> dom (w_nodes w)" by blast
    have ok: "net_ok c {?x} ?w" using True take_request_ok [OF w] by simp
    have e: "p2p_legal (e, OtherEvent)" using 2 legal by simp
    show ?thesis
    proof (cases "carry_request (rq_codec conf) r")
      case None
      have "net_ok c {} (fst (enter conf (fst ?x) (e, OutboundFailure (snd ?x)) ?w))"
        by (rule enter_ok [OF ok])
          (use ok e p2p_legal_event [of e "OutboundFailure (snd ?x)"] in \<open>simp_all add: handed_def\<close>)
      with None True q 2 show ?thesis by simp
    next
      case (Some r')
      with cd have "r' = r" using carry_same(1) by (auto simp: codecs_ok_def)
      with enter_request [where x = "Some ?x" and w = ?w and e = e and q = q and r = r and conf = conf] ok e Some True q 2
      show ?thesis by simp
    qed
  next
    case False
    then show ?thesis using w 2 by (auto split: option.split)
  qed
next
  case (3 conf' w' e k)
  show ?thesis
  proof (cases "k < length (w_responses w)")
    case True
    obtain p rid r where a: "w_responses w ! k = ((p, rid), r)" by (metis prod.collapse)
    let ?ev = "case carry_response (rs_codec conf) (cfg_max_bytes (node_conf conf p)) r of
      Some r' \<Rightarrow> Response rid r' | None \<Rightarrow> OutboundFailure rid"
    from take_response_ok [OF w True] have ok: "net_ok c {(p, rid)} (w\<lparr>w_responses := drop_nth k (w_responses w)\<rparr>)"
      by (simp add: a)
    have "net_ok c {} (fst (enter conf p (e, ?ev) (w\<lparr>w_responses := drop_nth k (w_responses w)\<rparr>)))"
      by (rule enter_ok [OF ok])
        (use ok 3 legal p2p_legal_event [of e ?ev] in \<open>simp_all add: handed_def split: option.split\<close>)
    with 3 True a show ?thesis by simp
  qed (use 3 w in simp)
next
  case (8 conf' w' e p rid r)
  then show ?thesis using w legal enter_plain [OF w] by (auto split: option.split)
qed (use w legal in \<open>simp_all add: enter_plain vanish_ok, (auto intro!: enter_plain enter_request [where x = None, simplified])\<close>)

lemma net_run_state: "fst (net_run conf w es) = foldl (\<lambda>w e. fst (net_step conf w e)) w es"
  by (induction es arbitrary: w) (simp_all add: case_prod_beta Let_def)

interpretation network: machine "\<lambda>w e. fst (net_step conf w e)" "\<lambda>e. codecs_ok conf \<and> net_legal c e" "net_ok c {}"
  for conf :: net_cfg and c :: crypto
  by unfold_locales (simp add: net_step_ok)

lemma net_start_ok:
  assumes "\<And>p st. stores p = Some st \<Longrightarrow> store_ok st \<and> certified c st"
  shows "net_ok c {} (net_start stores)"
proof -
  have "node_ok c (net_start stores) p (p2p_start st None)" if "stores p = Some st" for p st
    using assms [OF that] p2p_start_inv [of st None]
    by (simp add: node_ok_def net_start_def serves_ok_def in_service_def) (simp add: p2p_start_def)
  then show ?thesis by (auto simp: net_ok_def net_start_def p2p_start_def)
qed

lemma net_run_ok:
  assumes "net_ok c {} w" and "codecs_ok conf" and "list_all (net_legal c) es"
  shows "net_ok c {} (fst (net_run conf w es))"
  unfolding net_run_state using assms by (intro network.run_inv) (auto simp: list_all_iff)

end
