(* ===== verification/P2p_Net_Live.thy ===== *)
theory P2p_Net_Live
  imports P2p_Net_Inv
begin

text \<open>
  What an honest node sends is what was wanted; and from wherever an outstanding request can be, a few deliveries and
  serve tasks lead to its answer.
\<close>

section \<open>Honest answers\<close>

lemma response_step:
  assumes "running s" and "pending s rid = Some (h, reply)"
  shows "snd (p2p_step cfg s (e, Response rid r)) = [Deliver reply (accept_get (cfg_crypto cfg) h r (cfg_max_bytes cfg))]"
  using assms by (simp add: p2p_step_def on_response_def)

lemma answer_step:
  assumes "net_ok c {} w" and "k < length (w_responses w)" and "w_responses w ! k = ((p, rid), r)"
    and "w_nodes w p = Some s" and "pending s rid = Some (h, reply)"
  shows "snd (net_step conf w (Answer e k)) =
    [(p, Deliver reply (Option.bind (carry_response (rs_codec conf) (cfg_max_bytes (node_conf conf p)) r)
       (\<lambda>r. accept_get (cfg_crypto (node_conf conf p)) h r (cfg_max_bytes (node_conf conf p)))))]"
proof -
  have run: "running s" using net_ok_node [OF assms(1,4)] by (simp add: node_ok_def)
  have "snd (p2p_step (node_conf conf p) s (e, OutboundFailure rid)) = [Deliver reply None]"
    using run assms(5) by (simp add: p2p_step_def on_failure_def)
  with response_step [OF run assms(5), of "node_conf conf p" e] assms(2-4) show ?thesis
    by (simp add: enter_def split_beta Let_def split: option.split)
qed

lemma honest_bytes:
  assumes w: "net_ok c {} w" and a: "((p, rid), RespGet (Some b)) \<in> set (w_responses w)"
    and s: "w_nodes w p = Some s" "pending s rid = Some (h, reply)"
  shows "sha256_hex c b = h \<and> norm h = h"
proof -
  obtain q where q: "w_sent w (p, rid) = Some (q, ReqGet (''0x'' @ h))" and h: "lower_hex64 h"
    using net_ok_node [OF w s(1)] s(2) unfolding node_ok_def by blast
  have "honest_answer c w ((p, rid), RespGet (Some b))" using w a unfolding net_ok_def list_all_iff by blast
  with q have "sha256_hex c b = norm (norm (''0x'' @ h))" by (simp add: honest_answer_def)
  then show ?thesis using norm_0x_lower_hex64 [OF h] norm_lower_hex64 [OF h] by simp
qed

section \<open>Nobody waits forever\<close>

text \<open>
  The steps that only move what is in flight: deliveries, and what the serve tasks and queues of the nodes do. A request
  is \<open>foreign\<close> if the peer it was sent to is none of the nodes: it vanished, or it never was one. Whether such a peer
  answers is its own affair, and \<open>Fail\<close> is what libp2p reports when it does not (the request times out).
\<close>

definition deliveries :: "p2p_env \<Rightarrow> net_event set" where
  "deliveries e =
     range (Arrive e) \<union> range (Answer e) \<union> range (\<lambda>q. Inside q e ServeDone) \<union> range (\<lambda>(q, k). Inside q e (ServeTask k))"

definition foreign :: "network \<Rightarrow> string \<times> nat \<Rightarrow> bool" where
  "foreign w x \<longleftrightarrow> (case w_sent w x of Some (q, r) \<Rightarrow> q \<notin> dom (w_nodes w) | None \<Rightarrow> False)"

definition moves :: "p2p_env \<Rightarrow> network \<Rightarrow> string \<times> nat \<Rightarrow> net_event set" where
  "moves e w x = deliveries e \<union> (if foreign w x then {Fail e (fst x) (snd x)} else {})"

definition waits :: "network \<Rightarrow> string \<times> nat \<Rightarrow> nat \<Rightarrow> bool" where
  "waits w x reply \<longleftrightarrow> (\<exists>s h. w_nodes w (fst x) = Some s \<and> pending s (snd x) = Some (h, reply))"

definition can_answer :: "net_cfg \<Rightarrow> net_event set \<Rightarrow> network \<Rightarrow> string \<Rightarrow> nat \<Rightarrow> bool" where
  "can_answer conf M w p reply \<longleftrightarrow> (\<exists>es b. set es \<subseteq> M \<and> (p, Deliver reply b) \<in> set (snd (net_run conf w es)))"

lemma can_answer_now: "ev \<in> M \<Longrightarrow> (p, Deliver reply b) \<in> set (snd (net_step conf w ev)) \<Longrightarrow> can_answer conf M w p reply"
  unfolding can_answer_def by (rule exI [of _ "[ev]"]) (auto simp: split_beta Let_def)

lemma can_answer_later:
  assumes "ev \<in> M" and "can_answer conf M (fst (net_step conf w ev)) p reply"
  shows "can_answer conf M w p reply"
proof -
  obtain es b where es: "set es \<subseteq> M" "(p, Deliver reply b) \<in> set (snd (net_run conf (fst (net_step conf w ev)) es))"
    using assms(2) unfolding can_answer_def by blast
  then have "(p, Deliver reply b) \<in> set (snd (net_run conf w (ev # es)))" by (simp add: split_beta Let_def)
  with es(1) assms(1) show ?thesis unfolding can_answer_def by (intro exI [of _ "ev # es"]) auto
qed

text \<open>Answered: the response is on its way back.\<close>

lemma answered_stage:
  assumes w: "net_ok c {} w" and x: "waits w x reply" and r: "(x, r) \<in> set (w_responses w)" and M: "deliveries e \<subseteq> M"
  shows "can_answer conf M w (fst x) reply"
proof -
  obtain k where k: "k < length (w_responses w)" "w_responses w ! k = (x, r)" using r by (metis in_set_conv_nth)
  obtain s h where s: "w_nodes w (fst x) = Some s" "pending s (snd x) = Some (h, reply)" using x by (auto simp: waits_def)
  have "w_responses w ! k = ((fst x, snd x), r)" using k(2) by simp
  from answer_step [OF w k(1) this s, of conf e] M show ?thesis
    by (intro can_answer_now [of "Answer e k"]) (auto simp: deliveries_def)
qed

text \<open>In a node's queue of finished responses: it is sent when those before it are.\<close>

lemma waits_upd:
  assumes "waits w x reply" and "w_nodes w q = Some t" and "w_nodes w' = (w_nodes w)(q \<mapsto> t')" and "pending t' = pending t"
  shows "waits w' x reply"
  using assms by (auto simp: waits_def)

lemma moves_legal: "p2p_legal (e, OtherEvent) \<Longrightarrow> ev \<in> deliveries e \<Longrightarrow> net_legal c ev"
  using p2p_legal_event [of e ServeDone] p2p_legal_event [of e "ServeTask k" for k] by (auto simp: deliveries_def)

lemma post_response:
  "w_nodes (post conf q (SendResponse channel r) w) = w_nodes w" "w_channels (post conf q (SendResponse channel r) w) = w_channels w"
  "w_channels w channel = Some x \<Longrightarrow> (x, r) \<in> set (w_responses (post conf q (SendResponse channel r) w))"
  by (auto split: option.split)

lemma serve_done_moves:
  fixes w e conf q
  defines "w' \<equiv> fst (net_step conf w (Inside q e ServeDone))"
  assumes w: "net_ok c {} w" and x: "waits w x reply" and q: "w_nodes w q = Some t" and Q: "serve_queue t = (channel, r) # Q"
    and e: "p2p_legal (e, OtherEvent)"
  shows "net_ok c {} w'" "waits w' x reply" "w_nodes w' q = Some (t\<lparr>serve_queue := Q\<rparr>)" "w_channels w' = w_channels w"
    "w_channels w channel = Some y \<Longrightarrow> (y, r) \<in> set (w_responses w')"
proof -
  let ?w = "w\<lparr>w_nodes := (w_nodes w)(q \<mapsto> t\<lparr>serve_queue := Q\<rparr>)\<rparr>"
  have "running t" using net_ok_node [OF w q] by (simp add: node_ok_def)
  then have step: "w' = post conf q (SendResponse channel r) ?w"
    using q Q by (simp add: w'_def enter_def p2p_step_def on_serve_done_def)
  show "net_ok c {} w'"
    unfolding w'_def by (rule inside_ok [OF w]) (rule moves_legal [OF e], simp add: deliveries_def)
  show "waits w' x reply"
    by (rule waits_upd [OF x q, where t' = "t\<lparr>serve_queue := Q\<rparr>"]) (simp_all only: step post_response, simp_all)
  show "w_nodes w' q = Some (t\<lparr>serve_queue := Q\<rparr>)" "w_channels w' = w_channels w" unfolding step post_response by simp_all
  show "(y, r) \<in> set (w_responses w')" if "w_channels w channel = Some y"
    unfolding step using that by (intro post_response(3)) simp
qed

lemma serve_done_move: "deliveries e \<subseteq> M \<Longrightarrow> Inside q e ServeDone \<in> M"
  by (auto simp: deliveries_def)

lemma queued_stage:
  assumes "net_ok c {} w" and "waits w x reply" and "w_nodes w q = Some t" and "j < length (serve_queue t)"
    and "w_channels w (fst (serve_queue t ! j)) = Some x" and e: "p2p_legal (e, OtherEvent)" and M: "deliveries e \<subseteq> M"
  shows "can_answer conf M w (fst x) reply"
  using assms(1-5)
proof (induction j arbitrary: w t)
  case (0 w t)
  obtain channel r Q where Q: "serve_queue t = (channel, r) # Q" using 0(4) by (cases "serve_queue t") auto
  note w' = serve_done_moves [OF 0(1-3) Q e, where conf = conf]
  have "w_channels w channel = Some x" using 0(5) Q by simp
  from answered_stage [OF w'(1,2) w'(5) [OF this] M] show ?case
    by (rule can_answer_later [OF serve_done_move [OF M]])
next
  case (Suc j w t)
  obtain channel r Q where Q: "serve_queue t = (channel, r) # Q" using Suc.prems(4) by (cases "serve_queue t") auto
  note w' = serve_done_moves [OF Suc.prems(1-3) Q e, where conf = conf]
  show ?case
  proof (rule can_answer_later [OF serve_done_move [OF M]], rule Suc.IH [OF w'(1-3)])
    show "j < length (serve_queue (t\<lparr>serve_queue := Q\<rparr>))" using Suc.prems(4) Q by simp
    show "w_channels (fst (net_step conf w (Inside q e ServeDone))) (fst (serve_queue (t\<lparr>serve_queue := Q\<rparr>) ! j)) = Some x"
      unfolding w'(4) using Suc.prems(5) Q by simp
  qed
qed

text \<open>With a serve task: it finishes as soon as the queue has room.\<close>

lemma serving_room_stage:
  assumes w: "net_ok c {} w" and x: "waits w x reply" and q: "w_nodes w q = Some t" and i: "i < length (serving t)"
    and ch: "w_channels w (fst (serving t ! i)) = Some x" and room: "length (serve_queue t) < MAX_CONCURRENT_SERVES"
    and e: "p2p_legal (e, OtherEvent)" and M: "deliveries e \<subseteq> M"
  shows "can_answer conf M w (fst x) reply"
proof -
  let ?ev = "Inside q e (ServeTask i)" and ?w = "fst (net_step conf w (Inside q e (ServeTask i)))"
  have run: "running t" using net_ok_node [OF w q] by (simp add: node_ok_def)
  obtain body where t': "on_serve_task e t i = serve_finish t i body" by (metis on_serve_task_def)
  have step: "?w = w\<lparr>w_nodes := (w_nodes w)(q \<mapsto> serve_finish t i body)\<rparr>"
    using q run t' by (simp add: enter_def p2p_step_def)
  have ev: "?ev \<in> deliveries e" by (auto simp: deliveries_def)
  have pend: "pending (serve_finish t i body) = pending t"
    and que: "serve_queue (serve_finish t i body) = serve_queue t @ [(fst (serving t ! i), RespGet body)]"
    using i room by (simp_all add: serve_finish_def)
  have ok: "net_ok c {} ?w" using w moves_legal [OF e ev] by (rule inside_ok)
  have "waits ?w x reply" unfolding step by (rule waits_upd [OF x q, where t' = "serve_finish t i body"]) (simp_all add: pend)
  note queued = queued_stage [OF ok this, of q "serve_finish t i body" "length (serve_queue t)"]
  have "can_answer conf M ?w (fst x) reply"
  proof (rule queued [OF _ _ _ e M])
    show "w_nodes ?w q = Some (serve_finish t i body)" unfolding step by simp
    show "w_channels ?w (fst (serve_queue (serve_finish t i body) ! length (serve_queue t))) = Some x"
      unfolding step que using ch by simp
  qed (simp add: que)
  moreover have "?ev \<in> M" using ev M by blast
  ultimately show ?thesis by (rule can_answer_later [rotated])
qed

lemma serving_stage:
  assumes w: "net_ok c {} w" and x: "waits w x reply" and q: "w_nodes w q = Some t" and i: "i < length (serving t)"
    and ch: "w_channels w (fst (serving t ! i)) = Some x" and e: "p2p_legal (e, OtherEvent)" and M: "deliveries e \<subseteq> M"
  shows "can_answer conf M w (fst x) reply"
proof (cases "length (serve_queue t) < MAX_CONCURRENT_SERVES")
  case True
  from serving_room_stage [OF w x q i ch True e M] show ?thesis .
next
  case False
  have t: "length (serve_queue t) \<le> MAX_CONCURRENT_SERVES"
    using net_ok_node [OF w q] by (simp_all add: node_ok_def p2p_inv_def)
  obtain channel r Q where Q: "serve_queue t = (channel, r) # Q"
    using False by (cases "serve_queue t") (auto simp: MAX_CONCURRENT_SERVES_def)
  note w' = serve_done_moves [OF w x q Q e, where conf = conf]
  show ?thesis
  proof (rule can_answer_later [OF serve_done_move [OF M]], rule serving_room_stage [OF w'(1-3) _ _ _ e M, of i])
    show "w_channels (fst (net_step conf w (Inside q e ServeDone))) (fst (serving (t\<lparr>serve_queue := Q\<rparr>) ! i)) = Some x"
      unfolding w'(4) using ch by simp
  qed (use i t Q in simp_all)
qed

text \<open>In service, in either place.\<close>

lemma in_service_stage:
  assumes w: "net_ok c {} w" and x: "waits w x reply" and q: "w_nodes w q = Some t" and ch: "channel \<in># in_service t"
    "w_channels w channel = Some x" and e: "p2p_legal (e, OtherEvent)" and M: "deliveries e \<subseteq> M"
  shows "can_answer conf M w (fst x) reply"
proof -
  from ch(1) consider "channel \<in> set (map fst (serving t))" | "channel \<in> set (map fst (serve_queue t))"
    unfolding in_service_def by auto
  then show ?thesis
  proof cases
    case 1
    then obtain i where "i < length (serving t)" "fst (serving t ! i) = channel" unfolding in_set_conv_nth by auto
    with ch(2) show ?thesis using serving_stage [OF w x q _ _ e M] by blast
  next
    case 2
    then obtain j where "j < length (serve_queue t)" "fst (serve_queue t ! j) = channel" unfolding in_set_conv_nth by auto
    with ch(2) show ?thesis using queued_stage [OF w x q _ _ e M] by blast
  qed
qed

text \<open>On its way: the peer takes it, or it is none of the nodes and the request may fail.\<close>

lemma request_pending: "running t \<Longrightarrow> p2p_step cfg t (e, Request r channel) = (t', outs) \<Longrightarrow> pending t' = pending t"
  by (cases r) (auto simp: p2p_step_def Let_def split: if_splits)

lemma fail_stage:
  assumes w: "net_ok c {} w" and x: "waits w x reply" and "foreign w x" and M: "moves e w x \<subseteq> M"
  shows "can_answer conf M w (fst x) reply"
proof -
  obtain s h where s: "w_nodes w (fst x) = Some s" "pending s (snd x) = Some (h, reply)" using x by (auto simp: waits_def)
  have "running s" using net_ok_node [OF w s(1)] by (simp add: node_ok_def)
  then have "(fst x, Deliver reply None) \<in> set (snd (net_step conf w (Fail e (fst x) (snd x))))"
    using s by (simp add: enter_def p2p_step_def on_failure_def)
  with assms(3) M show ?thesis by (intro can_answer_now) (auto simp: moves_def)
qed

lemma request_stage:
  assumes w: "net_ok c {} w" and cd: "codecs_ok conf" and x: "waits w x reply" and k: "k < length (w_requests w)" "w_requests w ! k = x"
    and e: "p2p_legal (e, OtherEvent)" and M: "moves e w x \<subseteq> M"
  shows "can_answer conf M w (fst x) reply"
proof -
  have "set (w_requests w) \<subseteq> dom (w_sent w)" using w unfolding net_ok_def by blast
  then obtain q r where sent: "w_sent w x = Some (q, r)" using k nth_mem [OF k(1)] by (metis domD subsetD prod.collapse)
  have ev: "Arrive e k \<in> deliveries e" and D: "deliveries e \<subseteq> M" using M by (auto simp: deliveries_def moves_def)
  consider "w_nodes w q = None" | t where "w_nodes w q = Some t" "carry_request (rq_codec conf) r = None"
    | t where "w_nodes w q = Some t" "carry_request (rq_codec conf) r = Some r"
    using cd carry_same(1) [of "rq_codec conf" r] by (cases "w_nodes w q"; cases "carry_request (rq_codec conf) r") (auto simp: codecs_ok_def)
  then show ?thesis
  proof cases
    case 1
    then have "foreign w x" by (simp add: foreign_def sent domIff)
    with fail_stage [OF w x _ M] show ?thesis .
  next
    case (2 t)
    obtain s h where s: "w_nodes w (fst x) = Some s" "pending s (snd x) = Some (h, reply)" using x by (auto simp: waits_def)
    have "running s" using net_ok_node [OF w s(1)] by (simp add: node_ok_def)
    then have "(fst x, Deliver reply None) \<in> set (snd (net_step conf w (Arrive e k)))"
      using s 2 k sent by (simp add: enter_def p2p_step_def on_failure_def domIff Let_def)
    with ev D show ?thesis by (intro can_answer_now) auto
  next
    case (3 t)
    note Some = 3(1)
    let ?v = "open_channel (Some x) (w\<lparr>w_requests := drop_nth k (w_requests w)\<rparr>)" and ?c = "w_fresh w"
    have t: "running t" using net_ok_node [OF w Some] by (simp add: node_ok_def)
    obtain t' outs where step: "p2p_step (node_conf conf q) t (e, Request r ?c) = (t', outs)" by fastforce
    have nodes: "w_nodes ?v = w_nodes w" "w_channels ?v ?c = Some x" by (simp_all add: open_channel_def)
    let ?w = "entered conf q t' outs ?v"
    have "enter conf q (e, Request r ?c) ?v = (?w, map (Pair q) outs)"
      using Some step by (intro enter_eq) (simp_all only: nodes)
    then have eq: "fst (net_step conf w (Arrive e k)) = ?w" using k sent 3 by (simp add: domIff)
    have ok: "net_ok c {} ?w" unfolding eq [symmetric] by (rule net_step_ok [OF w cd moves_legal [OF e ev]])
    have wait: "waits ?w x reply"
      by (rule waits_upd [OF x Some, where t' = t']) (simp_all add: nodes request_pending [OF t step])
    have "?c \<in># request_channel (e, Request r ?c) + in_service t" by simp
    then have "?c \<in># sum_of responded outs + in_service t'" unfolding channels_step [OF t, of _ "node_conf conf q"] step by simp
    then consider r' where "SendResponse ?c r' \<in> set outs" | "?c \<in># in_service t'" by (auto simp: responded_iff)
    then have "can_answer conf M ?w (fst x) reply"
    proof cases
      case (1 r')
      then have "(x, r') \<in> set (w_responses ?w)" using nodes(2) unfolding entered_sets(4) [OF step_one [OF step]] by blast
      from answered_stage [OF ok wait this D] show ?thesis .
    next
      case 2
      from in_service_stage [OF ok wait _ 2 _ e D, of q] nodes(2) show ?thesis by simp
    qed
    then have "can_answer conf M (fst (net_step conf w (Arrive e k))) (fst x) reply" unfolding eq .
    moreover have "Arrive e k \<in> M" using ev D by blast
    ultimately show ?thesis by (rule can_answer_later [rotated])
  qed
qed

lemma waiting_answered:
  assumes w: "net_ok c {} w" and cd: "codecs_ok conf" and x: "waits w x reply" and e: "p2p_legal (e, OtherEvent)"
  shows "can_answer conf (moves e w x) w (fst x) reply"
proof -
  have "located w x" using w x by (cases x) (fastforce simp: waits_def net_ok_def)
  then consider "x \<in> set (w_requests w)"
    | q t channel where "w_nodes w q = Some t" "channel \<in># in_service t" "w_channels w channel = Some x"
    | r where "(x, r) \<in> set (w_responses w)" | "foreign w x"
    unfolding located_def foreign_def by fastforce
  then show ?thesis
  proof cases
    case 1
    then show ?thesis using request_stage [OF w cd x _ _ e] by (metis in_set_conv_nth order_refl)
  next
    case (2 q t channel)
    have "deliveries e \<subseteq> moves e w x" by (simp add: moves_def)
    from in_service_stage [OF w x 2 e this] show ?thesis .
  next
    case (3 r)
    have "deliveries e \<subseteq> moves e w x" by (simp add: moves_def)
    from answered_stage [OF w x 3 this] show ?thesis .
  next
    case 4
    from fail_stage [OF w x 4] show ?thesis by blast
  qed
qed

section \<open>Deliveries come to an end\<close>

text \<open>What is in flight, weighed by the steps it still takes at most.\<close>

definition load :: "p2p_state \<Rightarrow> nat" where
  "load s = 3 * length (serving s) + 2 * length (serve_queue s)"

definition in_flight :: "network \<Rightarrow> nat" where
  "in_flight w = 4 * length (w_requests w) + length (w_responses w) + (\<Sum>p \<in> dom (w_nodes w). load (the (w_nodes w p)))"

fun cost :: "p2p_out \<Rightarrow> nat" where
  "cost (SendRequest q rid r) = 4"
| "cost (SendResponse channel r) = 1"
| "cost out = 0"

lemma load_upd:
  assumes "finite (dom N)" and "N p = Some s"
  shows "(\<Sum>q \<in> dom N. load (the ((N(p \<mapsto> s')) q))) + load s = (\<Sum>q \<in> dom N. load (the (N q))) + load s'"
proof -
  have p: "p \<in> dom N" using assms(2) by auto
  have "(\<Sum>q \<in> dom N - {p}. load (the ((N(p \<mapsto> s')) q))) = (\<Sum>q \<in> dom N - {p}. load (the (N q)))"
    by (rule sum.cong) auto
  then show ?thesis
    using assms sum.remove [OF assms(1) p, of "\<lambda>q. load (the ((N(p \<mapsto> s')) q))"]
      sum.remove [OF assms(1) p, of "\<lambda>q. load (the (N q))"] by simp
qed

lemma in_flight_nodes:
  "in_flight (w\<lparr>w_nodes := N\<rparr>) = 4 * length (w_requests w) + length (w_responses w) + (\<Sum>p \<in> dom N. load (the (N p)))"
  by (simp add: in_flight_def)

lemma entered_flight:
  assumes "finite (dom (w_nodes w))" and "w_nodes w p = Some s"
  shows "in_flight (entered conf p s' outs w) + load s \<le> in_flight w + load s' + sum_list (map cost outs)"
proof -
  have post: "in_flight (post conf p out w) \<le> in_flight w + cost out" for out w
    by (cases out) (auto simp: in_flight_def split: option.split)
  have "in_flight (fold (post conf p) outs w) \<le> in_flight w + sum_list (map cost outs)" for w
  proof (induction outs arbitrary: w)
    case (Cons out outs)
    from Cons [of "post conf p out w"] post [of out w] show ?case by simp
  qed simp
  then have "in_flight (entered conf p s' outs w) \<le> in_flight (w\<lparr>w_nodes := (w_nodes w)(p \<mapsto> s')\<rparr>) + sum_list (map cost outs)"
    unfolding entered_def .
  moreover have dom: "dom ((w_nodes w)(p \<mapsto> s')) = dom (w_nodes w)" using assms(2) by auto
  have "in_flight (w\<lparr>w_nodes := (w_nodes w)(p \<mapsto> s')\<rparr>) + load s = in_flight w + load s'"
    unfolding in_flight_nodes dom using load_upd [OF assms, of s'] by (simp add: in_flight_def)
  ultimately show ?thesis by linarith
qed

text \<open>What the events of a delivery cost.\<close>

lemma request_cost:
  assumes "p2p_step cfg s (e, Request r channel) = (s', outs)" and "running s"
  shows "load s' + sum_list (map cost outs) \<le> load s + 3"
  using assms by (cases r) (auto simp: p2p_step_def load_def Let_def split: if_splits)

lemma response_cost:
  assumes "p2p_step cfg s (e, Response rid r) = (s', outs)" and "running s"
  shows "load s' + sum_list (map cost outs) \<le> load s"
  using assms by (auto simp: p2p_step_def on_response_def load_def split: option.splits)

lemma failure_cost:
  assumes "p2p_step cfg s (e, OutboundFailure rid) = (s', outs)" and "running s"
  shows "load s' + sum_list (map cost outs) \<le> load s"
  using assms by (auto simp: p2p_step_def on_failure_def load_def split: option.splits)

lemma serve_cost:
  assumes "p2p_step cfg s (e, ev) = (s', outs)" and "running s" and "ev = ServeDone \<or> ev = ServeTask k"
  shows "(s', outs) = (s, []) \<or> load s' + sum_list (map cost outs) < load s"
  using assms by (auto simp: p2p_step_def on_serve_done_def on_serve_task_def serve_finish_def load_def Let_def split: list.splits if_splits)

lemma enter_flight:
  assumes "finite (dom (w_nodes w))" and "w_nodes w p = Some s" and "p2p_step (node_conf conf p) s e = (s', outs)"
    and "load s' + sum_list (map cost outs) \<le> load s + d"
  shows "in_flight (fst (enter conf p e w)) \<le> in_flight w + d"
  using entered_flight [OF assms(1,2), of conf s' outs] assms(4) unfolding enter_eq [of w p s conf e s' outs, OF assms(2,3)] by simp

lemma enter_answer_flight:
  assumes w: "net_ok c {} w" and fin: "finite (dom (w_nodes w))" and v: "w_nodes v = w_nodes w"
    and ev: "ev = OutboundFailure rid \<or> (\<exists>r. ev = Response rid r)"
  shows "in_flight (fst (enter conf p (e, ev) v)) \<le> in_flight v"
proof (cases "w_nodes w p")
  case (Some s)
  obtain s' outs where step: "p2p_step (node_conf conf p) s (e, ev) = (s', outs)" by fastforce
  have "running s" using net_ok_node [OF w Some] by (simp add: node_ok_def)
  then have "load s' + sum_list (map cost outs) \<le> load s + 0"
    using ev step failure_cost [of _ s e rid] response_cost [of _ s e rid] by auto
  moreover have "finite (dom (w_nodes v))" "w_nodes v p = Some s" using fin Some v by simp_all
  ultimately show ?thesis using enter_flight [of v p s conf "(e, ev)" s' outs 0] step by simp
qed (simp add: enter_def v)

lemma delivery_decreases:
  assumes w: "net_ok c {} w" and fin: "finite (dom (w_nodes w))" and ev: "ev \<in> deliveries e"
  shows "net_step conf w ev = (w, []) \<or> in_flight (fst (net_step conf w ev)) < in_flight w"
proof -
  have serve: "net_step conf w (Inside q e ev) = (w, []) \<or> in_flight (fst (net_step conf w (Inside q e ev))) < in_flight w"
    if "ev = ServeDone \<or> ev = ServeTask k" for q ev k
  proof (cases "w_nodes w q")
    case (Some s)
    obtain s' outs where step: "p2p_step (node_conf conf q) s (e, ev) = (s', outs)" by fastforce
    note eq = enter_eq [of w q s conf "(e, ev)" s' outs, OF Some step]
    have run: "running s" using net_ok_node [OF w Some] by (simp add: node_ok_def)
    show ?thesis
    proof (cases "(s', outs) = (s, [])")
      case True
      then show ?thesis using Some by (simp add: eq entered_def fun_upd_idem)
    next
      case False
      with serve_cost [OF step run that] have "load s' + sum_list (map cost outs) < load s" by blast
      with entered_flight [OF fin Some, of conf s' outs] have "in_flight (entered conf q s' outs w) < in_flight w" by linarith
      then show ?thesis by (simp add: eq)
    qed
  qed (simp add: enter_def)
  from ev consider k where "ev = Arrive e k" | k where "ev = Answer e k" | q where "ev = Inside q e ServeDone"
    | q k where "ev = Inside q e (ServeTask k)"
    unfolding deliveries_def by auto
  then show ?thesis
  proof cases
    case (1 k)
    let ?x = "w_requests w ! k" and ?w = "w\<lparr>w_requests := drop_nth k (w_requests w)\<rparr>"
    show ?thesis
    proof (cases "k < length (w_requests w) \<and> (\<exists>q r. w_sent w ?x = Some (q, r) \<and> q \<in> dom (w_nodes w))")
      case True
      then obtain q r s where q: "w_sent w ?x = Some (q, r)" "w_nodes w q = Some s" by auto
      have less: "in_flight ?w + 4 = in_flight w"
        using True length_drop_nth [of k "w_requests w"] by (simp add: in_flight_def)
      show ?thesis
      proof (cases "carry_request (rq_codec conf) r")
        case None
        have "in_flight (fst (enter conf (fst ?x) (e, OutboundFailure (snd ?x)) ?w)) \<le> in_flight ?w"
          by (rule enter_answer_flight [OF w fin]) simp_all
        with less None 1 True q show ?thesis by (simp add: domIff)
      next
        case (Some r')
        let ?v = "open_channel (Some ?x) ?w"
        obtain s' outs where step: "p2p_step (node_conf conf q) s (e, Request r' (w_fresh w)) = (s', outs)" by fastforce
        have run: "running s" using net_ok_node [OF w q(2)] by (simp add: node_ok_def)
        have "in_flight (fst (enter conf q (e, Request r' (w_fresh w)) ?v)) \<le> in_flight ?v + 3"
          using fin q(2) step request_cost [OF step run]
          by (intro enter_flight [where s = s and s' = s' and outs = outs]) (simp_all add: open_channel_def)
        moreover have "in_flight ?v = in_flight ?w" by (simp add: open_channel_def in_flight_def)
        ultimately show ?thesis using less Some 1 True q by (simp add: domIff)
      qed
    qed (use 1 in \<open>auto split: option.split\<close>)
  next
    case (2 k)
    show ?thesis
    proof (cases "k < length (w_responses w)")
      case True
      obtain p rid r where a: "w_responses w ! k = ((p, rid), r)" by (metis prod.collapse)
      let ?v = "w\<lparr>w_responses := drop_nth k (w_responses w)\<rparr>"
      let ?ev = "case carry_response (rs_codec conf) (cfg_max_bytes (node_conf conf p)) r of
        Some r' \<Rightarrow> Response rid r' | None \<Rightarrow> OutboundFailure rid"
      have "in_flight ?v + 1 = in_flight w" using True length_drop_nth [of k "w_responses w"] by (simp add: in_flight_def)
      moreover have "in_flight (fst (enter conf p (e, ?ev) ?v)) \<le> in_flight ?v"
        by (rule enter_answer_flight [OF w fin]) (auto split: option.split)
      ultimately show ?thesis using 2 True a by simp
    qed (use 2 in simp)
  qed (use serve in auto)
qed

text \<open>If no delivery does anything any more, only requests to foreign peers are outstanding.\<close>

lemma run_of_idle:
  "(\<And>ev. ev \<in> set es \<Longrightarrow> net_step conf w ev = (w, [])) \<Longrightarrow> net_run conf w es = (w, [])"
  by (induction es) simp_all

lemma idle_foreign:
  assumes "net_ok c {} w" and "codecs_ok conf" and "waits w x reply" and "p2p_legal (e, OtherEvent)"
    and "\<And>ev. ev \<in> deliveries e \<Longrightarrow> net_step conf w ev = (w, [])"
  shows "foreign w x"
proof (rule ccontr)
  assume "\<not> foreign w x"
  then obtain es b where es: "set es \<subseteq> deliveries e" "(fst x, Deliver reply b) \<in> set (snd (net_run conf w es))"
    using waiting_answered [OF assms(1-4)] unfolding can_answer_def moves_def by auto
  have "net_run conf w es = (w, [])" using es(1) assms(5) by (intro run_of_idle) blast
  with es(2) show False by simp
qed

text \<open>Nodes only vanish.\<close>

lemma enter_nodes: "dom (w_nodes (fst (enter conf p e w))) = dom (w_nodes w)"
  by (auto simp: enter_def split_beta Let_def split: option.split)

lemma net_step_nodes: "dom (w_nodes (fst (net_step conf w ev))) \<subseteq> dom (w_nodes w)"
  by (cases "(conf, w, ev)" rule: net_step.cases) (auto simp: enter_nodes open_channel_def Let_def split: option.splits prod.splits)

lemma net_run_nodes: "dom (w_nodes (fst (net_run conf w es))) \<subseteq> dom (w_nodes w)"
  unfolding net_run_state by (induction es arbitrary: w) (use net_step_nodes in \<open>auto, blast\<close>)

end
