(* ===== verification/P2p_Net_Fetch.thy ===== *)
theory P2p_Net_Fetch
  imports P2p_Net_Live P2p_Props
begin

text \<open>
  From announcement to delivery: two nodes meet, one announces what it holds, the other hears of it, wants a hash and
  is answered (the scenario of tests/p2p.rs, for any store and any blob).
\<close>

section \<open>The scenario\<close>

text \<open>
  Node \<open>a\<close> gets a connection to \<open>b\<close> and announces its index, \<open>b\<close> hears the announcement and wants \<open>hash\<close>; the request
  arrives, a serve task reads the blob, the response is sent and arrives.
\<close>

definition fetch_schedule :: "p2p_env \<Rightarrow> string \<Rightarrow> string \<Rightarrow> string \<Rightarrow> string \<Rightarrow> nat \<Rightarrow> net_event list" where
  "fetch_schedule e a b addr hash reply =
     [Inside a e (ConnEstablished b addr), Hear e b 0, Inside b e (Want hash reply), Arrive e 0,
      Inside a e (ServeTask 0), Inside a e ServeDone, Answer e 0]"

text \<open>The two nodes along the scenario.\<close>

definition met :: "store \<Rightarrow> string \<Rightarrow> string \<Rightarrow> p2p_state" where
  "met st b addr = (p2p_start st None)\<lparr>peer_status := [b \<mapsto> addr]\<rparr>"

definition informed :: "store \<Rightarrow> (string \<rightharpoonup> string set) \<Rightarrow> p2p_state" where
  "informed st pv = (p2p_start st None)\<lparr>providers := pv\<rparr>"

lemma publish_met: "h \<in> dom (index st) \<Longrightarrow> finite (dom (index st)) \<Longrightarrow> hash_iter (ev_order e) \<Longrightarrow>
    publish_held e (met st b addr) = [Publish (str_bytes (held_body (store_list (ev_order e) st)))]"
proof -
  assume h: "h \<in> dom (index st)" "finite (dom (index st))" "hash_iter (ev_order e)"
  then have "set (ev_order e (dom (index st))) \<noteq> {}" by (auto simp: set_hash_iter)
  then have "store_list (ev_order e) st \<noteq> []" by (auto simp: store_list_def)
  then show ?thesis by (simp add: publish_held_def met_def p2p_start_def)
qed

lemma step_meet:
  assumes "h \<in> dom (index st)" "finite (dom (index st))" "hash_iter (ev_order e)"
  shows "p2p_step cfg (p2p_start st None) (e, ConnEstablished b addr)
    = (met st b addr, [Publish (str_bytes (held_body (store_list (ev_order e) st)))])"
proof -
  have "p2p_step cfg (p2p_start st None) (e, ConnEstablished b addr) = (met st b addr, publish_held e (met st b addr))"
    by (simp add: p2p_step_def on_connected_def met_def p2p_start_def Let_def)
  then show ?thesis unfolding publish_met [OF assms] .
qed

lemma step_hear: "p2p_step cfg (p2p_start st None) (e, Gossip (Some a) data) = (informed st (learn_message (Some a) data Map.empty), [])"
  by (simp add: p2p_step_def informed_def) (simp add: p2p_start_def)

lemma step_want:
  assumes "pv (norm hash) = Some {a}" and "hash_iter (ev_order e)"
  shows "p2p_step cfg (informed st pv) (e, Want hash reply)
    = ((informed st pv)\<lparr>pending := [0 \<mapsto> (norm hash, reply)], next_rid := 1\<rparr>, [SendRequest a 0 (ReqGet (''0x'' @ norm hash))])"
proof -
  have "set (ev_order e {a}) = {a}" "distinct (ev_order e {a})"
    using assms(2) by (simp_all add: set_hash_iter distinct_hash_iter)
  then have "\<exists>ps. ev_order e {a} = a # ps" by (cases "ev_order e {a}") auto
  then show ?thesis using assms(1) by (auto simp: p2p_step_def on_want_def informed_def p2p_start_def Let_def)
qed

definition asked_for :: "p2p_state \<Rightarrow> string \<Rightarrow> p2p_state" where
  "asked_for s n = s\<lparr>serve_permits := 15, serving := [(0, n)]\<rparr>"

definition serve_body :: "p2p_env \<Rightarrow> store \<Rightarrow> string \<Rightarrow> bytes option" where
  "serve_body e st n = (if store_is_denied st n then None else store_get (ev_read e) st n)"

lemma step_serve:
  "p2p_step cfg (met st b addr) (e, Request (ReqGet h) 0) = (asked_for (met st b addr) (norm h), [])"
  "p2p_step cfg (asked_for (met st b addr) n) (e, ServeTask 0)
     = ((met st b addr)\<lparr>serve_queue := [(0, RespGet (serve_body e st n))]\<rparr>, [])"
  "p2p_step cfg ((met st b addr)\<lparr>serve_queue := [(0, r)]\<rparr>) (e, ServeDone) = (met st b addr, [SendResponse 0 r])"
  by (simp_all add: p2p_step_def met_def asked_for_def p2p_start_def MAX_CONCURRENT_SERVES_def on_serve_task_def
      serve_finish_def on_serve_done_def serve_body_def Let_def)

lemma step_answer:
  "running s \<Longrightarrow> p2p_step cfg (s\<lparr>pending := [0 \<mapsto> (h, reply)], next_rid := Suc 0\<rparr>) (e, Response 0 r)
    = (s\<lparr>pending := Map.empty, next_rid := Suc 0\<rparr>, [Deliver reply (accept_get (cfg_crypto cfg) h r (cfg_max_bytes cfg))])"
  by (simp add: p2p_step_def on_response_def)

lemma step_failed:
  "running s \<Longrightarrow> p2p_step cfg (s\<lparr>pending := [0 \<mapsto> (h, reply)], next_rid := Suc 0\<rparr>) (e, OutboundFailure 0)
    = (s\<lparr>pending := Map.empty, next_rid := Suc 0\<rparr>, [Deliver reply None])"
  by (simp add: p2p_step_def on_failure_def)

section \<open>The run\<close>

lemma start_nodes: "stores p = Some st \<Longrightarrow> w_nodes (net_start stores) p = Some (p2p_start st None)"
  by (simp add: net_start_def)

lemma net_run_Cons:
  "net_run conf w (ev # es) =
    (fst (net_run conf (fst (net_step conf w ev)) es), snd (net_step conf w ev) @ snd (net_run conf (fst (net_step conf w ev)) es))"
  by (simp add: split_beta Let_def)

lemma net_run_append:
  "fst (net_run conf w (es @ [ev])) = fst (net_step conf (fst (net_run conf w es)) ev)"
  "snd (net_run conf w (es @ [ev])) = snd (net_run conf w es) @ snd (net_step conf (fst (net_run conf w es)) ev)"
  by (induction es arbitrary: w) (simp_all only: append.simps net_run_Cons net_run.simps(1), simp_all)

lemma scenario_run:
  fixes conf :: net_cfg and addr :: string and reply :: nat
  assumes ab: "a \<noteq> b" and small: "length (held_body (store_list (ev_order e) sa)) \<le> gossip_max conf"
    and rq: "carry_request (rq_codec conf) (ReqGet (''0x'' @ norm hash)) = Some (ReqGet (''0x'' @ norm hash))" and st: "stores a = Some sa" "stores b = Some sb"
    and ix: "k \<in> dom (index sa)" "finite (dom (index sa))" and it: "hash_iter (ev_order e)"
    and pv: "learn_message (Some a) (str_bytes (held_body (store_list (ev_order e) sa))) Map.empty (norm hash) = Some {a}"
  defines "B \<equiv> informed sb (learn_message (Some a) (str_bytes (held_body (store_list (ev_order e) sa))) Map.empty)"
    and "n \<equiv> norm (''0x'' @ norm hash)"
    and "w \<equiv> fst (net_run conf (net_start stores) (take 6 (fetch_schedule e a b addr hash reply)))"
  shows "snd (net_run conf (net_start stores) (fetch_schedule e a b addr hash reply)) =
      [(a, Publish (str_bytes (held_body (store_list (ev_order e) sa)))), (b, SendRequest a 0 (ReqGet (''0x'' @ norm hash))),
       (a, SendResponse 0 (RespGet (serve_body e sa n))),
       (b, Deliver reply (Option.bind (carry_response (rs_codec conf) (cfg_max_bytes (node_conf conf b)) (RespGet (serve_body e sa n)))
         (\<lambda>r. accept_get (cfg_crypto (node_conf conf b)) (norm hash) r (cfg_max_bytes (node_conf conf b)))))]"
    and "w_responses w = [((b, 0), RespGet (serve_body e sa n))]"
    and "w_nodes w b = Some (B\<lparr>pending := [0 \<mapsto> (norm hash, reply)], next_rid := Suc 0\<rparr>)"
    and "w_nodes (fst (net_run conf (net_start stores) (fetch_schedule e a b addr hash reply))) b
      = Some (B\<lparr>pending := Map.empty, next_rid := Suc 0\<rparr>)"
proof -
  let ?body = "str_bytes (held_body (store_list (ev_order e) sa))"
  have want: "p2p_step cfg B (e, Want hash reply)
      = (B\<lparr>pending := [0 \<mapsto> (norm hash, reply)], next_rid := 1\<rparr>, [SendRequest a 0 (ReqGet (''0x'' @ norm hash))])" for cfg
    unfolding B_def using pv it by (rule step_want)
  have hear: "p2p_step cfg (p2p_start sb None) (e, Gossip (Some a) ?body) = (B, [])" for cfg
    unfolding B_def by (rule step_hear)
  note meet = step_meet [OF ix it, where b = b and addr = addr]
  note serve = step_serve [where st = sa and b = b and addr = addr and e = e]
  have run: "running B" by (simp add: B_def informed_def p2p_start_def)
  have fields: "w_sent (net_start stores) = Map.empty" "w_requests (net_start stores) = []" "w_channels (net_start stores) = Map.empty"
    "w_fresh (net_start stores) = 0" "w_responses (net_start stores) = []" "w_gossip (net_start stores) = []"
    by (simp_all add: net_start_def)
  have start: "w_nodes (net_start stores) a = Some (p2p_start sa None)" "w_nodes (net_start stores) b = Some (p2p_start sb None)"
    using st by (simp_all add: start_nodes)
  have sent: "carry_request (rq_codec conf) (ReqGet (CHR ''0'' # CHR ''x'' # norm hash)) = Some (ReqGet (''0x'' @ norm hash))"
    using rq by simp
  note eval = net_run_Cons enter_def open_channel_def drop_nth_def meet hear want serve step_answer [OF run] step_failed [OF run]
    start fields small sent Let_def
  have six: "snd (net_run conf (net_start stores) (take 6 (fetch_schedule e a b addr hash reply))) =
      [(a, Publish ?body), (b, SendRequest a 0 (ReqGet (''0x'' @ norm hash))), (a, SendResponse 0 (RespGet (serve_body e sa n)))]"
    using ab ab [symmetric] by (simp add: eval fetch_schedule_def n_def del: net_run.simps(2))
  show w: "w_responses w = [((b, 0), RespGet (serve_body e sa n))]"
    "w_nodes w b = Some (B\<lparr>pending := [0 \<mapsto> (norm hash, reply)], next_rid := Suc 0\<rparr>)"
    using ab ab [symmetric] by (simp_all add: w_def eval fetch_schedule_def n_def del: net_run.simps(2))
  have split: "fetch_schedule e a b addr hash reply = take 6 (fetch_schedule e a b addr hash reply) @ [Answer e 0]"
    by (simp add: fetch_schedule_def)
  let ?r = "carry_response (rs_codec conf) (cfg_max_bytes (node_conf conf b)) (RespGet (serve_body e sa n))"
  have last: "snd (net_step conf w (Answer e 0)) =
      [(b, Deliver reply (Option.bind ?r (\<lambda>r. accept_get (cfg_crypto (node_conf conf b)) (norm hash) r (cfg_max_bytes (node_conf conf b)))))]"
    "w_nodes (fst (net_step conf w (Answer e 0))) b = Some (B\<lparr>pending := Map.empty, next_rid := Suc 0\<rparr>)"
    by (cases ?r; simp add: w enter_def step_answer [OF run] step_failed [OF run])+
  show "snd (net_run conf (net_start stores) (fetch_schedule e a b addr hash reply)) =
      [(a, Publish ?body), (b, SendRequest a 0 (ReqGet (''0x'' @ norm hash))),
       (a, SendResponse 0 (RespGet (serve_body e sa n))),
       (b, Deliver reply (Option.bind ?r (\<lambda>r. accept_get (cfg_crypto (node_conf conf b)) (norm hash) r (cfg_max_bytes (node_conf conf b)))))]"
    by (subst split) (simp only: net_run_append six w_def [symmetric] last append.simps)
  show "w_nodes (fst (net_run conf (net_start stores) (fetch_schedule e a b addr hash reply))) b
      = Some (B\<lparr>pending := Map.empty, next_rid := Suc 0\<rparr>)"
    by (subst split) (simp only: net_run_append w_def [symmetric] last)
qed

text \<open>An announcement that the hearer has room for.\<close>

lemma heard_all:
  assumes "store_ok st" and "hash_iter ord" and "\<forall>k \<in> dom (index st). lower_hex64 k" and "card (dom (index st)) \<le> 100000"
    and "h \<in> dom (index st)"
  shows "learn_message (Some a) (str_bytes (held_body (store_list ord st))) Map.empty h = Some {a}"
proof -
  have "finite (dom (index st))" using assms(1) by (simp add: store_ok_defs)
  then have "has_room Map.empty (ord (dom (index st)))"
    using assms(2,4) by (simp add: has_room_def MAX_TRACKED_HASHES_def set_hash_iter)
  moreover have "table_ok Map.empty" by (simp add: table_ok_def)
  ultimately show ?thesis using announcement_learned [OF assms(1-3), of Map.empty a h] assms(5) by simp
qed

text \<open>The announcement takes 65 bytes for each hash.\<close>

lemma join_hex_length: "list_all lower_hex64 hs \<Longrightarrow> hs \<noteq> [] \<Longrightarrow> length (join_str [CHR 0x0A] hs) + 1 = 65 * length hs"
proof (induction "[CHR 0x0A]" hs rule: join_str.induct)
  case (2 x)
  then show ?case by (simp add: lower_hex64_def)
next
  case (3 x y ys)
  then have "length x = 64" by (simp add: lower_hex64_def)
  with 3 show ?case by simp
qed simp

lemma held_body_length:
  assumes "store_ok st" and "hash_iter ord" and "\<forall>h \<in> dom (index st). lower_hex64 h" and "dom (index st) \<noteq> {}"
  shows "length (held_body (store_list ord st)) + 1 = 65 * card (dom (index st))"
proof -
  let ?hs = "ord (dom (index st))"
  have "finite (dom (index st))" using assms(1) by (simp add: store_ok_defs)
  then have hs: "set ?hs = dom (index st)" "distinct ?hs" using assms(2) by (simp_all add: set_hash_iter distinct_hash_iter)
  have "map (\<lambda>(h, _). p2p_norm h) (store_list ord st) = ?hs"
    using hs(1) assms(3) by (auto simp: store_list_def norm_0x_lower_hex64 intro!: map_idI simp del: append.simps)
  then have "held_body (store_list ord st) = join_str [CHR 0x0A] ?hs" by (simp add: held_body_def)
  moreover have "list_all lower_hex64 ?hs" using hs(1) assms(3) by (simp add: list_all_iff)
  moreover have "?hs \<noteq> []" using hs(1) assms(4) by (metis empty_set)
  moreover have "length ?hs = card (dom (index st))" using hs distinct_card by metis
  ultimately show ?thesis using join_hex_length by metis
qed

text \<open>
  Above the size limit of gossipsub the announcement is not published, whatever peer connects: the node is not heard
  of. The limit is 64 KiB by default, envelope included, so that is 1009 blobs.
\<close>

lemma large_node_unheard:
  assumes "w_nodes w a = Some (p2p_start st None)" and "store_ok st" and "hash_iter (ev_order e)"
    and "\<forall>h \<in> dom (index st). lower_hex64 h" and "gossip_max conf + 1 < 65 * card (dom (index st))"
  shows "w_gossip (fst (net_step conf w (Inside a e (ConnEstablished b addr)))) = w_gossip w"
proof -
  have fin: "finite (dom (index st))" using assms(2) by (simp add: store_ok_defs)
  have "dom (index st) \<noteq> {}" using assms(5) by (metis card.empty mult_0_right not_less_zero)
  then obtain h where h: "h \<in> dom (index st)" by blast
  have "\<not> length (held_body (store_list (ev_order e) st)) \<le> gossip_max conf"
    using held_body_length [OF assms(2-4)] h assms(5) by fastforce
  then show ?thesis
    using assms(1) step_meet [OF h fin assms(3), of "node_conf conf a" b addr] by (simp add: enter_def)
qed

end
