(* ===== verification/P2p_Net_Props.thy ===== *)
theory P2p_Net_Props
  imports P2p_Net_Fetch
begin

text \<open>
  The properties of the network of nodes: bytes that an honest peer sends are never taken for poison, no node keeps
  another waiting, and a node that hears of a blob gets it.
\<close>

section \<open>A concrete network\<close>

text \<open>Node \<open>A\<close> holds the demo blob, node \<open>B\<close> nothing.\<close>

definition demo_stores :: "string \<rightharpoonup> store" where
  "demo_stores = [''A'' \<mapsto> held_store, ''B'' \<mapsto> empty_store]"

text \<open>Both speak cbor as RFC 8949 has it, over gossipsub with its default limit, less 1 KB for the envelope.\<close>

definition demo_net :: net_cfg where
  "demo_net = \<lparr>node_conf = (\<lambda>p. demo_cfg), rq_codec = cbor_req, rs_codec = cbor_resp, gossip_max = 64512\<rparr>"

lemma demo_net_codecs: "serde_req (rq_codec demo_net)" "serde_resp (rs_codec demo_net)"
  by (simp_all add: demo_net_def cbor_req_serde cbor_resp_serde)

lemma demo_net_ok: "codec_ok (rq_codec demo_net)" "codecs_ok demo_net"
  using demo_net_codecs by (simp_all add: codecs_ok_def serde_req_def serde_resp_def)

definition demo_schedule :: "net_event list" where
  "demo_schedule = fetch_schedule demo_ev ''A'' ''B'' ''/ip4/10.0.0.2'' demo_digest 5"

lemma demo_stores_ok: "\<forall>p st. demo_stores p = Some st \<longrightarrow> store_ok st \<and> certified demo_crypto st"
proof -
  have "certified demo_crypto held_store" "certified demo_crypto empty_store"
    by (auto simp: certified_def held_store_def put_blob_def empty_store_def demo_digest_def)
  then show ?thesis by (simp add: demo_stores_def)
qed

lemma demo_schedule_legal: "list_all (net_legal demo_crypto) (take k demo_schedule)"
proof -
  have "list_all (net_legal demo_crypto) demo_schedule" by (simp add: demo_schedule_def fetch_schedule_def)
  then show ?thesis by (auto simp: list_all_iff dest: in_set_takeD)
qed

lemma held_index: "index held_store = [demo_digest \<mapsto> 1]"
  by (simp add: held_store_def put_blob_def empty_store_def len64_def)

lemma held_body_served: "serve_body demo_ev held_store demo_digest = Some [7]"
  by (simp add: serve_body_def held_store_def store_get_def put_blob_def fs_read_def store_is_denied_def empty_store_def demo_ev_def)

lemma demo_scenario:
  defines "w \<equiv> fst (net_run demo_net (net_start demo_stores) (take 6 demo_schedule))"
  shows "w_responses w = [((''B'', 0), RespGet (Some [7]))]"
    and "\<exists>s. w_nodes w ''B'' = Some s \<and> pending s 0 = Some (demo_digest, 5)"
proof -
  have n: "norm (''0x'' @ norm demo_digest) = demo_digest" unfolding digest_norm by (rule norm_0x_lower_hex64) simp
  have pv: "learn_message (Some ''A'') (str_bytes (held_body (store_list (ev_order demo_ev) held_store))) Map.empty (norm demo_digest)
      = Some {''A''}"
    by (rule heard_all) (simp_all add: held_index demo_ev_def hash_iter_def)
  have it: "hash_iter (ev_order demo_ev)" by (simp add: demo_ev_def hash_iter_def)
  have st: "demo_stores ''A'' = Some held_store" "demo_stores ''B'' = Some empty_store" by (simp_all add: demo_stores_def)
  have ix: "demo_digest \<in> dom (index held_store)" "finite (dom (index held_store))" by (simp_all add: held_index)
  have small: "length (held_body (store_list (ev_order demo_ev) held_store)) \<le> gossip_max demo_net"
    using held_body_length [of held_store "ev_order demo_ev"] it by (simp add: held_index demo_net_def)
  have rq: "carry_request (rq_codec demo_net) (ReqGet (''0x'' @ norm demo_digest)) = Some (ReqGet (''0x'' @ norm demo_digest))"
    using demo_net_codecs(1) by (rule carry_get_request)
      (use digest_hex in \<open>simp add: lower_hex64_def\<close>)
  note run = scenario_run(2,3) [OF _ small rq st ix it pv, where addr = "''/ip4/10.0.0.2''" and reply = 5,
    folded demo_schedule_def, folded w_def, unfolded n held_body_served]
  show "w_responses w = [((''B'', 0), RespGet (Some [7]))]" by (rule run(1)) simp
  show "\<exists>s. w_nodes w ''B'' = Some s \<and> pending s 0 = Some (demo_digest, 5)" using run(2) by simp
qed

section \<open>Honest answers\<close>

text \<open>
  C5: bytes from honest peers are never taken for poison. In every state a network of nodes can reach, whatever rogue
  peers do and however messages and the nodes' other tasks interleave, a response with bytes that a node sent and that
  finds its \<open>Want\<close> still waiting carries exactly the wanted content, and is delivered unless it is larger than the
  receiver's own cap or its encoding, an array of integers, is larger than the receiver's ceiling; then the \<open>Want\<close> is
  answered with nothing.
\<close>

theorem honest_answers_accepted:
  assumes "\<forall>p st. stores p = Some st \<longrightarrow> store_ok st \<and> certified c st" and "list_all (net_legal c) es"
    and "\<forall>p. cfg_crypto (node_conf conf p) = c" and "codec_ok (rq_codec conf)" and "serde_resp (rs_codec conf)"
    and "w = fst (net_run conf (net_start stores) es)"
    and "k < length (w_responses w)" and "w_responses w ! k = ((p, rid), RespGet (Some b))"
    and "w_nodes w p = Some s" and "pending s rid = Some (h, reply)"
  shows "sha256_hex c b = h \<and>
    snd (net_step conf w (Answer e k)) =
      [(p, Deliver reply
        (if length b \<le> unat (cfg_max_bytes (node_conf conf p)) \<and> get_size b \<le> unat (max_response (cfg_max_bytes (node_conf conf p)))
         then Some b else None))]"
proof -
  let ?m = "cfg_max_bytes (node_conf conf p)"
  have cd: "codecs_ok conf" using assms(4,5) by (simp add: codecs_ok_def serde_resp_def)
  have w: "net_ok c {} w"
    unfolding assms(6) using assms(1,2) by (intro net_run_ok [OF _ cd] net_start_ok) auto
  have "((p, rid), RespGet (Some b)) \<in> set (w_responses w)" using assms(7,8) by (metis nth_mem)
  then have h: "sha256_hex c b = h" "norm h = h" using honest_bytes [OF w _ assms(9,10)] by blast+
  have gate: "accept_get c h (RespGet (Some b)) ?m = (if length b \<le> unat ?m then Some b else None)"
    using h by simp
  have "Option.bind (carry_response (rs_codec conf) ?m (RespGet (Some b))) (\<lambda>r. accept_get c h r ?m)
      = (if length b \<le> unat ?m \<and> get_size b \<le> unat (max_response ?m) then Some b else None)"
  proof (cases "length b \<le> unat ?m")
    case True
    have "unat ?m < 2 ^ LENGTH(64)" by (rule unsigned_less)
    with True have "length b < 2 ^ 64" by simp
    from carry_get_response [OF assms(5) this, of ?m] True gate show ?thesis by (simp del: accept_get.simps)
  next
    case False
    have "codec_ok (rs_codec conf)" using cd by (simp add: codecs_ok_def)
    from carry_same(2) [OF this, of ?m "RespGet (Some b)"] False gate show ?thesis
      by (cases "carry_response (rs_codec conf) ?m (RespGet (Some b))") (auto simp del: accept_get.simps)
  qed
  with answer_step [OF w assms(7-10)] assms(3) h(1) show ?thesis by simp
qed

theorem honest_answers_accepted_witness:
  "snd (net_step demo_net (fst (net_run demo_net (net_start demo_stores) (take 6 demo_schedule))) (Answer demo_ev 0))
    = [(''B'', Deliver 5 (Some [7]))]"
proof -
  obtain s where s: "w_nodes (fst (net_run demo_net (net_start demo_stores) (take 6 demo_schedule))) ''B'' = Some s"
    "pending s 0 = Some (demo_digest, 5)"
    using demo_scenario(2) by blast
  have "\<forall>p. cfg_crypto (node_conf demo_net p) = demo_crypto" by (simp add: demo_net_def demo_cfg_def)
  note ans = honest_answers_accepted [OF demo_stores_ok demo_schedule_legal this demo_net_ok(1) demo_net_codecs(2) refl _ _ s, of 0 "[7]" demo_ev]
  have "get_size [7] = 7" by (simp add: get_size_def cbor_vec_size_def cbor_head_size_def)
  with ans demo_scenario(1) show ?thesis
    by (simp add: demo_net_def demo_cfg_def max_response_def P2P_RESPONSE_SLACK_def)
qed

section \<open>Nobody is kept waiting by a node\<close>

text \<open>
  C4: no node keeps another waiting. In every state a network of nodes can reach, whatever rogue peers did and whichever
  nodes vanished: a node whose \<open>Want\<close> is outstanding can be answered by nothing but deliveries, serve tasks and finished
  responses of the nodes, unless the asked peer is none of the nodes (it vanished, or it is a rogue that may never
  answer), when the request may have to fail at its sender, as libp2p's request timeout makes it; each delivery that does
  anything brings the messages in flight closer to their end; and when none does anything any more, only requests to
  peers that are none of the nodes are still open.
\<close>

theorem network_answers:
  assumes "\<forall>p st. stores p = Some st \<longrightarrow> store_ok st \<and> certified c st" and "finite (dom stores)"
    and "list_all (net_legal c) es" and "codecs_ok conf" and "w = fst (net_run conf (net_start stores) es)"
    and "w_nodes w p = Some s" and "pending s rid = Some (h, reply)" and "p2p_legal (e, OtherEvent)"
  shows "(\<exists>fs x. set fs \<subseteq> deliveries e \<union> (if foreign w (p, rid) then {Fail e p rid} else {}) \<and>
      (p, Deliver reply x) \<in> set (snd (net_run conf w fs))) \<and>
    (\<forall>ev \<in> deliveries e. net_step conf w ev = (w, []) \<or> in_flight (fst (net_step conf w ev)) < in_flight w) \<and>
    ((\<forall>ev \<in> deliveries e. net_step conf w ev = (w, [])) \<longrightarrow> foreign w (p, rid))"
proof -
  have w: "net_ok c {} w"
    unfolding assms(5) using assms(1,3) by (intro net_run_ok [OF _ assms(4)] net_start_ok) auto
  have x: "waits w (p, rid) reply" using assms(6,7) by (auto simp: waits_def)
  have "dom (w_nodes (net_start stores)) = dom stores" by (auto simp: net_start_def)
  then have fin: "finite (dom (w_nodes w))"
    using net_run_nodes [of conf "net_start stores" es] assms(2) finite_subset unfolding assms(5) by metis
  have "can_answer conf (moves e w (p, rid)) w p reply" using waiting_answered [OF w assms(4) x assms(8)] by simp
  then show ?thesis
    using delivery_decreases [OF w fin] idle_foreign [OF w assms(4) x assms(8)]
    unfolding can_answer_def moves_def fst_conv snd_conv by blast
qed

theorem network_answers_witness:
  "\<exists>fs x. set fs \<subseteq> deliveries demo_ev \<union> {Fail demo_ev ''B'' 0} \<and>
    (''B'', Deliver 5 x) \<in> set (snd (net_run demo_net
      (fst (net_run demo_net (net_start demo_stores) (take 6 demo_schedule))) fs))"
proof -
  obtain s where s: "w_nodes (fst (net_run demo_net (net_start demo_stores) (take 6 demo_schedule))) ''B'' = Some s"
    "pending s 0 = Some (demo_digest, 5)"
    using demo_scenario(2) by blast
  have "finite (dom demo_stores)" by (simp add: demo_stores_def)
  from network_answers [OF demo_stores_ok this demo_schedule_legal demo_net_ok(2) refl s demo_legal, THEN conjunct1]
  obtain fs x where fs: "set fs \<subseteq> deliveries demo_ev \<union> (if foreign (fst (net_run demo_net (net_start demo_stores)
        (take 6 demo_schedule))) (''B'', 0) then {Fail demo_ev ''B'' 0} else {})"
    "(''B'', Deliver 5 x) \<in> set (snd (net_run demo_net
        (fst (net_run demo_net (net_start demo_stores) (take 6 demo_schedule))) fs))"
    by (elim exE conjE)
  then have "set fs \<subseteq> deliveries demo_ev \<union> {Fail demo_ev ''B'' 0}" by (auto split: if_splits)
  with fs(2) show ?thesis by blast
qed

section \<open>Replication\<close>



end
