(* ===== verification/Repo_Net_Tests.thy ===== *)
theory Repo_Net_Tests
  imports Repo_Gateway_Tests P2p_Net_Props
begin

text \<open>
  The tests of tests/p2p.rs, translated: two real event loops over loopback are a network of two nodes. The tests retry
  until the gossip mesh has formed; here some wants come before the announcement, and the messages are then delivered in
  order.
\<close>

section \<open>The tests\<close>

definition PEER_GOOD :: bytes where
  "PEER_GOOD = str_bytes (''{'' @ [CHR 0x22] @ ''body'' @ [CHR 0x22] @ '':'' @ [CHR 0x22] @ ''peer-replicated'' @ [CHR 0x22]
     @ '','' @ [CHR 0x22] @ ''v'' @ [CHR 0x22] @ '':1}'')"

definition WRONG :: bytes where
  "WRONG = str_bytes ''this is not the content for that hash''"

definition test_env :: "bench \<Rightarrow> p2p_env" where
  "test_env t = \<lparr>ev_order = set_order (t_io t), ev_read = True, ev_io = t_io t\<rparr>"

text \<open>Both nodes of a test: 1 MiB caps, and libp2p with its cbor codec and gossipsub limit.\<close>

definition test_cfg :: "bench \<Rightarrow> req codec \<Rightarrow> resp codec \<Rightarrow> net_cfg" where
  "test_cfg t rq rs =
     \<lparr>node_conf = (\<lambda>p. \<lparr>cfg_crypto = t_crypto t, cfg_max_bytes = push_bit 20 1\<rparr>), rq_codec = rq, rs_codec = rs,
      gossip_max = 64512\<rparr>"

text \<open>The loop that wants until bytes come: the first delivery at \<open>b\<close> that carries any.\<close>

fun got :: "string \<Rightarrow> (string \<times> p2p_out) list \<Rightarrow> bytes option" where
  "got b [] = None"
| "got b ((p, Deliver reply (Some x)) # outs) = (if p = b then Some x else got b outs)"
| "got b (out # outs) = got b outs"

text \<open>\<open>n\<close> wants too early, then the scenario of \<open>fetch_schedule\<close>.\<close>

definition test_events :: "bench \<Rightarrow> string \<Rightarrow> string \<Rightarrow> string \<Rightarrow> nat \<Rightarrow> string \<Rightarrow> net_event list" where
  "test_events t a b addr n h =
     replicate n (Inside b (test_env t) (Want (''0x'' @ h) 0)) @ fetch_schedule (test_env t) a b addr (''0x'' @ h) 1"

definition node_b_fetches_from_node_a_without_an_origin ::
  "bench \<Rightarrow> req codec \<Rightarrow> resp codec \<Rightarrow> string \<Rightarrow> string \<Rightarrow> string \<Rightarrow> nat \<Rightarrow> bool" where
  "node_b_fetches_from_node_a_without_an_origin t rq rs a b addr n =
     opened t Map.empty (\<lambda>sa.
       let h = sha256_hex (t_crypto t) PEER_GOOD
       in put_unwrap t sa h PEER_GOOD (\<lambda>sa.
            opened t Map.empty (\<lambda>sb.
              store_has sb h = None \<and>
              (let outs = snd (net_run (test_cfg t rq rs) (net_start [a \<mapsto> sa, b \<mapsto> sb]) (test_events t a b addr n h))
               in got b outs = Some PEER_GOOD \<and> sha256_hex (t_crypto t) (the (got b outs)) = h))))"

definition a_malicious_peer_serving_wrong_bytes_cannot_poison ::
  "bench \<Rightarrow> req codec \<Rightarrow> resp codec \<Rightarrow> string \<Rightarrow> string \<Rightarrow> string \<Rightarrow> nat \<Rightarrow> bool" where
  "a_malicious_peer_serving_wrong_bytes_cannot_poison t rq rs a b addr n =
     opened t Map.empty (\<lambda>sa.
       let h = sha256_hex (t_crypto t) PEER_GOOD
       in sha256_hex (t_crypto t) WRONG \<noteq> h \<and>
          put_unwrap t sa h WRONG (\<lambda>sa.
            opened t Map.empty (\<lambda>sb.
              (case net_run (test_cfg t rq rs) (net_start [a \<mapsto> sa, b \<mapsto> sb]) (test_events t a b addr n h) of
                 (w, outs) \<Rightarrow>
                   got b outs \<noteq> Some WRONG \<and> got b outs = None \<and>
                   (case w_nodes w b of Some s \<Rightarrow> store_has (p_store s) h = None | None \<Rightarrow> False)))))"

definition want_for_an_unknown_hash_returns_none :: "bench \<Rightarrow> req codec \<Rightarrow> resp codec \<Rightarrow> string \<Rightarrow> bool" where
  "want_for_an_unknown_hash_returns_none t rq rs b =
     opened t Map.empty (\<lambda>s.
       snd (net_run (test_cfg t rq rs) (net_start [b \<mapsto> s]) [Inside b (test_env t) (Want (''0x'' @ concat (replicate 32 ''ab'')) 0)])
         = [(b, Deliver 0 None)])"

section \<open>The tests hold\<close>

lemma early_want:
  assumes "w_nodes w b = Some s" and "running s" and "providers s = Map.empty"
  shows "net_step conf w (Inside b e (Want hash reply)) = (w, [(b, Deliver reply None)])"
  using assms by (simp add: enter_def p2p_step_def on_want_def fun_upd_idem Let_def)

lemma early_wants:
  assumes "w_nodes w b = Some s" and "running s" and "providers s = Map.empty"
  shows "net_run conf w (replicate n (Inside b e (Want hash reply)) @ es)
    = (fst (net_run conf w es), replicate n (b, Deliver reply None) @ snd (net_run conf w es))"
  using early_want [OF assms, of conf e hash reply] by (induction n) (simp_all add: split_beta Let_def del: net_step.simps)

lemma got_early: "got b (replicate n (b, Deliver reply None) @ outs) = got b outs"
  by (induction n) simp_all

lemma got_last: "got b [(a, Publish x), (b, SendRequest p i q), (a, SendResponse j r), (b, Deliver k y)] = y"
  by (cases y) simp_all

text \<open>Whatever bytes the first node holds under the hash, the second gets them if they pass its gate.\<close>

lemma test_run:
  fixes x :: bytes and addr :: string and n :: nat
  assumes t: "bench_ok t" and cd: "serde_req rq" "serde_resp rs" and ab: "a \<noteq> b" and hex: "lower_hex64 h"
    and x: "length x < 1000"
  defines "r \<equiv> net_run (test_cfg t rq rs) (net_start [a \<mapsto> put_blob empty_store h x, b \<mapsto> empty_store]) (test_events t a b addr n h)"
  shows "got b (snd r) = accept_get (t_crypto t) h (RespGet (Some x)) (push_bit 20 1)"
    and "\<exists>s. w_nodes (fst r) b = Some s \<and> p_store s = empty_store"
proof -
  let ?stores = "[a \<mapsto> put_blob empty_store h x, b \<mapsto> empty_store]" and ?sa = "put_blob empty_store h x" and ?e = "test_env t"
  have st: "?stores a = Some ?sa" "?stores b = Some empty_store" using ab by simp_all
  have ix: "h \<in> dom (index ?sa)" "finite (dom (index ?sa))" by (simp_all add: first_put)
  have it: "hash_iter (ev_order ?e)" using t by (simp add: test_env_def bench_ok_def order_ok_def)
  have norm: "norm (''0x'' @ h) = h" "norm h = h" using hex by (simp_all only: norm_0x_lower_hex64 norm_lower_hex64)
  have pv: "learn_message (Some a) (str_bytes (held_body (store_list (ev_order ?e) ?sa))) Map.empty (norm (''0x'' @ h)) = Some {a}"
    unfolding norm by (rule heard_all [OF first_put_ok [OF hex] it]) (simp_all add: first_put hex)
  have body: "serve_body ?e ?sa h = Some x"
    using put_blob_get [OF hex] by (simp add: serve_body_def store_is_denied_def first_put test_env_def)
  have small: "length (held_body (store_list (ev_order ?e) ?sa)) \<le> gossip_max (test_cfg t rq rs)"
    using held_body_length [OF first_put_ok [OF hex] it] hex by (simp add: first_put test_cfg_def)
  have rq: "carry_request (rq_codec (test_cfg t rq rs)) (ReqGet (''0x'' @ norm (''0x'' @ h))) = Some (ReqGet (''0x'' @ norm (''0x'' @ h)))"
    unfolding norm by (rule carry_get_request) (use hex cd in \<open>simp_all add: lower_hex64_def test_cfg_def\<close>)
  have carry: "carry_response rs (push_bit 20 1) (RespGet (Some x)) = Some (RespGet (Some x))"
    using carry_get_response [OF cd(2), of x "push_bit 20 1"] get_size_bounds(1) [of x] x
    by (simp add: max_response_def P2P_RESPONSE_SLACK_def)
  note run = scenario_run(1,4) [OF ab small rq st ix it pv, where addr = addr and reply = 1, unfolded norm body]
  have b: "w_nodes (net_start ?stores) b = Some (p2p_start empty_store None)" using st(2) by (rule start_nodes)
  have r: "r = (fst (net_run (test_cfg t rq rs) (net_start ?stores) (fetch_schedule ?e a b addr (''0x'' @ h) 1)),
      replicate n (b, Deliver 0 None) @ snd (net_run (test_cfg t rq rs) (net_start ?stores) (fetch_schedule ?e a b addr (''0x'' @ h) 1)))"
    unfolding r_def test_events_def by (rule early_wants [OF b]) (simp_all add: p2p_start_def)
  show "got b (snd r) = accept_get (t_crypto t) h (RespGet (Some x)) (push_bit 20 1)"
    unfolding r snd_conv got_early run(1) got_last using carry by (simp add: test_cfg_def del: accept_get.simps)
  show "\<exists>s. w_nodes (fst r) b = Some s \<and> p_store s = empty_store"
    unfolding r fst_conv run(2) by (simp add: informed_def p2p_start_def)
qed

lemma net_test_1:
  assumes t: "bench_ok t" and cd: "serde_req rq" "serde_resp rs" and ab: "a \<noteq> b"
  shows "node_b_fetches_from_node_a_without_an_origin t rq rs a b addr n"
proof -
  define h where "h = sha256_hex (t_crypto t) PEER_GOOD"
  have hex: "lower_hex64 h" unfolding h_def using t by (rule bench_hex)
  have "length PEER_GOOD = 32" by (simp add: PEER_GOOD_def str_bytes_def)
  then have "accept_get (t_crypto t) h (RespGet (Some PEER_GOOD)) (push_bit 20 1) = Some PEER_GOOD"
    using norm_lower_hex64 [OF hex] by (simp add: accept_get_iff h_def)
  moreover have "store_has empty_store h = None" by (simp add: store_has_def empty_store_def)
  moreover have "length PEER_GOOD < 1000" by (simp add: PEER_GOOD_def str_bytes_def)
  ultimately show ?thesis
    unfolding node_b_fetches_from_node_a_without_an_origin_def opened_empty [OF t] Let_def h_def [symmetric]
      first_put_unwrap [OF t hex]
    using test_run(1) [OF t cd ab hex, of PEER_GOOD addr n] by (simp add: h_def)
qed

lemma net_test_2:
  assumes t: "bench_ok t" and cd: "serde_req rq" "serde_resp rs" and ab: "a \<noteq> b" and ne: "sha256_hex (t_crypto t) WRONG \<noteq> sha256_hex (t_crypto t) PEER_GOOD"
  shows "a_malicious_peer_serving_wrong_bytes_cannot_poison t rq rs a b addr n"
proof -
  define h where "h = sha256_hex (t_crypto t) PEER_GOOD"
  have hex: "lower_hex64 h" unfolding h_def using t by (rule bench_hex)
  have gate: "accept_get (t_crypto t) h (RespGet (Some WRONG)) (push_bit 20 1) = None"
    using ne norm_lower_hex64 [OF hex] by (simp add: h_def)
  obtain w outs where r: "net_run (test_cfg t rq rs) (net_start [a \<mapsto> put_blob empty_store h WRONG, b \<mapsto> empty_store])
      (test_events t a b addr n h) = (w, outs)" by fastforce
  have "got b outs = None" "\<exists>s. w_nodes w b = Some s \<and> p_store s = empty_store"
    using test_run [OF t cd ab hex, of WRONG addr n] unfolding r gate by (simp_all add: WRONG_def str_bytes_def)
  moreover have "store_has empty_store h = None" by (simp add: store_has_def empty_store_def)
  ultimately show ?thesis
    unfolding a_malicious_peer_serving_wrong_bytes_cannot_poison_def opened_empty [OF t] Let_def h_def [symmetric]
      first_put_unwrap [OF t hex] r
    using ne by (auto simp: h_def)
qed

lemma net_test_3:
  assumes "bench_ok t"
  shows "want_for_an_unknown_hash_returns_none t rq rs b"
proof -
  have "w_nodes (net_start [b \<mapsto> empty_store]) b = Some (p2p_start empty_store None)" by (rule start_nodes) simp
  from early_want [OF this] show ?thesis
    by (simp add: want_for_an_unknown_hash_returns_none_def opened_empty [OF assms] p2p_start_def del: net_step.simps)
qed

text \<open>
  C36: the peer-to-peer tests hold of the model: with any number of wants before the announcement arrives, node B gets
  the bytes of node A without an origin; if A holds other bytes under the hash, B gets nothing and stores nothing; and a
  lone node answers at once that it knows no peer. For every digest that tells the two contents apart and every codec
  that is cbor as documented.
\<close>

theorem p2p_tests_hold:
  assumes "bench_ok t" and "serde_req rq" and "serde_resp rs" and "a \<noteq> b" and "sha256_hex (t_crypto t) WRONG \<noteq> sha256_hex (t_crypto t) PEER_GOOD"
  shows "node_b_fetches_from_node_a_without_an_origin t rq rs a b addr n \<and>
    a_malicious_peer_serving_wrong_bytes_cannot_poison t rq rs a b addr n \<and> want_for_an_unknown_hash_returns_none t rq rs b"
  using net_test_1 [OF assms(1-4)] net_test_2 [OF assms] net_test_3 [OF assms(1)] by blast

theorem p2p_tests_hold_witness:
  "node_b_fetches_from_node_a_without_an_origin demo_bench cbor_req cbor_resp ''A'' ''B'' ''/ip4/127.0.0.1'' 3 \<and>
   a_malicious_peer_serving_wrong_bytes_cannot_poison demo_bench cbor_req cbor_resp ''A'' ''B'' ''/ip4/127.0.0.1'' 3"
proof -
  have c: "t_crypto demo_bench = demo_crypto" by (simp add: demo_bench_def)
  have "length WRONG = 37" "length PEER_GOOD = 32" by (simp_all add: WRONG_def PEER_GOOD_def str_bytes_def)
  then have "last (sha256_hex demo_crypto WRONG) \<noteq> last (sha256_hex demo_crypto PEER_GOOD)"
    unfolding demo_sha_last by (simp add: hex_digit_def)
  then have "sha256_hex (t_crypto demo_bench) WRONG \<noteq> sha256_hex (t_crypto demo_bench) PEER_GOOD" unfolding c by metis
  from p2p_tests_hold [OF demo_bench_ok cbor_req_serde cbor_resp_serde _ this, of "''A''" "''B''"] show ?thesis by simp
qed

end
