(* ===== verification/Spec2Isabelle.thy ===== *)
theory Spec2Isabelle
  imports Node_Crash P2p_Peers Repo_Race Repo_Net_Tests
begin

text \<open>
  A verification of csd-swarm, a node that pins and serves the content a chain refers to (the Rust crate under src/). The
  chain names content by SHA-256; the node finds the bytes anywhere (an origin, gateways and peers found on the
  chain), keeps only what hashes to its name, and serves it over HTTP and to other nodes until its operator takes
  it down.

  \<^bold>\<open>The program and its model.\<close> \<open>main\<close> starts three tasks on one blob store: the HTTP gateway, the peer-to-peer
  task and the ingest loop. They share the store and the table of connected peers; the ingest loop sends \<open>Dial\<close>
  and \<open>Want\<close> commands to the peer-to-peer task through a channel of 64 and waits for a \<open>Want\<close> on a oneshot.
  The file names below are those of the crate.

  \<^item> Shared ground. \<open>Prelude\<close>: machine integers, saturating arithmetic, lists, \<open>HashMap\<close> iteration in an
    arbitrary order. \<open>Std_Text\<close>: UTF-8, \<open>str\<close> methods. \<open>Content_Hash\<close>: \<open>norm\<close>, the canonical 64 digits.
    \<open>Disk\<close>: a directory as a map from names to bytes, with file calls that may fail. \<open>Http\<close>: what reqwest
    returns. \<open>Machines\<close>: the locales \<open>machine\<close> (a step function, its legal events, an invariant) and
    \<open>banning_machine\<close> (what is banned is not held until the ban is lifted), interpreted on the store, the
    gateway, the event loop, the store tasks and the running node.
  \<^item> store.rs: \<open>Store\<close> has the state (index, denylist, cached total, files) and one function per method;
    \<open>Store_Inv\<close> the invariant \<open>store_ok\<close>; \<open>Store_Spec\<close> the abstract store of held blobs and bans, and reopening;
    \<open>Store_Budget\<close> the byte budget; \<open>Store_Props\<close> the properties. \<open>Store_Tasks\<close> splits \<open>put\<close>, \<open>deny\<close> (with
    \<open>purge\<close>) and \<open>get\<close> at their awaits, one step per lock region or file call, in any interleaving;
    \<open>Store_Tasks_Inv\<close>, \<open>Store_Tasks_Budget\<close> and \<open>Store_Tasks_Props\<close> say what then still holds.
  \<^item> acquire.rs: \<open>Ip_Addr\<close> (std's addresses and their parser), \<open>Acquire\<close> (the guard on URLs, the capped
    download, the loop over candidates), \<open>Guard_Spec\<close> (the guard as a list of CIDR blocks, and as intervals of
    addresses), \<open>Acquire_Props\<close>.
  \<^item> chain.rs: \<open>Chain\<close> and \<open>Chain_Props\<close> (paging, confirmation depth, deduplication, \<open>urlencode\<close>). gateways.rs
    and peers.rs: \<open>Discovery\<close>.
  \<^item> gateway.rs: \<open>Gateway\<close> (every handler; a panic is a missing reply), \<open>Gateway_Spec\<close>, \<open>Gateway_Conns\<close> (reads
    side by side under the semaphore, as an inductive step relation), \<open>Gateway_Props\<close>.
  \<^item> p2p.rs: \<open>P2p\<close> (codec ceilings, identity file, \<open>accept_get\<close>), \<open>P2p_Loop\<close> (the \<open>select!\<close> loop of \<open>run\<close> as a
    step function; spawned serve tasks are steps of their own), \<open>P2p_Inv\<close>, \<open>P2p_Spec\<close>, \<open>P2p_Props\<close>, \<open>P2p_Peers\<close>
    (connection limits and the peer table).
  \<^item> main.rs: \<open>Node\<close> (configuration, redirect policy, the ingest pass as one function), \<open>Node_Spec\<close>,
    \<open>Node_Props\<close>. \<open>Node_System\<close> is the whole node: \<open>node_boot\<close> is the start, \<open>node_step\<close> one HTTP request, one
    iteration of the event loop, or one stretch of the ingest loop between two awaits; \<open>node_run\<close> is any sequence
    of these. \<open>Node_System_Inv\<close> has its invariant, \<open>Node_System_Run\<close> what holds along runs, \<open>Node_System_Live\<close>
    its progress, \<open>Node_System_Props\<close> the properties.
  \<^item> The node between awaits. \<open>Node_Tasks\<close> suspends GET, HEAD and takedown handlers, serve tasks and the put of
    the ingest task between any two visits to the store, on the tasks of \<open>Store_Tasks\<close>, and lets clients go away;
    \<open>Node_Tasks_Inv\<close> has what every step keeps, \<open>Node_Tasks_Run\<close> and \<open>Node_Tasks_Takedown\<close> what follows a takedown,
    \<open>Node_Tasks_Sim\<close> the simulation of \<open>Node_System\<close>, \<open>Node_Tasks_Props\<close> the properties.
  \<^item> Crashes. \<open>Store_Crash\<close>: the directory a dying process leaves, and a handler dropped while it rewrites the
    denylist; \<open>Node_Crash\<close>: a crash of the node at any moment, and the start that follows.
  \<^item> Many nodes. \<open>P2p_Net\<close> joins any number of event loops of \<open>P2p_Loop\<close>: \<open>net_step\<close> delivers one request, response
    or gossip message, in any order, lets one loop do something of its own, lets a peer vanish, or lets a peer that
    is no node of this program send anything. \<open>P2p_Net_Inv\<close> has its invariant (every outstanding request is
    somewhere between its sender and the peer it was sent to), \<open>P2p_Net_Live\<close> its progress, \<open>P2p_Net_Fetch\<close> the way
    from an announcement to a delivery, \<open>P2p_Net_Props\<close> the properties.
  \<^item> The tests, assertion by assertion: \<open>Repo_Tests\<close> and \<open>Repo_Race\<close> the \<open>mod tests\<close> of the sources,
    \<open>Repo_Gateway_Tests\<close> tests/integration.rs, \<open>Repo_Net_Tests\<close> tests/p2p.rs on a network of two nodes.

  \<^bold>\<open>What is shown.\<close> For the running node, from its start on and under every interleaving of its steps: only bytes
  that hash to what was asked for leave the node (\<open>system_safe\<close>); after a takedown answered 200 the hash is not
  stored again and every read is answered 410 (\<open>system_takedown\<close>); the ingest task's \<open>Want\<close> is always answered
  (\<open>want_never_lost\<close>); and run alone, the ingest task computes the sequential \<open>ingest_pass\<close> (\<open>pass_is_a_run\<close>), so
  that the properties of a pass below (only confirmed content is added; whatever can be had is pinned;
  replication) are about the node. For each component: its invariant, the refinement of an abstract
  store, error paths, bounds (byte budget, tables of the event loop, concurrent reads, pages per domain, response
  ceiling), round trips (reopening, announcements, identity, percent-encoding), and the equivalence of the
  address guard with its list of blocks.

  In \<open>Node_System\<close> a handler and a put are single steps. That this is the special case of a scheduler that lets them
  finish is \<open>overlap_generalises\<close>; with any overlap, \<open>overlap_safe\<close> and \<open>overlap_takedown\<close> hold, and
  \<open>interleaved_store_safe\<close> and \<open>no_takedown_lost\<close> on the store alone. The two races the code leaves open are the
  lemmas \<open>late_put_survives\<close> and \<open>ghost_entry\<close>. A crash at any moment loses no takedown (\<open>crash_recovers\<close>), but a
  client that goes away at one moment does (\<open>dropped_takedown_forgotten\<close>).

  Between nodes, whatever rogue peers do: bytes an honest node sends are never taken for poison
  (\<open>honest_answers_accepted\<close>), only the loss of the asked peer can leave a \<open>Want\<close> unanswered by deliveries alone
  (\<open>network_answers\<close>), and a node that hears of a blob is delivered it (\<open>network_replicates\<close>).

  \<^bold>\<open>Parameters and assumptions.\<close> Code outside src is an argument of the definitions: the SHA-256 digest (32 bytes
  of output, \<open>crypto_ok\<close>; freedom from collisions is assumed only where a byte budget or a test needs it), the
  URL parser, JSON and CBOR decoders, the answers of the network, key generation, the outcome of every file call,
  and the order in which hash maps are visited (\<open>hash_iter\<close>: every element once). \<open>clean_listing\<close> says that a
  directory is read without an error, \<open>honest_dir\<close> that the blobs in it hash to their names when the node starts,
  \<open>conn_trace\<close> what libp2p documents of connection events. The network of nodes builds in what libp2p documents of
  messages: a request reaches the peer it was sent to or is reported as failed, an answer returns to its sender
  under the number of its request, a gossip message carries the peer that signed it. Every property with a hypothesis has an instance.

  \<^bold>\<open>Bounds.\<close> All recursion is structural or on a counter the code has: at most \<open>MAX_PAGES\<close> = 200 requests per
  domain, 16 serve tasks (\<open>MAX_CONCURRENT_SERVES\<close>), 64 commands (\<open>CMD_CAP\<close>). There is no fuel. Machine integers are
  words, and where the code would wrap or saturate the model does.

  \<^bold>\<open>Not modelled.\<close> Logging and metrics; the HTTP client's timeout, TLS and connection pool; axum's routing (the
  request datatype stands for it), body framing and graceful shutdown; \<open>sleep\<close> and the announcement timer, whose
  ticks are events that may come at any time; libp2p's transports, gossip and identify protocols and their
  configuration; a file call that outlives its dropped handler and takes effect later than the drop; the separate
  visits to the store inside a \<open>Have\<close> request and \<open>/health\<close>, which are one step each; the test of the digest's known
  vector, since the digest is a parameter; in the tests of tests/, the sockets, processes and waiting times between
  the parts under test; and a node that vanishes from the network and comes back under the same identity.
\<close>

section \<open>The ingest pass\<close>

text \<open>
  An ingest pass is safe. Whatever the chain node, the origin, the gateways and the peers answer, and while
  takedowns and other verified puts run in between, the store stays well-formed (nothing denied is held, the
  denylist file agrees with memory) and every blob it holds hashes to its key.
\<close>

theorem ingest_pass_safe:
  assumes "store_ok s" and "certified (n_crypto n) s" and "\<And>i. pin_env_ok (n_crypto n) (in_pins x i)"
  shows "store_ok (fst (ingest_pass n x s)) \<and> certified (n_crypto n) (fst (ingest_pass n x s))"
proof (cases "confirmed_pins (in_decoders x) (chain_new (rpc (n_config n))) (in_chain x)
    (confirmations (n_config n)) (per_domain (n_config n))")
  case (Inl e)
  with assms(1,2) show ?thesis by (simp add: ingest_pass_def)
next
  case (Inr ps)
  with ingest_pins_inv [OF assms(1,2), of ps "in_pins x"] assms(3) show ?thesis
    by (simp add: ingest_pass_def split: prod.split) (metis fst_conv)
qed

theorem ingest_pass_safe_witness:
  "store_ok (fst (ingest_pass demo_node node_inputs empty_store))"
proof -
  have "certified (n_crypto demo_node) empty_store" by (simp add: certified_def empty_store_def)
  moreover have "pin_env_ok (n_crypto demo_node) (in_pins node_inputs i)" for i
    by (simp add: pin_env_ok_def node_inputs_def served_env_def)
  ultimately show ?thesis using ingest_pass_safe [OF empty_store_ok] by blast
qed

text \<open>
  C10: the chain is the allowlist. A pass that runs alone adds only content of the chain: every hash it newly
  holds belongs to a proposal fetched in this pass that is confirmed deeply enough, is not denied, and its blob
  hashes to it.
\<close>

theorem ingest_only_confirmed:
  assumes "store_ok s" and "certified (n_crypto n) s" and "pass_env_ok (in_chain x)"
    and "\<And>i. quiet (in_pins x i)" and "ingest_pass n x s = (s', Inr c)"
    and "tip_height (in_decoders x) (chain_new (rpc (n_config n))) (answers (in_chain x)) = Inr tip"
    and "chain_get (dec_domains (in_decoders x)) (chain_new (rpc (n_config n))) (answers (in_chain x)) ''/domains'' = Inr ds"
    and "h \<in> dom (index s')" and "h \<notin> dom (index s)"
  shows "(\<exists>p \<in> pass_proposals (in_decoders x) (chain_new (rpc (n_config n))) (in_chain x) (per_domain (n_config n)) ds.
      unat (p_height p) \<le> unat tip - unat (confirmations (n_config n)) \<and> h = norm (to_lowercase (p_payload_hash p))) \<and>
    h \<notin> denied s' \<and> (\<exists>b. files s' (blob_path h) = Some b \<and> sha256_hex (n_crypto n) b = h)"
proof -
  let ?r = "chain_new (rpc (n_config n))"
  obtain ps where ps: "confirmed_pins (in_decoders x) ?r (in_chain x) (confirmations (n_config n)) (per_domain (n_config n)) = Inr ps"
    using assms(5) by (auto simp: ingest_pass_def split: sum.splits)
  then have s': "s' = fst (ingest_pins n (gw_templates n x) (in_pins x) ps s)"
    using assms(5) by (auto simp: ingest_pass_def split: prod.splits)
  have "pin_env_ok (n_crypto n) (in_pins x i)" for i using assms(4) [of i] by (simp add: pin_env_ok_def quiet_def)
  then have ok: "store_ok s'" "certified (n_crypto n) s'"
    using ingest_pins_inv [OF assms(1,2), of ps "in_pins x" "gw_templates n x"] by (simp_all add: s')
  have "h \<in> dom (index s) \<union> (\<lambda>p. norm (payload_hash p)) ` set ps"
    using ingest_pins_only_pins [of ps "in_pins x" n "gw_templates n x" s] assms(4,8) unfolding s' by blast
  with assms(9) obtain q where q: "q \<in> set ps" "h = norm (payload_hash q)" by blast
  from confirmed_pins_Inr(3) [OF assms(3) ps assms(6,7) q(1)] obtain p where p:
    "p \<in> pass_proposals (in_decoders x) ?r (in_chain x) (per_domain (n_config n)) ds"
    "p_height p \<le> sat_sub tip (confirmations (n_config n))" "q = pin_of p" by blast
  then have "unat (p_height p) \<le> unat tip - unat (confirmations (n_config n))" "h = norm (to_lowercase (p_payload_hash p))"
    by (simp_all add: word_le_nat_alt unat_sat_sub q(2) pin_of_def)
  moreover have "h \<notin> denied s'" using store_run.banned_not_held [OF ok(1)] assms(8) by blast
  moreover have "\<exists>b. files s' (blob_path h) = Some b \<and> sha256_hex (n_crypto n) b = h"
    using ok(2) assms(8) by (auto simp: certified_def)
  ultimately show ?thesis using p(1) by blast
qed

text \<open>
  C23: whatever can be had and fits is pinned. After a pass during which no other task changes the store, take any
  confirmed pin that is not denied, that some candidate URL or a peer served with verifying bytes within the object
  cap, and whose write and rename succeed; bad sources before the good one do not matter. Then it is held, and
  reading it returns bytes that hash to it, unless the store has a byte budget and ends the pass with less room in
  it than one object of the maximal size.
\<close>

theorem ingest_completes:
  assumes "store_ok s" and "certified (n_crypto n) s" and "\<And>i. quiet (in_pins x i)"
    and "confirmed_pins (in_decoders x) (chain_new (rpc (n_config n))) (in_chain x)
      (confirmations (n_config n)) (per_domain (n_config n)) = Inr ps"
    and "i < length ps" and "norm (payload_hash (ps ! i)) \<notin> denied s"
    and "obtainable n (gw_templates n x) (in_pins x i) (ps ! i)"
  shows "(\<exists>b. store_get True (fst (ingest_pass n x s)) (payload_hash (ps ! i)) = Some b \<and>
      sha256_hex (n_crypto n) b = norm (payload_hash (ps ! i))) \<or>
    no_room (max_object (n_config n)) (fst (ingest_pass n x s))"
proof -
  let ?h = "norm (payload_hash (ps ! i))"
  have s': "fst (ingest_pass n x s) = fst (ingest_pins n (gw_templates n x) (in_pins x) ps s)"
    using assms(4) by (simp add: ingest_pass_def split: prod.split)
  have held: "?h \<in> dom (index (fst (ingest_pass n x s))) \<or> no_room (max_object (n_config n)) (fst (ingest_pass n x s))"
    unfolding s' using assms(3-7) by (intro ingest_pins_obtains) simp_all
  have "pin_env_ok (n_crypto n) (in_pins x i)" for i using assms(3) [of i] by (simp add: pin_env_ok_def quiet_def)
  then have "certified (n_crypto n) (fst (ingest_pass n x s))"
    unfolding s' using ingest_pins_inv [OF assms(1,2)] by blast
  then have "\<exists>b. files (fst (ingest_pass n x s)) (blob_path ?h) = Some b \<and> sha256_hex (n_crypto n) b = ?h"
    if "?h \<in> dom (index (fst (ingest_pass n x s)))"
    using that by (auto simp: certified_def)
  with held assms(7) show ?thesis by (auto simp: store_get_def fs_read_def obtainable_def Let_def)
qed

theorem ingest_completes_witness:
  "\<exists>b. store_get True (fst (ingest_pass demo_node node_inputs empty_store)) demo_digest = Some b \<and>
     sha256_hex demo_crypto b = demo_digest"
proof -
  have "certified (n_crypto demo_node) empty_store" "denied empty_store = {}"
    by (simp_all add: certified_def empty_store_def)
  moreover have "quiet (in_pins node_inputs i)" for i by (simp add: quiet_def node_inputs_def served_env_def)
  moreover have "confirmed_pins (in_decoders node_inputs) (chain_new (rpc (n_config demo_node))) (in_chain node_inputs)
      (confirmations (n_config demo_node)) (per_domain (n_config demo_node)) = Inr [demo_pin]"
    by (simp add: node_inputs_def demo_node_def node_pins)
  moreover have "obtainable demo_node (gw_templates demo_node node_inputs) (in_pins node_inputs 0) ([demo_pin] ! 0)"
    using demo_obtainable by (simp add: gw_templates_def demo_node_def node_inputs_def)
  ultimately have "(\<exists>b. store_get True (fst (ingest_pass demo_node node_inputs empty_store)) (payload_hash ([demo_pin] ! 0)) = Some b \<and>
      sha256_hex (n_crypto demo_node) b = norm (payload_hash ([demo_pin] ! 0))) \<or>
    no_room (max_object (n_config demo_node)) (fst (ingest_pass demo_node node_inputs empty_store))"
    by (intro ingest_completes [OF empty_store_ok]) simp_all
  moreover have "max_bytes (fst (ingest_pass demo_node node_inputs empty_store)) = 0"
  proof -
    have "max_bytes (fst (ingest_pins demo_node [] (\<lambda>_. served_env) [demo_pin] empty_store)) = max_bytes empty_store"
      by (rule ingest_pins_max_bytes) (simp add: quiet_def served_env_def)
    moreover have "fst (ingest_pass demo_node node_inputs empty_store)
        = fst (ingest_pins demo_node [] (\<lambda>_. served_env) [demo_pin] empty_store)"
      unfolding demo_pass_run by (simp split: prod.split)
    ultimately show ?thesis by (simp add: empty_store_def)
  qed
  ultimately show ?thesis by (simp add: no_room_def demo_pin_def demo_node_def)
qed

theorem ingest_only_confirmed_witness:
  "\<exists>s' c. ingest_pass demo_node node_inputs empty_store = (s', Inr c) \<and> demo_digest \<notin> denied s' \<and>
     (\<exists>b. files s' (blob_path demo_digest) = Some b \<and> sha256_hex demo_crypto b = demo_digest)"
proof -
  have c: "certified (n_crypto demo_node) empty_store" by (simp add: certified_def empty_store_def)
  have q: "quiet (in_pins node_inputs i)" for i by (simp add: quiet_def node_inputs_def served_env_def)
  obtain s' c where r: "ingest_pass demo_node node_inputs empty_store = (s', Inr c)"
    by (cases "ingest_pins demo_node [] (\<lambda>_. served_env) [demo_pin] empty_store") (simp add: demo_pass_run)
  have "norm (payload_hash ([demo_pin] ! 0)) \<in> dom (index (fst (ingest_pins demo_node [] (\<lambda>_. served_env) [demo_pin] empty_store)))"
    using demo_obtainable
    by (intro ingest_pins_unbounded) (simp_all add: quiet_def served_env_def empty_store_def)
  then have held: "demo_digest \<in> dom (index s')"
    using r by (simp add: demo_pass_run demo_pin_def split: prod.splits) 
  have tip: "tip_height (in_decoders node_inputs) (chain_new (rpc (n_config demo_node))) (answers (in_chain node_inputs)) = Inr 9"
    and doms: "chain_get (dec_domains (in_decoders node_inputs)) (chain_new (rpc (n_config demo_node)))
      (answers (in_chain node_inputs)) ''/domains'' = Inr [''d'']"
    by (simp_all add: tip_height_def node_inputs_def node_get node_decoders_def)
  have p: "pass_env_ok (in_chain node_inputs)" using demo_pass_ok by (simp add: node_inputs_def)
  have "demo_digest \<notin> dom (index empty_store)" by (simp add: empty_store_def)
  from ingest_only_confirmed [OF empty_store_ok c p q r tip doms held this] r show ?thesis
    by (auto simp: demo_node_def)
qed

section \<open>Outgoing requests\<close>

text \<open>
  C11: no request is forged. Every URL the node tries for a pin is the configured origin's endpoint or has a
  public host; an attacker's hint is tried only if the operator opted in; a registered gateway's URL names the
  wanted content; and along any redirect chain the client follows at most three URLs are visited, all after the
  first with a public host.
\<close>

theorem outgoing_urls_guarded:
  assumes "u \<in> set (pin_urls n (gw_templates n x) p)" and "redirect_chain (n_url_parse n) us"
  shows "(u = trim_end_char (CHR ''/'') (origin (n_config n)) @ ''/content/'' @ payload_hash p \<or>
     host_is_public (n_url_parse n) u \<and>
       (u = uri p \<and> follow_uri_hints (n_config n) \<or> contains_str u (trim_start_str ''0x'' (payload_hash p)))) \<and>
    length us \<le> 3 \<and> (\<forall>v \<in> set (tl us). host_is_public (n_url_parse n) v)"
proof -
  have "host_is_public (n_url_parse n) u \<and> contains_str u (trim_start_str ''0x'' (payload_hash p))"
    if "u \<in> set (expand (n_url_parse n) (gw_templates n x) (payload_hash p))"
  proof (cases "indexer (n_config n) = []")
    case True
    with that show ?thesis by (simp add: gw_templates_def expand_def)
  next
    case False
    with that have "u \<in> set (expand (n_url_parse n) (gateways_discover (in_gateways x) (in_indexer x)
        (indexer (n_config n))) (payload_hash p))"
      by (simp add: gw_templates_def)
    then show ?thesis by (intro conjI expand_public expand_names_hash)
  qed
  with assms(1) redirect_chain_public [OF assms(2)] show ?thesis
    by (auto simp: pin_urls_def candidate_urls_def split: if_splits)
qed

theorem outgoing_urls_guarded_witness:
  "''http://127.0.0.1:7777/content/'' @ demo_digest \<in> set (pin_urls demo_node (gw_templates demo_node node_inputs) demo_pin) \<and>
   length [''http://a'', ''http://8.8.8.8''] \<le> (3 :: nat)"
proof -
  have o: "trim_end_char (CHR ''/'') (origin demo_config) = ''http://127.0.0.1:7777''"
    unfolding demo_config_def read_config_def Let_def env_or_def config.simps option.case by code_simp
  have u: "''http://127.0.0.1:7777/content/'' @ demo_digest \<in> set (pin_urls demo_node (gw_templates demo_node node_inputs) demo_pin)"
    by (simp add: pin_urls_def candidate_urls_def demo_node_def demo_pin_def o)
  have "redirect_policy demo_up [''http://a''] ''http://8.8.8.8'' = Follow"
    using demo_up_public by (simp add: redirect_policy_def)
  then have "redirect_chain demo_up ([''http://a''] @ [''http://8.8.8.8''])"
    by (intro redirect_chain.intros)
  then have c: "redirect_chain (n_url_parse demo_node) [''http://a'', ''http://8.8.8.8'']" by (simp add: demo_node_def)
  from outgoing_urls_guarded [OF u c] u show ?thesis by blast
qed

section \<open>Replication\<close>



end
